(* ===== verification/XV6_Prelude.thy ===== *)
theory XV6_Prelude
  imports Main "HOL-Library.Word"
begin

text \<open>
  Shared material of the development: the C integer types, the sleep channels, the
  outcome of a kernel operation and the combinators that sequence such operations, and
  the generic facts on words, lists and outcomes that the component theories rely on.

  A kernel function that may panic or put the caller to sleep is a function from the
  kernel state to an outcome: \<open>Done x s\<close> (it returned \<open>x\<close>, the state is \<open>s\<close>),
  \<open>Panic msg\<close> (it called \<open>panic(msg)\<close>, which never returns) or \<open>Swtch s\<close> (it gave up
  the CPU: \<open>s\<close> is the state when \<open>sched\<close> switches to the scheduler). What such a
  function does when its process runs again is a definition of its own.
\<close>

unbundle bit_operations_syntax

section \<open>C types\<close>

type_synonym byte = "8 word"     \<comment> \<open>\<open>uchar\<close>, and \<open>char\<close> as its bit pattern\<close>
type_synonym ushort = "16 word"
type_synonym uint = "32 word"

lemma unat_add_acc:
  fixes a b :: uint
  assumes "unat a + unat b < 2 ^ 32"
  shows "unat (a + b) = unat a + unat b"
  using assms by (simp add: unat_word_ariths)

lemma sint_nonneg:
  fixes w :: uint
  assumes "unat w < 2 ^ 31"
  shows "sint w = int (unat w)"
proof -
  define n where "n = unat w"
  have u: "uint w = int n" by (simp add: n_def)
  have "n < 2147483648" using assms by (simp add: n_def)
  then have "signed_take_bit 31 (int n) = int n"
    by (intro signed_take_bit_int_eq_self) simp_all
  then show ?thesis unfolding sint_uint u n_def [symmetric] by simp
qed

section \<open>Kernel addresses\<close>

definition KERNBASE :: uint where
  "KERNBASE = 0x80000000"

definition v2p :: "uint \<Rightarrow> uint" where
  "v2p a = a - KERNBASE"

definition p2v :: "uint \<Rightarrow> uint" where
  "p2v a = a + KERNBASE"

section \<open>Sleep channels\<close>

text \<open>
  The code sleeps on addresses (\<open>void *chan\<close>). Each constructor stands for the address of
  one kernel object, so that distinct objects are distinct channels: the tick counter, the
  log, a buffer, an inode, a process (in \<open>wait\<close>), the two counters of a pipe and the
  console's read index.
\<close>

datatype chan = ChTicks | ChLog | ChBuf nat | ChInode nat | ChProc nat
  | ChPipeRead uint | ChPipeWrite uint | ChInput

section \<open>Collections\<close>

named_theorems kexec \<open>equations that execute a kernel operation\<close>
named_theorems kinv \<open>preservation of the component invariants\<close>
named_theorems kframe \<open>parts of the state an operation leaves alone\<close>

section \<open>Outcomes of kernel operations\<close>

datatype ('s, 'a) outcome = Done 'a 's | Panic string | Swtch 's

type_synonym ('s, 'a) kop = "'s \<Rightarrow> ('s, 'a) outcome"

definition kret :: "'a \<Rightarrow> ('s, 'a) kop" where
  "kret x s = Done x s"

definition kpanic :: "string \<Rightarrow> ('s, 'a) kop" where
  "kpanic msg s = Panic msg"

definition kbind :: "('s, 'a) kop \<Rightarrow> ('a \<Rightarrow> ('s, 'b) kop) \<Rightarrow> ('s, 'b) kop" where
  "kbind m f s =
     (case m s of Done x t \<Rightarrow> f x t | Panic msg \<Rightarrow> Panic msg | Swtch t \<Rightarrow> Swtch t)"

definition kseq :: "('s, 'a) kop \<Rightarrow> ('s, 'b) kop \<Rightarrow> ('s, 'b) kop" where
  "kseq m n = kbind m (\<lambda>_. n)"

text \<open>Read a part of the state, and change the state.\<close>

definition kget :: "('s \<Rightarrow> 'a) \<Rightarrow> ('s, 'a) kop" where
  "kget g s = Done (g s) s"

definition kmod :: "('s \<Rightarrow> 's) \<Rightarrow> ('s, unit) kop" where
  "kmod f s = Done () (f s)"

text \<open>\<open>if(cond) panic(msg);\<close>\<close>

definition kpanic_if :: "('s \<Rightarrow> bool) \<Rightarrow> string \<Rightarrow> ('s, unit) kop" where
  "kpanic_if p msg s = (if p s then Panic msg else Done () s)"

text \<open>\<open>for(i = a; i < b; i++) body\<close>, over the list of the values of \<open>i\<close>.\<close>

fun kfor :: "nat list \<Rightarrow> (nat \<Rightarrow> ('s, unit) kop) \<Rightarrow> ('s, unit) kop" where
  "kfor [] f = kret ()"
| "kfor (i # is) f = kseq (f i) (kfor is f)"

lemma kret_simps [simp]: "kret x s = Done x s"
  by (simp add: kret_def)

lemma kpanic_simps [simp]: "kpanic msg s = Panic msg"
  by (simp add: kpanic_def)

lemma kget_simps [simp]: "kget g s = Done (g s) s"
  by (simp add: kget_def)

lemma kmod_simps [simp]: "kmod f s = Done () (f s)"
  by (simp add: kmod_def)

lemma kpanic_if_simps [simp]:
  "p s \<Longrightarrow> kpanic_if p msg s = Panic msg"
  "\<not> p s \<Longrightarrow> kpanic_if p msg s = Done () s"
  by (simp_all add: kpanic_if_def)

lemma kbind_exec [simp]:
  "m s = Done x t \<Longrightarrow> kbind m f s = f x t"
  "m s = Panic msg \<Longrightarrow> kbind m f s = Panic msg"
  "m s = Swtch t \<Longrightarrow> kbind m f s = Swtch t"
  by (simp_all add: kbind_def)

lemma kseq_exec [simp]:
  "m s = Done x t \<Longrightarrow> kseq m n s = n t"
  "m s = Panic msg \<Longrightarrow> kseq m n s = Panic msg"
  "m s = Swtch t \<Longrightarrow> kseq m n s = Swtch t"
  by (simp_all add: kseq_def)

lemma kbind_kget [kexec]: "kbind (kget g) f s = f (g s) s"
  by (simp add: kbind_def)

lemma kseq_kmod [kexec]: "kseq (kmod f) m s = m (f s)"
  by (simp add: kseq_def kbind_def)

lemma kseq_kret [kexec]: "kseq (kret x) m s = m s"
  by (simp add: kseq_def kbind_def)

lemmas kapply = kbind_kget kseq_kmod if_distribR

lemma kbind_Done_iff:
  "kbind m f s = Done y u \<longleftrightarrow> (\<exists>x t. m s = Done x t \<and> f x t = Done y u)"
  by (cases "m s") auto

lemma kseq_Done_iff:
  "kseq m n s = Done y u \<longleftrightarrow> (\<exists>x t. m s = Done x t \<and> n t = Done y u)"
  by (simp add: kseq_def kbind_Done_iff)

lemma kpanic_if_Done_iff:
  "kpanic_if p msg s = Done y u \<longleftrightarrow> \<not> p s \<and> u = s"
  by (auto simp: kpanic_if_def)

lemmas kDone_iffs = kbind_Done_iff kseq_Done_iff kpanic_if_Done_iff

lemma kbind_cong [fundef_cong]:
  assumes "s = s'" and "m s' = m' s'"
    and "\<And>x t. m' s' = Done x t \<Longrightarrow> f x t = f' x t"
  shows "kbind m f s = kbind m' f' s'"
  using assms by (cases "m' s'") (auto simp: kbind_def)

lemma kseq_cong [fundef_cong]:
  assumes "s = s'" and "m s' = m' s'"
    and "\<And>x t. m' s' = Done x t \<Longrightarrow> n t = n' t"
  shows "kseq m n s = kseq m' n' s'"
  using assms by (cases "m' s'") (auto simp: kseq_def kbind_def)

section \<open>Weakest preconditions\<close>

text \<open>
  \<open>wp m Q s\<close>: from \<open>s\<close> the operation returns, with a result and a state that satisfy \<open>Q\<close>.
  It neither panics nor gives up the CPU.
\<close>

definition wp :: "('s, 'a) kop \<Rightarrow> ('a \<Rightarrow> 's \<Rightarrow> bool) \<Rightarrow> 's \<Rightarrow> bool" where
  "wp m Q s \<longleftrightarrow> (case m s of Done x t \<Rightarrow> Q x t | _ \<Rightarrow> False)"

named_theorems wp_rules \<open>weakest preconditions of the combinators\<close>

lemma wp_iff: "wp m Q s \<longleftrightarrow> (\<exists>x t. m s = Done x t \<and> Q x t)"
  by (cases "m s") (simp_all add: wp_def)

lemma wp_kret [wp_rules]: "wp (kret x) Q s \<longleftrightarrow> Q x s"
  by (simp add: wp_def)

lemma wp_Done [wp_rules]: "wp (Done x) Q s \<longleftrightarrow> Q x s"
  by (simp add: wp_def)

lemma wp_kbind [wp_rules]: "wp (kbind m f) Q s \<longleftrightarrow> wp m (\<lambda>x. wp (f x) Q) s"
  by (cases "m s") (simp_all add: wp_def)

lemma wp_kseq [wp_rules]: "wp (kseq m n) Q s \<longleftrightarrow> wp m (\<lambda>_. wp n Q) s"
  by (cases "m s") (simp_all add: wp_def)

lemma wp_kget [wp_rules]: "wp (kget g) Q s \<longleftrightarrow> Q (g s) s"
  by (simp add: wp_def)

lemma wp_kmod [wp_rules]: "wp (kmod f) Q s \<longleftrightarrow> Q () (f s)"
  by (simp add: wp_def)

lemma wp_kpanic_if [wp_rules]: "wp (kpanic_if p msg) Q s \<longleftrightarrow> \<not> p s \<and> Q () s"
  by (simp add: wp_def kpanic_if_def)

lemma wp_kpanic [wp_rules]: "wp (kpanic msg) Q s \<longleftrightarrow> False"
  by (simp add: wp_def)

lemma wp_if [wp_rules]: "wp (if b then m else n) Q s \<longleftrightarrow> (if b then wp m Q s else wp n Q s)"
  by simp

lemma wp_mono: "wp m Q s \<Longrightarrow> (\<And>x t. Q x t \<Longrightarrow> R x t) \<Longrightarrow> wp m R s"
  by (auto simp: wp_iff)

lemma wp_DoneI: "m s = Done x t \<Longrightarrow> Q x t \<Longrightarrow> wp m Q s"
  by (simp add: wp_def)

lemma wp_kfor:
  assumes "P a s" and "a \<le> b"
    and "\<And>i t. a \<le> i \<Longrightarrow> i < b \<Longrightarrow> P i t \<Longrightarrow> wp (f i) (\<lambda>_. P (Suc i)) t"
  shows "wp (kfor [a..<b] f) (\<lambda>_. P b) s"
  using assms
proof (induction "b - a" arbitrary: a s)
  case 0
  then show ?case by (simp add: wp_Done)
next
  case (Suc n)
  then have c: "[a..<b] = a # [Suc a..<b]" by (simp add: upt_rec)
  have "wp (f a) (\<lambda>_. P (Suc a)) s" using Suc by simp
  moreover have "wp (kfor [Suc a..<b] f) (\<lambda>_. P b) t" if "P (Suc a) t" for t
    using Suc that by (intro Suc.hyps(1)) auto
  ultimately show ?case unfolding c kfor.simps wp_kseq by (rule wp_mono)
qed

end
