(* ===== verification/Ring.thy ===== *)
theory Ring
  imports XV6_Prelude
begin

text \<open>
  Ring buffers with free-running 32-bit counters, as pipes (\<^verbatim>\<open>src/pipe.c\<close>) and the console
  input (\<^verbatim>\<open>src/console.c\<close>) use them: the counters wrap at \<open>2\<^sup>3\<^sup>2\<close>, the buffer's length divides
  that, and what is in the buffer is the segment between the counters. The locale \<open>fifo\<close>
  is the contract of a bounded queue.
\<close>

section \<open>The segment between two counters\<close>

definition ring :: "'a list \<Rightarrow> uint \<Rightarrow> uint \<Rightarrow> 'a list" where
  "ring b r w = map (\<lambda>k. b ! (unat (r + of_nat k) mod length b)) [0..<unat (w - r)]"

definition ring_size :: "nat \<Rightarrow> bool" where
  "ring_size n \<longleftrightarrow> 0 < n \<and> n < 2 ^ 32 \<and> n dvd 2 ^ 32"

lemma length_ring [simp]: "length (ring b r w) = unat (w - r)"
  by (simp add: ring_def)

lemma ring_same [simp]: "ring b r r = []"
  by (simp add: ring_def)

lemma ring_Nil_iff [simp]: "ring b r w = [] \<longleftrightarrow> r = w"
proof -
  have "ring b r w = [] \<longleftrightarrow> unat (w - r) = 0" by (simp add: ring_def)
  also have "\<dots> \<longleftrightarrow> r = w" by (auto simp: unat_eq_0)
  finally show ?thesis .
qed

lemma unat_add_mod:
  fixes r :: uint
  assumes "ring_size n"
  shows "unat (r + of_nat k) mod n = (unat r + k) mod n"
proof -
  from assms have d: "n dvd 2 ^ 32" by (simp add: ring_size_def)
  have "unat (r + of_nat k) = (unat r + k) mod 2 ^ 32"
    by (simp add: unat_word_ariths unat_of_nat take_bit_eq_mod mod_simps)
  with mod_mod_cancel [OF d, of "unat r + k"] show ?thesis by (simp only:)
qed

lemma ring_nth:
  assumes "ring_size (length b)" and "k < unat (w - r)"
  shows "ring b r w ! k = b ! ((unat r + k) mod length b)"
  using assms by (simp add: ring_def unat_add_mod)

lemma unat_diff_Suc:
  fixes r w :: uint
  assumes "unat (w - r) < 2 ^ 32 - 1"
  shows "unat (w + 1 - r) = Suc (unat (w - r))"
proof -
  have "w + 1 - r = (w - r) + 1" by simp
  moreover from assms have "unat (w - r) + unat (1::uint) < 2 ^ 32" by simp
  ultimately show ?thesis by (simp only: unat_add_acc) simp
qed

lemma unat_diff_pred:
  fixes r w :: uint
  assumes "r \<noteq> w"
  shows "unat (w - (r + 1)) = unat (w - r) - 1"
proof -
  have e: "w - (r + 1) = (w - r) - 1" by simp
  from assms have "w - r \<noteq> 0" by simp
  then show ?thesis unfolding e by (rule unat_minus_one)
qed

lemma unat_diff_back:
  fixes r w :: uint
  assumes "r \<noteq> w"
  shows "unat (w - 1 - r) = unat (w - r) - 1"
proof -
  have e: "w - 1 - r = w - r - 1" by simp
  from assms have "w - r \<noteq> 0" by simp
  then show ?thesis unfolding e by (rule unat_minus_one)
qed

lemma counter_split:
  fixes r w :: uint
  shows "(unat r + unat (w - r)) mod 2 ^ 32 = unat w"
proof -
  have "unat (r + (w - r)) = (unat r + unat (w - r)) mod 2 ^ 32"
    by (simp only: unat_word_ariths) simp
  then show ?thesis by simp
qed

lemma counter_mod:
  fixes r w :: uint
  assumes "ring_size n"
  shows "unat w mod n = (unat r + unat (w - r)) mod n"
proof -
  from assms have d: "n dvd 2 ^ 32" by (simp only: ring_size_def)
  have "unat w mod n = (unat r + unat (w - r)) mod 2 ^ 32 mod n" by (simp only: counter_split)
  also from d have "\<dots> = (unat r + unat (w - r)) mod n" by (rule mod_mod_cancel)
  finally show ?thesis .
qed

lemma mod_neq_less:
  fixes a d k n :: nat
  assumes "k < d" and "d < n"
  shows "(a + k) mod n \<noteq> (a + d) mod n"
proof
  assume "(a + k) mod n = (a + d) mod n"
  then have "n dvd (a + d) - (a + k)" using assms mod_eq_dvd_iff_nat [of "a + k" "a + d" n] by simp
  then have "n dvd d - k" by simp
  moreover have "0 < d - k" "d - k < n" using assms by simp_all
  ultimately show False by (simp add: nat_dvd_not_less)
qed

lemma ring_put:
  assumes n: "ring_size (length b)" and room: "unat (w - r) < length b"
  shows "ring (b[unat w mod length b := x]) r (w + 1) = ring b r w @ [x]"
proof (rule nth_equalityI)
  from assms have "unat (w - r) < 2 ^ 32 - 1" by (simp add: ring_size_def)
  then have l: "unat (w + 1 - r) = Suc (unat (w - r))" by (rule unat_diff_Suc)
  then show "length (ring (b[unat w mod length b := x]) r (w + 1)) = length (ring b r w @ [x])" by simp
  fix k assume "k < length (ring (b[unat w mod length b := x]) r (w + 1))"
  with l have k: "k < Suc (unat (w - r))" by simp
  have e: "ring (b[unat w mod length b := x]) r (w + 1) ! k =
      b[unat w mod length b := x] ! ((unat r + k) mod length b)"
    using n k l by (simp add: ring_nth)
  have pos: "(unat r + k) mod length b < length b" using n by (simp add: ring_size_def)
  show "ring (b[unat w mod length b := x]) r (w + 1) ! k = (ring b r w @ [x]) ! k"
  proof (cases "k = unat (w - r)")
    case True
    then show ?thesis using e pos n by (simp add: nth_append counter_mod [of "length b" w r])
  next
    case False
    with k have k': "k < unat (w - r)" by simp
    with room have "(unat r + k) mod length b \<noteq> unat w mod length b"
      unfolding counter_mod [OF n, of w r] by (intro mod_neq_less) 
    then show ?thesis using e k' n by (simp add: nth_append ring_nth)
  qed
qed

lemma ring_take:
  assumes "ring_size (length b)" and "r \<noteq> w"
  shows "ring b r w = b ! (unat r mod length b) # ring b (r + 1) w"
proof -
  from assms(2) have "0 < unat (w - r)" by (simp add: unat_gt_0)
  then have c: "[0..<unat (w - r)] = 0 # map Suc [0..<unat (w - r) - 1]"
    by (simp add: upt_conv_Cons map_Suc_upt)
  have "\<And>k. r + of_nat (Suc k) = r + 1 + of_nat k" by simp
  then show ?thesis unfolding ring_def c using unat_diff_pred [OF assms(2)] by (simp add: add.assoc)
qed

lemma ring_unput:
  assumes "r \<noteq> w"
  shows "ring b r (w - 1) = butlast (ring b r w)"
proof -
  have l: "unat (w - 1 - r) = unat (w - r) - 1" using assms by (rule unat_diff_back)
  have "butlast [0..<m] = [0..<m - 1]" for m by (cases m) simp_all
  then show ?thesis by (simp add: ring_def map_butlast [symmetric] l)
qed

lemma ring_last:
  assumes "ring_size (length b)" and "r \<noteq> w"
  shows "last (ring b r w) = b ! (unat (w - 1) mod length b)"
proof -
  from assms(2) have ne: "w - r \<noteq> 0" by simp
  then have "unat (w - r) - 1 < unat (w - r)" by (simp add: unat_gt_0)
  moreover from assms(2) have "ring b r w \<noteq> []" by simp
  ultimately show ?thesis using assms(1) unat_diff_back [OF assms(2)]
    by (simp add: last_conv_nth ring_nth counter_mod [of "length b" "w - 1" r])
qed

lemma ring_split:
  assumes "unat (w - r) + unat (e - w) < 2 ^ 32"
  shows "ring b r e = ring b r w @ ring b w e"
proof -
  have "e - r = (w - r) + (e - w)" by simp
  with assms have l: "unat (e - r) = unat (w - r) + unat (e - w)" by (simp only: unat_add_acc)
  have s: "r + of_nat (unat (w - r) + k) = w + of_nat k" for k
    by simp
  show ?thesis
  proof (rule nth_equalityI)
    fix k assume "k < length (ring b r e)"
    then have k: "k < unat (w - r) + unat (e - w)" by (simp add: l)
    show "ring b r e ! k = (ring b r w @ ring b w e) ! k"
    proof (cases "k < unat (w - r)")
      case True
      then show ?thesis by (simp add: nth_append ring_def l)
    next
      case False
      then obtain j where "k = unat (w - r) + j" by (metis le_add_diff_inverse not_less)
      with k s [of j] show ?thesis by (simp add: nth_append ring_def l)
    qed
  qed (simp add: l)
qed

lemma ring_put_prefix:
  assumes n: "ring_size (length b)" and room: "unat (w - r) + unat (e - w) < length b"
  shows "ring (b[unat e mod length b := x]) r w = ring b r w"
proof -
  let ?b = "b[unat e mod length b := x]"
  from assms have l: "unat (w - r) + unat (e - w) < 2 ^ 32 - 1" by (simp add: ring_size_def)
  have "e - r = (w - r) + (e - w)" by simp
  with l have er: "unat (e - r) = unat (w - r) + unat (e - w)" by (simp only: unat_add_acc)
  from l have e1: "unat (e + 1 - w) = Suc (unat (e - w))" by (intro unat_diff_Suc) simp
  have "ring ?b r (e + 1) = ring b r e @ [x]" using n room er by (intro ring_put) simp_all
  moreover have "ring ?b r (e + 1) = ring ?b r w @ ring ?b w (e + 1)" using l e1 by (intro ring_split) simp
  moreover have "ring b r e = ring b r w @ ring b w e" using l by (intro ring_split) simp
  ultimately show ?thesis by (simp add: append_eq_append_conv)
qed

section \<open>Bounded queues\<close>

text \<open>
  \<open>contents\<close> is what the queue holds, oldest first. The laws are those of one element put in
  or taken out; the lemmas carry them over to runs of elements.
\<close>

locale fifo =
  fixes ok :: "'q \<Rightarrow> bool"
    and cap :: nat
    and contents :: "'q \<Rightarrow> 'a list"
    and enq :: "'a \<Rightarrow> 'q \<Rightarrow> 'q"
    and front :: "'q \<Rightarrow> 'a"
    and deq :: "'q \<Rightarrow> 'q"
  assumes enq_ok: "ok q \<Longrightarrow> length (contents q) < cap \<Longrightarrow> ok (enq x q)"
    and enq_contents: "ok q \<Longrightarrow> length (contents q) < cap \<Longrightarrow> contents (enq x q) = contents q @ [x]"
    and deq_ok: "ok q \<Longrightarrow> contents q \<noteq> [] \<Longrightarrow> ok (deq q)"
    and deq_contents: "ok q \<Longrightarrow> contents q \<noteq> [] \<Longrightarrow> contents q = front q # contents (deq q)"
begin

lemma enq_many:
  assumes "ok q" and "length (contents q) + length xs \<le> cap"
  shows "ok (fold enq xs q) \<and> contents (fold enq xs q) = contents q @ xs"
  using assms
proof (induction xs arbitrary: q)
  case (Cons x xs)
  then have "length (contents q) < cap" by simp
  with Cons.prems have e: "ok (enq x q)" "contents (enq x q) = contents q @ [x]"
    by (simp_all add: enq_ok enq_contents)
  with Cons.prems Cons.IH [of "enq x q"] show ?case by simp
qed simp

lemma deq_many:
  assumes "ok q" and "n \<le> length (contents q)"
  shows "ok ((deq ^^ n) q) \<and> contents ((deq ^^ n) q) = drop n (contents q)"
  using assms
proof (induction n arbitrary: q)
  case (Suc n)
  then have ne: "contents q \<noteq> []" by auto
  with Suc.prems(1) have c: "contents q = front q # contents (deq q)" and "ok (deq q)"
    by (rule deq_contents, rule deq_ok)
  from c have "length (contents q) = Suc (length (contents (deq q)))" by (metis length_Cons)
  with Suc.prems have "n \<le> length (contents (deq q))" by simp
  then have "ok ((deq ^^ n) (deq q)) \<and> contents ((deq ^^ n) (deq q)) = drop n (contents (deq q))"
    by (rule Suc.IH [OF \<open>ok (deq q)\<close>])
  moreover have "drop (Suc n) (contents q) = drop n (contents (deq q))" by (subst c) simp
  ultimately show ?case by (simp add: funpow_swap1)
qed simp

end

end
