(* ===== verification/Cstring.thy ===== *)
theory Cstring
  imports XV6_Prelude
begin

text \<open>
  The kernel's memory and string routines (\<^verbatim>\<open>src/string.c\<close>) and the two string
  instructions of \<^verbatim>\<open>src/x86.h\<close> they use, over a byte-addressed memory of
  \<open>2 ^ 32\<close> bytes. A pointer is a 32-bit word and pointer arithmetic wraps.
\<close>

type_synonym mem = "uint \<Rightarrow> byte"

section \<open>Definitions\<close>

text \<open>\<open>rep stosb\<close> and \<open>rep stosl\<close>: store a byte, or a little-endian 32-bit word, \<open>cnt\<close> times.\<close>

fun stosb :: "mem \<Rightarrow> uint \<Rightarrow> byte \<Rightarrow> nat \<Rightarrow> mem" where
  "stosb m addr b 0 = m"
| "stosb m addr b (Suc cnt) = stosb (m(addr := b)) (addr + 1) b cnt"

definition store32 :: "mem \<Rightarrow> uint \<Rightarrow> uint \<Rightarrow> mem" where
  "store32 m a w = m(a := ucast w, a + 1 := ucast (drop_bit 8 w),
     a + 2 := ucast (drop_bit 16 w), a + 3 := ucast (drop_bit 24 w))"

definition load32 :: "mem \<Rightarrow> uint \<Rightarrow> uint" where
  "load32 m a = ucast (m a) OR push_bit 8 (ucast (m (a + 1)))
     OR push_bit 16 (ucast (m (a + 2))) OR push_bit 24 (ucast (m (a + 3)))"

fun stosl :: "mem \<Rightarrow> uint \<Rightarrow> uint \<Rightarrow> nat \<Rightarrow> mem" where
  "stosl m addr d 0 = m"
| "stosl m addr d (Suc cnt) = stosl (store32 m addr d) (addr + 4) d cnt"

text \<open>\<open>(int)dst % 4 == 0\<close> does not depend on the signedness of \<open>dst\<close>.\<close>

definition memset :: "mem \<Rightarrow> uint \<Rightarrow> uint \<Rightarrow> uint \<Rightarrow> mem" where
  "memset m dst c n =
     (if dst mod 4 = 0 \<and> n mod 4 = 0
      then let c' = c AND 0xFF
           in stosl m dst (push_bit 24 c' OR push_bit 16 c' OR push_bit 8 c' OR c')
                (unat (n div 4))
      else stosb m dst (ucast c) (unat n))"

fun memcmp_loop :: "mem \<Rightarrow> uint \<Rightarrow> uint \<Rightarrow> nat \<Rightarrow> int" where
  "memcmp_loop m s1 s2 0 = 0"
| "memcmp_loop m s1 s2 (Suc n) =
     (if m s1 \<noteq> m s2 then uint (m s1) - uint (m s2)
      else memcmp_loop m (s1 + 1) (s2 + 1) n)"

definition memcmp :: "mem \<Rightarrow> uint \<Rightarrow> uint \<Rightarrow> uint \<Rightarrow> int" where
  "memcmp m v1 v2 n = memcmp_loop m v1 v2 (unat n)"

text \<open>\<open>while(n-- > 0) *--d = *--s;\<close> and \<open>while(n-- > 0) *d++ = *s++;\<close>\<close>

fun copy_bwd :: "mem \<Rightarrow> uint \<Rightarrow> uint \<Rightarrow> nat \<Rightarrow> mem" where
  "copy_bwd m d s 0 = m"
| "copy_bwd m d s (Suc n) = copy_bwd (m(d - 1 := m (s - 1))) (d - 1) (s - 1) n"

fun copy_fwd :: "mem \<Rightarrow> uint \<Rightarrow> uint \<Rightarrow> nat \<Rightarrow> mem" where
  "copy_fwd m d s 0 = m"
| "copy_fwd m d s (Suc n) = copy_fwd (m(d := m s)) (d + 1) (s + 1) n"

definition memmove :: "mem \<Rightarrow> uint \<Rightarrow> uint \<Rightarrow> uint \<Rightarrow> mem" where
  "memmove m dst src n =
     (if src < dst \<and> src + n > dst
      then copy_bwd m (dst + n) (src + n) (unat n)
      else copy_fwd m dst src (unat n))"

definition memcpy :: "mem \<Rightarrow> uint \<Rightarrow> uint \<Rightarrow> uint \<Rightarrow> mem" where
  "memcpy m dst src n = memmove m dst src n"

fun strncmp :: "mem \<Rightarrow> uint \<Rightarrow> uint \<Rightarrow> nat \<Rightarrow> int" where
  "strncmp m p q 0 = 0"
| "strncmp m p q (Suc n) =
     (if m p \<noteq> 0 \<and> m p = m q then strncmp m (p + 1) (q + 1) n
      else uint (m p) - uint (m q))"

text \<open>
  The counter of \<open>strncpy\<close> and \<open>safestrcpy\<close> is an \<open>int\<close>; a negative one makes both loops
  stop at once, as 0 does, so the models take the counter's non-negative part.
\<close>

fun zero_fill :: "mem \<Rightarrow> uint \<Rightarrow> nat \<Rightarrow> mem" where
  "zero_fill m s 0 = m"
| "zero_fill m s (Suc n) = zero_fill (m(s := 0)) (s + 1) n"

fun strncpy_loop :: "mem \<Rightarrow> uint \<Rightarrow> uint \<Rightarrow> nat \<Rightarrow> mem" where
  "strncpy_loop m s t 0 = m"
| "strncpy_loop m s t (Suc n) =
     (let c = m t; m' = m(s := c)
      in if c \<noteq> 0 then strncpy_loop m' (s + 1) (t + 1) n else zero_fill m' (s + 1) n)"

definition strncpy :: "mem \<Rightarrow> uint \<Rightarrow> uint \<Rightarrow> int \<Rightarrow> mem" where
  "strncpy m s t n = strncpy_loop m s t (nat n)"

fun safestrcpy_loop :: "mem \<Rightarrow> uint \<Rightarrow> uint \<Rightarrow> nat \<Rightarrow> mem \<times> uint" where
  "safestrcpy_loop m s t 0 = (m, s)"
| "safestrcpy_loop m s t (Suc n) =
     (let c = m t; m' = m(s := c)
      in if c \<noteq> 0 then safestrcpy_loop m' (s + 1) (t + 1) n else (m', s + 1))"

definition safestrcpy :: "mem \<Rightarrow> uint \<Rightarrow> uint \<Rightarrow> int \<Rightarrow> mem" where
  "safestrcpy m s t n =
     (if n \<le> 0 then m
      else let (m', s') = safestrcpy_loop m s t (nat (n - 1)) in m'(s' := 0))"

text \<open>\<open>strlen\<close> scans for a zero byte; with none in memory it never returns.\<close>

partial_function (option) strlen_from :: "mem \<Rightarrow> uint \<Rightarrow> nat \<Rightarrow> nat option" where
  "strlen_from m s n =
     (if m (s + of_nat n) = 0 then Some n else strlen_from m s (Suc n))"

definition strlen :: "mem \<Rightarrow> uint \<Rightarrow> nat option" where
  "strlen m s = strlen_from m s 0"

text \<open>The C string at \<open>p\<close>, cut after \<open>n\<close> bytes: what \<open>strncmp\<close> and \<open>strncpy\<close> see of it.\<close>

fun cname :: "mem \<Rightarrow> uint \<Rightarrow> nat \<Rightarrow> byte list" where
  "cname m p 0 = []"
| "cname m p (Suc n) = (if m p = 0 then [] else m p # cname m (p + 1) n)"

section \<open>Lemmas\<close>

lemma unat_step: "a \<noteq> d \<Longrightarrow> unat (a - (d + 1)) = unat (a - d) - 1 \<and> 0 < unat (a - d)" for a d :: uint
  by (metis (no_types, opaque_lifting) diff_diff_eq eq_iff_diff_eq_0 unat_gt_0 unat_minus_one)

lemma stosb_apply: "n \<le> 2 ^ 32 \<Longrightarrow> stosb m d b n a = (if unat (a - d) < n then b else m a)"
proof (induction n arbitrary: m d)
  case 0 then show ?case by simp
next
  case (Suc n)
  show ?case
  proof (cases "a = d")
    case True
    have "unat (-1::uint) = 2^32 - 1" by (simp add: unsigned_minus_1_eq_mask mask_eq_exp_minus_1)
    with True Suc show ?thesis by simp
  next
    case False
    with Suc unat_step [of a d] show ?thesis by auto
  qed
qed

lemma stosb_append: "stosb m d b (k + n) = stosb (stosb m d b k) (d + of_nat k) b n"
  by (induction k arbitrary: m d) (simp_all add: algebra_simps)

lemma store32_same_bytes:
  assumes "ucast w = b" "ucast (drop_bit 8 w) = b" "ucast (drop_bit 16 w) = b" "ucast (drop_bit 24 w) = b"
  shows "store32 m a w = stosb m a b 4"
  using assms by (simp add: store32_def numeral_eq_Suc algebra_simps)

lemma stosl_same_bytes:
  assumes "ucast w = b" "ucast (drop_bit 8 w) = b" "ucast (drop_bit 16 w) = b" "ucast (drop_bit 24 w) = b"
  shows "stosl m a w n = stosb m a b (4 * n)"
proof (induction n arbitrary: m a)
  case (Suc n)
  have "4 * Suc n = 4 + 4 * n" by simp
  then show ?case using Suc
    by (simp only: stosl.simps store32_same_bytes [OF assms] stosb_append of_nat_numeral)
qed simp

lemma word_of_bytes:
  "(ucast (ucast w :: byte) :: uint) OR push_bit 8 (ucast (ucast (drop_bit 8 w) :: byte))
     OR push_bit 16 (ucast (ucast (drop_bit 16 w) :: byte)) OR push_bit 24 (ucast (ucast (drop_bit 24 w) :: byte)) = w"
proof (rule bit_word_eqI)
  fix n assume n: "n < LENGTH(32)"
  consider "n < 8" | "8 \<le> n" "n < 16" | "16 \<le> n" "n < 24" | "24 \<le> n" "n < 32"
    using n by fastforce
  then show "bit ((ucast (ucast w :: byte) :: uint) OR push_bit 8 (ucast (ucast (drop_bit 8 w) :: byte))
     OR push_bit 16 (ucast (ucast (drop_bit 16 w) :: byte)) OR push_bit 24 (ucast (ucast (drop_bit 24 w) :: byte))) n = bit w n"
    by cases (auto simp: bit_simps)
qed

lemma load32_store32 [simp]: "load32 (store32 m a w) a = w"
proof -
  have ne: "a + 1 \<noteq> a" "a + 2 \<noteq> a" "a + 3 \<noteq> a" "a + 2 \<noteq> a + 1" "a + 3 \<noteq> a + 1" "a + 3 \<noteq> a + 2"
    by simp_all
  have "load32 (store32 m a w) a = ucast (ucast w :: byte) OR push_bit 8 (ucast (ucast (drop_bit 8 w) :: byte))
     OR push_bit 16 (ucast (ucast (drop_bit 16 w) :: byte)) OR push_bit 24 (ucast (ucast (drop_bit 24 w) :: byte))"
    using ne unfolding load32_def store32_def by simp
  then show ?thesis by (simp only: word_of_bytes)
qed

lemma load32_cong:
  "m a = m' a \<Longrightarrow> m (a + 1) = m' (a + 1) \<Longrightarrow> m (a + 2) = m' (a + 2) \<Longrightarrow> m (a + 3) = m' (a + 3) \<Longrightarrow>
    load32 m a = load32 m' a"
  by (simp add: load32_def)

lemma store32_other: "\<not> x - a < 4 \<Longrightarrow> store32 m a w x = m x"
  by (auto simp: store32_def)

lemma and_255_take_bit: "c AND 255 = take_bit 8 c" for c :: uint
  by (simp add: take_bit_eq_mask mask_eq_exp_minus_1)

lemma byte_pattern:
  fixes c :: uint
  defines "w \<equiv> push_bit 24 (c AND 0xFF) OR push_bit 16 (c AND 0xFF) OR push_bit 8 (c AND 0xFF) OR (c AND 0xFF)"
  shows "(ucast w :: byte) = ucast c" "(ucast (drop_bit 8 w) :: byte) = ucast c"
    "(ucast (drop_bit 16 w) :: byte) = ucast c" "(ucast (drop_bit 24 w) :: byte) = ucast c"
  unfolding w_def and_255_take_bit
  by (auto intro!: bit_word_eqI simp: bit_simps)

lemma unat_numeral_4: "unat (4 :: uint) = 4"
  by simp

lemma memset_eq_stosb: "memset m dst c n = stosb m dst (ucast c) (unat n)"
proof -
  have "n mod 4 = 0 \<Longrightarrow> 4 * unat (n div 4) = unat n"
  proof -
    assume "n mod 4 = 0"
    then have "unat n mod 4 = 0"
      by (metis unat_0 unat_mod_distrib unat_numeral_4)
    then show ?thesis by (auto simp: unat_div)
  qed
  then show ?thesis
    unfolding memset_def Let_def stosl_same_bytes [OF byte_pattern] by auto
qed

lemma memset_apply: "memset m dst c n a = (if a - dst < n then ucast c else m a)"
  using unsigned_less [of n, where 'a = nat]
  by (simp add: memset_eq_stosb stosb_apply word_less_nat_alt)
lemma copy_fwd_apply:
  assumes "n \<le> 2 ^ 32" and "\<And>k j. k < j \<Longrightarrow> j < n \<Longrightarrow> d + of_nat k \<noteq> s + of_nat j"
  shows "copy_fwd m d s n a = (if unat (a - d) < n then m (s + (a - d)) else m a)"
  using assms
proof (induction n arbitrary: m d s)
  case (Suc n)
  have dis: "d + 1 + of_nat k \<noteq> s + 1 + of_nat j" if "k < j" "j < n" for k j
    using Suc.prems(2) [of "Suc k" "Suc j"] that by (simp add: algebra_simps)
  have IH: "copy_fwd (m(d := m s)) (d + 1) (s + 1) n a =
      (if unat (a - (d + 1)) < n then (m(d := m s)) (s + 1 + (a - (d + 1))) else (m(d := m s)) a)"
    using Suc.prems(1) by (intro Suc.IH dis) simp_all
  show ?case
  proof (cases "a = d")
    case True
    have "unat (-1::uint) = 2^32 - 1" by (simp add: unsigned_minus_1_eq_mask mask_eq_exp_minus_1)
    with True IH Suc.prems(1) show ?thesis by simp
  next
    case False
    note st = unat_step [OF False]
    have "d \<noteq> s + (a - d)" if "unat (a - d) < Suc n"
      using Suc.prems(2) [of 0 "unat (a - d)"] that st by auto
    moreover have "s + 1 + (a - (d + 1)) = s + (a - d)" by simp
    ultimately show ?thesis using False st by (auto simp: IH)
  qed
qed simp

lemma copy_bwd_apply:
  assumes "n \<le> 2 ^ 32" and "\<And>k j. k < j \<Longrightarrow> j < n \<Longrightarrow> d + of_nat j \<noteq> s + of_nat k"
  shows "copy_bwd m (d + of_nat n) (s + of_nat n) n a = (if unat (a - d) < n then m (s + (a - d)) else m a)"
  using assms
proof (induction n arbitrary: m)
  case (Suc n)
  let ?d = "d + of_nat n" and ?s = "s + of_nat n"
  have IH: "copy_bwd (m(?d := m ?s)) ?d ?s n a =
      (if unat (a - d) < n then (m(?d := m ?s)) (s + (a - d)) else (m(?d := m ?s)) a)"
    using Suc by simp
  have last: "unat (a - d) = n \<longleftrightarrow> a = ?d"
  proof
    assume "unat (a - d) = n"
    then have "a - d = of_nat n" by auto
    then show "a = ?d" by (simp add: algebra_simps)
  next
    assume "a = ?d"
    with Suc.prems(1) show "unat (a - d) = n" by (simp add: unat_of_nat)
  qed
  have "s + (a - d) \<noteq> ?d" if "unat (a - d) < n"
    using Suc.prems(2) [of "unat (a - d)" n] that by auto
  then show ?case using last IH by (auto simp: algebra_simps less_Suc_eq)
qed simp

lemma memmove_apply:
  assumes "unat src + unat n < 2 ^ 32" and "unat dst + unat n < 2 ^ 32"
  shows "memmove m dst src n a = (if a - dst < n then m (src + (a - dst)) else m a)"
proof -
  have n: "unat n \<le> 2 ^ 32" using assms by simp
  have val: "unat (x + of_nat k) = unat x + k" if "k < unat n" "unat x + unat n < 2 ^ 32" for x :: uint and k
    using that by (simp add: unat_word_ariths unat_of_nat)
  have ov: "src + n > dst \<longleftrightarrow> unat dst < unat src + unat n"
    using assms by (simp add: word_less_nat_alt unat_word_ariths)
  show ?thesis
  proof (cases "src < dst \<and> src + n > dst")
    case True
    have "dst + of_nat j \<noteq> src + of_nat k" if "k < j" "j < unat n" for k j
      using True that val [of j dst] val [of k src] assms by (auto simp: word_less_nat_alt)
    from copy_bwd_apply [OF n this] show ?thesis
      unfolding memmove_def if_P [OF True] by (simp add: word_less_nat_alt)
  next
    case False
    have "dst + of_nat k \<noteq> src + of_nat j" if "k < j" "j < unat n" for k j
    proof
      assume "dst + of_nat k = src + of_nat j"
      then have "unat dst + k = unat src + j"
        using that val [of k dst] val [of j src] assms by simp
      with False ov that show False by (auto simp: word_less_nat_alt)
    qed
    from copy_fwd_apply [OF n this] show ?thesis
      unfolding memmove_def if_not_P [OF False] by (simp add: word_less_nat_alt)
  qed
qed

lemma strncmp_zero_iff: "strncmp m p q n = 0 \<longleftrightarrow> cname m p n = cname m q n"
  by (induction m p q n rule: strncmp.induct) (auto simp: word_uint_eq_iff)

lemma cname_cong:
  "(\<And>j. j < n \<Longrightarrow> m (p + of_nat j) = m' (p' + of_nat j)) \<Longrightarrow> cname m p n = cname m' p' n"
proof (induction n arbitrary: p p')
  case (Suc n)
  have "m p = m' p'" using Suc.prems [of 0] by simp
  moreover have "cname m (p + 1) n = cname m' (p' + 1) n"
    using Suc.prems [of "Suc j" for j] by (intro Suc.IH) (simp add: algebra_simps)
  ultimately show ?case by simp
qed simp

lemma zero_fill_eq: "zero_fill m s n = stosb m s 0 n"
  by (induction n arbitrary: m s) auto

lemma strncpy_loop_apply:
  assumes "n \<le> 2 ^ 32" and "\<And>i j. i < n \<Longrightarrow> j < n \<Longrightarrow> s + of_nat i \<noteq> t + of_nat j"
  shows "strncpy_loop m s t n a =
    (if unat (a - s) < n then if unat (a - s) < length (cname m t n) then m (t + (a - s)) else 0 else m a)"
  using assms
proof (induction n arbitrary: m s t)
  case (Suc n)
  have M1: "unat (-1::uint) = 2^32 - 1" by (simp add: unsigned_minus_1_eq_mask mask_eq_exp_minus_1)
  show ?case
  proof (cases "m t = 0")
    case True
    with Suc.prems(1) show ?thesis
      using unat_step [of a s] M1 by (cases "a = s") (auto simp: Let_def zero_fill_eq stosb_apply)
  next
    case False
    let ?m = "m(s := m t)"
    have dis: "s + 1 + of_nat i \<noteq> t + 1 + of_nat j" if "i < n" "j < n" for i j
      using Suc.prems(2) [of "Suc i" "Suc j"] that by (simp add: algebra_simps)
    have nm: "cname ?m (t + 1) n = cname m (t + 1) n"
      using Suc.prems(2) [of 0 "Suc j" for j] by (intro cname_cong) (auto simp: algebra_simps)
    have IH: "strncpy_loop ?m (s + 1) (t + 1) n a =
      (if unat (a - (s + 1)) < n then if unat (a - (s + 1)) < length (cname m (t + 1) n) then ?m (t + 1 + (a - (s + 1))) else 0 else ?m a)"
      unfolding nm [symmetric] using Suc.prems(1) by (intro Suc.IH dis) simp_all
    show ?thesis
    proof (cases "a = s")
      case True
      with IH M1 Suc.prems(1) False show ?thesis by (simp add: Let_def)
    next
      case ne: False
      note st = unat_step [OF ne]
      have "s \<noteq> t + (a - s)" if "unat (a - s) < Suc n"
        using Suc.prems(2) [of 0 "unat (a - s)"] that by auto
      moreover have "t + 1 + (a - (s + 1)) = t + (a - s)" by simp
      ultimately show ?thesis using ne st False by (auto simp: Let_def IH)
    qed
  qed
qed simp

lemma cname_length_le: "length (cname m p n) \<le> n"
  by (induction n arbitrary: p) auto

lemma cname_nth: "i < length (cname m p n) \<Longrightarrow> cname m p n ! i = m (p + of_nat i) \<and> m (p + of_nat i) \<noteq> 0"
proof (induction n arbitrary: p i)
  case (Suc n)
  show ?case
  proof (cases i)
    case 0
    with Suc.prems show ?thesis by (auto split: if_splits)
  next
    case (Suc j)
    with Suc.prems Suc.IH [of j "p + 1"] show ?thesis
      by (auto split: if_splits simp: add.assoc)
  qed
qed simp

lemma cname_end: "length (cname m p n) < n \<Longrightarrow> m (p + of_nat (length (cname m p n))) = 0"
proof (induction n arbitrary: p)
  case (Suc n)
  then show ?case using Suc.IH [of "p + 1"] by (auto split: if_splits simp: add.assoc)
qed simp

lemma cname_eqI:
  assumes "length xs \<le> n" and "\<And>i. i < length xs \<Longrightarrow> m (p + of_nat i) = xs ! i \<and> xs ! i \<noteq> 0"
    and "length xs < n \<Longrightarrow> m (p + of_nat (length xs)) = 0"
  shows "cname m p n = xs"
  using assms
proof (induction n arbitrary: p xs)
  case (Suc n)
  show ?case
  proof (cases xs)
    case Nil
    with Suc.prems show ?thesis by simp
  next
    case (Cons x ys)
    with Suc.prems(2) [of 0] have "m p = x" "x \<noteq> 0" by auto
    moreover have "cname m (p + 1) n = ys"
      using Suc.prems Cons Suc.prems(2) [of "Suc i" for i]
      by (intro Suc.IH) (auto simp: algebra_simps)
    ultimately show ?thesis using Cons by simp
  qed
qed simp

lemma strncpy_cname:
  assumes "0 \<le> n" "n \<le> 2 ^ 31" and "\<And>i j. i < nat n \<Longrightarrow> j < nat n \<Longrightarrow> s + of_nat i \<noteq> t + of_nat j"
  shows "cname (strncpy m s t n) s (nat n) = cname m t (nat n)"
proof -
  let ?k = "nat n"
  have app: "strncpy m s t n a = (if unat (a - s) < ?k then if unat (a - s) < length (cname m t ?k) then m (t + (a - s)) else 0 else m a)" for a
    unfolding strncpy_def using assms by (intro strncpy_loop_apply) auto
  have un: "unat (of_nat i :: uint) = i" if "i \<le> ?k" for i
    using that assms by (simp add: unat_of_nat)
  show ?thesis
    using cname_length_le [of m t ?k] cname_nth [of _ m t ?k]
    by (intro cname_eqI) (auto simp: app un)
qed

lemma strncpy_other:
  assumes "n \<le> 2 ^ 31" and "\<And>i j. i < nat n \<Longrightarrow> j < nat n \<Longrightarrow> s + of_nat i \<noteq> t + of_nat j"
    and "\<And>i. i < nat n \<Longrightarrow> s + of_nat i \<noteq> a"
  shows "strncpy m s t n a = m a"
proof -
  have "\<not> unat (a - s) < nat n"
    using assms(3) [of "unat (a - s)"] by auto
  then show ?thesis
    unfolding strncpy_def using assms by (subst strncpy_loop_apply) auto
qed

lemma strlen_from_Some:
  "strlen_from m s n = Some k \<Longrightarrow> n \<le> k \<and> m (s + of_nat k) = 0 \<and> (\<forall>j. n \<le> j \<and> j < k \<longrightarrow> m (s + of_nat j) \<noteq> 0)"
proof (rule strlen_from.raw_induct
    [where P = "\<lambda>m s n k. n \<le> k \<and> m (s + of_nat k) = 0 \<and> (\<forall>j. n \<le> j \<and> j < k \<longrightarrow> m (s + of_nat j) \<noteq> 0)"])
  fix f m s n k
  assume IH: "\<And>m s n k. f m s n = Some k \<Longrightarrow>
      n \<le> k \<and> m (s + of_nat k) = 0 \<and> (\<forall>j. n \<le> j \<and> j < k \<longrightarrow> m (s + of_nat j) \<noteq> 0)"
    and eq: "(if m (s + of_nat n) = 0 then Some n else f m s (Suc n)) = Some k"
  show "n \<le> k \<and> m (s + of_nat k) = 0 \<and> (\<forall>j. n \<le> j \<and> j < k \<longrightarrow> m (s + of_nat j) \<noteq> 0)"
  proof (cases "m (s + of_nat n) = 0")
    case True
    with eq show ?thesis by auto
  next
    case False
    with eq IH [of m s "Suc n" k] have rec: "Suc n \<le> k" "m (s + of_nat k) = 0"
      "\<forall>j. Suc n \<le> j \<and> j < k \<longrightarrow> m (s + of_nat j) \<noteq> 0" by auto
    with False show ?thesis by (metis Suc_leI Suc_leD le_neq_implies_less)
  qed
qed

lemma strlen_from_enough:
  "n \<le> k \<Longrightarrow> m (s + of_nat k) = 0 \<Longrightarrow> (\<And>j. n \<le> j \<Longrightarrow> j < k \<Longrightarrow> m (s + of_nat j) \<noteq> 0) \<Longrightarrow> strlen_from m s n = Some k"
proof (induction "k - n" arbitrary: n)
  case 0
  then show ?case by (subst strlen_from.simps) simp
next
  case (Suc d)
  then have "strlen_from m s (Suc n) = Some k" by simp
  with Suc show ?case by (subst strlen_from.simps) simp
qed

lemma strlen_Some_iff:
  "strlen m s = Some k \<longleftrightarrow> m (s + of_nat k) = 0 \<and> (\<forall>j<k. m (s + of_nat j) \<noteq> 0)"
proof
  assume "strlen m s = Some k"
  then show "m (s + of_nat k) = 0 \<and> (\<forall>j<k. m (s + of_nat j) \<noteq> 0)"
    using strlen_from_Some [of m s 0 k] unfolding strlen_def by blast
next
  assume "m (s + of_nat k) = 0 \<and> (\<forall>j<k. m (s + of_nat j) \<noteq> 0)"
  then show "strlen m s = Some k"
    unfolding strlen_def by (intro strlen_from_enough) blast+
qed

lemma safestrcpy_loop_apply:
  assumes "n < 2 ^ 31" and "\<And>i j. i \<le> n \<Longrightarrow> j \<le> n \<Longrightarrow> s + of_nat i \<noteq> t + of_nat j"
    and "safestrcpy_loop m s t n = (m', s')"
  shows "(\<forall>a. m' a = (if unat (a - s) < length (cname m t n) then m (t + (a - s))
            else if unat (a - s) = length (cname m t n) \<and> length (cname m t n) < n then 0 else m a))
    \<and> s' = s + of_nat (if length (cname m t n) < n then Suc (length (cname m t n)) else n)"
  using assms
proof (induction n arbitrary: m s t)
  case (Suc n)
  show ?case
  proof (cases "m t = 0")
    case True
    with Suc.prems(3) show ?thesis by (auto simp: Let_def unat_0_iff)
  next
    case False
    let ?m = "m(s := m t)"
    have dis: "s + 1 + of_nat i \<noteq> t + 1 + of_nat j" if "i \<le> n" "j \<le> n" for i j
      using Suc.prems(2) [of "Suc i" "Suc j"] that by (simp add: algebra_simps)
    have nm: "cname ?m (t + 1) n = cname m (t + 1) n"
    proof (rule cname_cong)
      fix j assume "j < n"
      then have "s \<noteq> t + 1 + of_nat j"
        using Suc.prems(2) [of 0 "Suc j"] by (simp add: algebra_simps)
      then show "?m (t + 1 + of_nat j) = m (t + 1 + of_nat j)" by simp
    qed
    have len: "length (cname m (t + 1) n) \<le> n" by (rule cname_length_le)
    have run: "safestrcpy_loop ?m (s + 1) (t + 1) n = (m', s')"
      using Suc.prems(3) False by (simp add: Let_def)
    have n': "n < 2 ^ 31" using Suc.prems(1) by simp
    note IH = Suc.IH [OF n' dis run, unfolded nm]
    have "m' a = (if unat (a - s) < length (cname m t (Suc n)) then m (t + (a - s))
            else if unat (a - s) = length (cname m t (Suc n)) \<and> length (cname m t (Suc n)) < Suc n then 0 else m a)" for a
    proof (cases "a = s")
      case True
      have "unat (- 1 :: uint) = 2 ^ 32 - 1" by (simp add: unsigned_minus_1_eq_mask mask_eq_exp_minus_1)
      with True IH n' len False show ?thesis by simp
    next
      case ne: False
      note st = unat_step [OF ne]
      have "s \<noteq> t + (a - s)" if "unat (a - s) < Suc n"
        using Suc.prems(2) [of 0 "unat (a - s)"] that by auto
      moreover have "t + 1 + (a - (s + 1)) = t + (a - s)" by simp
      ultimately show ?thesis using IH ne st False len by auto
    qed
    then show ?thesis using IH False by (auto simp: algebra_simps)
  qed
qed simp

lemma safestrcpy_cname:
  assumes "0 < n" "n < 2 ^ 31" and "\<And>i j. i < nat n \<Longrightarrow> j < nat n \<Longrightarrow> s + of_nat i \<noteq> t + of_nat j"
  shows "cname (safestrcpy m s t n) s (nat n) = cname m t (nat (n - 1))"
    and "unat (a - s) \<ge> nat n \<Longrightarrow> safestrcpy m s t n a = m a"
proof -
  obtain k where k: "nat n = Suc k" "nat (n - 1) = k" "k < 2 ^ 31"
    using assms by (cases "nat n") auto
  obtain m' s' where run: "safestrcpy_loop m s t k = (m', s')" by fastforce
  let ?l = "length (cname m t k)"
  have dis: "s + of_nat i \<noteq> t + of_nat j" if "i \<le> k" "j \<le> k" for i j
    using assms(3) [of i j] k that by simp
  note loop = safestrcpy_loop_apply [OF k(3) dis run]
  have def_: "safestrcpy m s t n = m'(s' := 0)"
    using assms(1) k run by (simp add: safestrcpy_def)
  have le: "?l \<le> k" by (rule cname_length_le)
  have un: "unat (of_nat i :: uint) = i" if "i \<le> Suc k" for i
    using that k by (simp add: unat_of_nat)
  have inj: "(of_nat i :: uint) = of_nat j \<longleftrightarrow> i = j" if "i \<le> Suc k" "j \<le> Suc k" for i j
    using un that by metis
  show "cname (safestrcpy m s t n) s (nat n) = cname m t (nat (n - 1))"
    unfolding k def_ using le loop cname_nth [of _ m t k] un inj
    by (intro cname_eqI) (auto simp: fun_upd_apply)
  assume far: "unat (a - s) \<ge> nat n"
  have "a \<noteq> s'" using far loop un [of "?l"] un [of k] un [of "Suc ?l"] le k by (auto split: if_splits)
  then show "safestrcpy m s t n a = m a"
    using far loop le k by (auto simp: def_)
qed

section \<open>Properties\<close>

text \<open>\<open>memset\<close> writes the low byte of \<open>c\<close> to exactly the \<open>n\<close> bytes from \<open>dst\<close>,
  whether it takes the word-sized \<open>stosl\<close> path (aligned pointer and length) or the
  byte-sized \<open>stosb\<close> path.\<close>

theorem memset_correct: "memset m dst c n = (\<lambda>a. if a - dst < n then ucast c else m a)"
  by (rule ext) (rule memset_apply)

text \<open>C32: \<open>memmove\<close> copies as if through a temporary buffer: after it, the \<open>n\<close> bytes at
  \<open>dst\<close> are the bytes that were at \<open>src\<close> before, also when the regions overlap in
  either direction, and no other byte changes. Neither region may run past the end of
  the address space.\<close>

theorem memmove_correct:
  assumes "unat src + unat n < 2 ^ 32" and "unat dst + unat n < 2 ^ 32"
  shows "memmove m dst src n = (\<lambda>a. if a - dst < n then m (src + (a - dst)) else m a)"
  by (rule ext) (rule memmove_apply [OF assms])

theorem memmove_correct_witness:
  "memmove (\<lambda>a. ucast a) 102 100 4 105 = 103 \<and> memmove (\<lambda>a. ucast a) 100 102 4 101 = 103"
  using memmove_correct [of 100 4 102 "\<lambda>a. ucast a"] memmove_correct [of 102 4 100 "\<lambda>a. ucast a"]
  by simp

text \<open>a name stored with \<open>strncpy\<close> compares equal, by \<open>strncmp\<close> with the same bound, to
  exactly the names that have the same first \<open>n\<close> bytes: storing a directory entry's
  name and looking it up agree. The copied-to field and the name may not overlap.\<close>

theorem strncpy_strncmp_roundtrip:
  assumes "0 \<le> n" and "n \<le> 2 ^ 31"
    and "\<And>i j. i < nat n \<Longrightarrow> j < nat n \<Longrightarrow> s + of_nat i \<noteq> t + of_nat j"
    and "\<And>i j. i < nat n \<Longrightarrow> j < nat n \<Longrightarrow> s + of_nat i \<noteq> q + of_nat j"
  shows "strncmp (strncpy m s t n) q s (nat n) = 0 \<longleftrightarrow> cname m q (nat n) = cname m t (nat n)"
proof -
  have "cname (strncpy m s t n) q (nat n) = cname m q (nat n)"
    using assms by (intro cname_cong strncpy_other) auto
  then show ?thesis
    using strncpy_cname [OF assms(1-3)] by (simp add: strncmp_zero_iff)
qed

theorem strncpy_strncmp_roundtrip_witness:
  "strncmp (strncpy ((\<lambda>_. 0)(100 := 97, 101 := 98, 200 := 97, 201 := 98)) 300 100 14) 200 300 (nat 14) = 0"
proof -
  let ?m = "(\<lambda>_. 0)(100 := 97, 101 := 98, 200 := 97, 201 := 98) :: mem"
  have un: "unat (c + of_nat i) = unat c + i" if "i < nat 14" "unat c \<le> 300" for c :: uint and i
    using that by (simp add: unat_word_ariths unat_of_nat)
  have dis: "(300 :: uint) + of_nat i \<noteq> c + of_nat j"
    if "i < nat 14" "j < nat 14" "unat c \<le> 200" for i j c
  proof
    assume "300 + of_nat i = c + of_nat j"
    then have "unat (300 :: uint) + i = unat c + j"
      using un [of i 300] un [of j c] that by simp
    then show False using that by simp
  qed
  have "nat 14 = Suc (Suc (Suc 11))" by simp
  then have "cname ?m 200 (nat 14) = cname ?m 100 (nat 14)"
    by (simp only: cname.simps) simp
  moreover have "strncmp (strncpy ?m 300 100 14) 200 300 (nat 14) = 0
      \<longleftrightarrow> cname ?m 200 (nat 14) = cname ?m 100 (nat 14)"
  proof (rule strncpy_strncmp_roundtrip)
    show "(300 :: uint) + of_nat i \<noteq> 100 + of_nat j" if "i < nat 14" "j < nat 14" for i j
      using that by (rule dis) simp
    show "(300 :: uint) + of_nat i \<noteq> 200 + of_nat j" if "i < nat 14" "j < nat 14" for i j
      using that by (rule dis) simp
  qed simp_all
  ultimately show ?thesis by blast
qed

end
