(* ===== verification/Spinlock.thy ===== *)
theory Spinlock
  imports Cstring
begin

text \<open>
  Spin locks (\<^verbatim>\<open>src/spinlock.c\<close>) on a machine with any number of CPUs. The first part
  translates the C functions, each run by one CPU on the shared state. The second part
  splits \<open>acquire\<close> and \<open>release\<close> at their shared-memory accesses into an interleaving step
  relation and proves mutual exclusion, the meaning of \<open>holding\<close> and the interrupt
  discipline (\<open>pushcli\<close>/\<open>popcli\<close> nesting) for every reachable state.
\<close>

section \<open>State\<close>

text \<open>
  \<open>struct cpu\<close> (the fields the locks use, and the CPU's interrupt flag), \<open>struct spinlock\<close>
  and the whole machine. \<open>lcpu\<close> is the lock's \<open>cpu\<close> pointer, \<open>None\<close> for 0.
\<close>

record cpu =
  ncli :: int
  intena :: bool
  intr :: bool  \<comment> \<open>\<open>eflags & FL_IF\<close>\<close>

record spinlock =
  locked :: bool
  lname :: string
  lcpu :: "nat option"
  pcs :: "uint list"

record smp =
  cpus :: "nat \<Rightarrow> cpu"
  locks :: "nat \<Rightarrow> spinlock"

section \<open>The functions\<close>

definition initlock :: "nat \<Rightarrow> string \<Rightarrow> smp \<Rightarrow> smp" where
  "initlock lk nm s = s\<lparr>locks := (locks s)(lk :=
     (locks s lk)\<lparr>lname := nm, locked := False, lcpu := None\<rparr>)\<rparr>"

text \<open>Follow the saved \<open>%ebp\<close> chain from the argument's address; ten entries, zero-filled.\<close>

fun getcallerpcs_loop :: "mem \<Rightarrow> uint \<Rightarrow> nat \<Rightarrow> uint list" where
  "getcallerpcs_loop m ebp 0 = []"
| "getcallerpcs_loop m ebp (Suc i) =
     (if ebp = 0 \<or> ebp < KERNBASE \<or> ebp = 0xffffffff then replicate (Suc i) 0
      else load32 m (ebp + 4) # getcallerpcs_loop m (load32 m ebp) i)"

definition getcallerpcs :: "mem \<Rightarrow> uint \<Rightarrow> uint list" where
  "getcallerpcs m v = getcallerpcs_loop m (v - 8) 10"

definition holding :: "nat \<Rightarrow> nat \<Rightarrow> smp \<Rightarrow> bool" where
  "holding lk c s \<longleftrightarrow> locked (locks s lk) \<and> lcpu (locks s lk) = Some c"

definition pushcli :: "nat \<Rightarrow> smp \<Rightarrow> smp" where
  "pushcli c s =
     (let p = cpus s c; eflags = intr p; p = p\<lparr>intr := False\<rparr>;
          q = p\<lparr>ncli := ncli p + 1\<rparr>
      in s\<lparr>cpus := (cpus s)(c := (if ncli p = 0 then q\<lparr>intena := eflags\<rparr> else q))\<rparr>)"

definition popcli :: "nat \<Rightarrow> (smp, unit) kop" where
  "popcli c s =
     (if intr (cpus s c) then Panic ''popcli - interruptible''
      else let p = (cpus s c)\<lparr>ncli := ncli (cpus s c) - 1\<rparr>
           in if ncli p < 0 then Panic ''popcli''
              else Done () (s\<lparr>cpus := (cpus s)(c :=
                (if ncli p = 0 \<and> intena p then p\<lparr>intr := True\<rparr> else p))\<rparr>))"

text \<open>The pieces of \<open>acquire\<close> and \<open>release\<close> between their accesses to the lock word.\<close>

definition set_lock :: "nat \<Rightarrow> (spinlock \<Rightarrow> spinlock) \<Rightarrow> smp \<Rightarrow> smp" where
  "set_lock lk f s = s\<lparr>locks := (locks s)(lk := f (locks s lk))\<rparr>"

definition acquire_record :: "mem \<Rightarrow> uint \<Rightarrow> nat \<Rightarrow> nat \<Rightarrow> smp \<Rightarrow> smp" where
  "acquire_record m v lk c = set_lock lk (\<lambda>l. l\<lparr>lcpu := Some c, pcs := getcallerpcs m v\<rparr>)"

definition release_clear :: "nat \<Rightarrow> smp \<Rightarrow> smp" where
  "release_clear lk = set_lock lk (\<lambda>l. l\<lparr>pcs := (pcs l)[0 := 0], lcpu := None\<rparr>)"

text \<open>
  \<open>acquire\<close> run by CPU \<open>c\<close> with no other CPU moving: \<open>None\<close> if it spins for ever. \<open>m\<close> and
  \<open>v\<close> are the memory and the argument's address that \<open>getcallerpcs\<close> reads.
\<close>

definition acquire :: "mem \<Rightarrow> uint \<Rightarrow> nat \<Rightarrow> nat \<Rightarrow> smp \<Rightarrow> (smp, unit) outcome option" where
  "acquire m v lk c s =
     (let s = pushcli c s
      in if holding lk c s then Some (Panic ''acquire'')
         else if locked (locks s lk) then None
         else Some (Done () (acquire_record m v lk c (set_lock lk (\<lambda>l. l\<lparr>locked := True\<rparr>) s))))"

definition release :: "nat \<Rightarrow> nat \<Rightarrow> (smp, unit) kop" where
  "release lk c s =
     (if \<not> holding lk c s then Panic ''release''
      else popcli c (set_lock lk (\<lambda>l. l\<lparr>locked := False\<rparr>) (release_clear lk s)))"

section \<open>Interleaving\<close>

text \<open>
  Where each CPU is: outside the lock code, spinning in \<open>acquire\<close>, past the successful
  \<open>xchg\<close> but not yet recorded in \<open>lk->cpu\<close>, past the clearing of \<open>lk->cpu\<close> in \<open>release\<close>
  but before its \<open>xchg\<close>, or before its \<open>popcli\<close>.
\<close>

datatype ctl = Outside | Spinning nat | Acquired nat | Clearing nat | Unlocked

record machine =
  hw :: smp
  ctl_of :: "nat \<Rightarrow> ctl"
  held_of :: "nat \<Rightarrow> nat set"  \<comment> \<open>history: \<open>acquire\<close> has returned, \<open>release\<close> not been called\<close>

inductive lock_step :: "machine \<Rightarrow> machine \<Rightarrow> bool" where
  sti_cli: "\<lbrakk> ctl_of s c = Outside; ncli (cpus (hw s) c) = 0 \<rbrakk> \<Longrightarrow>
     lock_step s (s\<lparr>hw := (hw s)\<lparr>cpus := (cpus (hw s))(c := (cpus (hw s) c)\<lparr>intr := b\<rparr>)\<rparr>\<rparr>)"
| acquire_enter: "\<lbrakk> ctl_of s c = Outside; \<not> holding lk c (pushcli c (hw s)) \<rbrakk> \<Longrightarrow>
     lock_step s (s\<lparr>hw := pushcli c (hw s),
       ctl_of := (ctl_of s)(c := Spinning lk)\<rparr>)"
| xchg_busy: "\<lbrakk> ctl_of s c = Spinning lk; locked (locks (hw s) lk) \<rbrakk> \<Longrightarrow> lock_step s s"
| xchg_free: "\<lbrakk> ctl_of s c = Spinning lk; \<not> locked (locks (hw s) lk) \<rbrakk> \<Longrightarrow>
     lock_step s (s\<lparr>hw := set_lock lk (\<lambda>l. l\<lparr>locked := True\<rparr>) (hw s),
       ctl_of := (ctl_of s)(c := Acquired lk)\<rparr>)"
| acquire_done: "ctl_of s c = Acquired lk \<Longrightarrow>
     lock_step s (s\<lparr>hw := acquire_record m v lk c (hw s),
       ctl_of := (ctl_of s)(c := Outside),
       held_of := (held_of s)(c := insert lk (held_of s c))\<rparr>)"
| release_enter: "\<lbrakk> ctl_of s c = Outside; holding lk c (hw s) \<rbrakk> \<Longrightarrow>
     lock_step s (s\<lparr>hw := release_clear lk (hw s),
       ctl_of := (ctl_of s)(c := Clearing lk),
       held_of := (held_of s)(c := held_of s c - {lk})\<rparr>)"
| release_xchg: "ctl_of s c = Clearing lk \<Longrightarrow>
     lock_step s (s\<lparr>hw := set_lock lk (\<lambda>l. l\<lparr>locked := False\<rparr>) (hw s),
       ctl_of := (ctl_of s)(c := Unlocked)\<rparr>)"
| release_done: "\<lbrakk> ctl_of s c = Unlocked; popcli c (hw s) = Done () h \<rbrakk> \<Longrightarrow>
     lock_step s (s\<lparr>hw := h,
       ctl_of := (ctl_of s)(c := Outside)\<rparr>)"

inductive_cases lock_step_cases: "lock_step s t"

text \<open>Without interference the steps of a CPU compose to the two operations.\<close>

lemma acquire_steps:
  assumes "ctl_of s c = Outside" and "acquire m v lk c (hw s) = Some (Done () h)"
  shows "lock_step\<^sup>*\<^sup>* s (s\<lparr>hw := h, held_of := (held_of s)(c := insert lk (held_of s c))\<rparr>)"
proof -
  let ?p = "pushcli c (hw s)" and ?lk = "set_lock lk (\<lambda>l. l\<lparr>locked := True\<rparr>)"
  have a: "\<not> holding lk c ?p" "\<not> locked (locks ?p lk)" "h = acquire_record m v lk c (?lk ?p)"
    using assms(2) by (auto simp: acquire_def Let_def split: if_splits)
  define s1 where "s1 = s\<lparr>hw := ?p, ctl_of := (ctl_of s)(c := Spinning lk)\<rparr>"
  define s2 where "s2 = s1\<lparr>hw := ?lk (hw s1), ctl_of := (ctl_of s1)(c := Acquired lk)\<rparr>"
  have "lock_step s s1" unfolding s1_def using assms(1) a(1) by (rule acquire_enter)
  moreover have "lock_step s1 s2" unfolding s2_def by (rule xchg_free) (simp_all add: s1_def a(2))
  moreover have "lock_step s2 (s2\<lparr>hw := acquire_record m v lk c (hw s2), ctl_of := (ctl_of s2)(c := Outside),
      held_of := (held_of s2)(c := insert lk (held_of s2 c))\<rparr>)"
    by (rule acquire_done) (simp add: s2_def)
  then have "lock_step s2 (s\<lparr>hw := h, held_of := (held_of s)(c := insert lk (held_of s c))\<rparr>)"
    using assms(1) a(3) by (simp add: s2_def s1_def fun_upd_idem)
  ultimately show ?thesis by (meson converse_rtranclp_into_rtranclp rtranclp.rtrancl_refl)
qed

lemma release_steps:
  assumes "ctl_of s c = Outside" and "release lk c (hw s) = Done () h"
  shows "lock_step\<^sup>*\<^sup>* s (s\<lparr>held_of := (held_of s)(c := held_of s c - {lk}), hw := h\<rparr>)"
proof -
  let ?ul = "set_lock lk (\<lambda>l. l\<lparr>locked := False\<rparr>)"
  have a: "holding lk c (hw s)" "popcli c (?ul (release_clear lk (hw s))) = Done () h"
    using assms(2) by (auto simp: release_def split: if_splits)
  define s1 where "s1 = s\<lparr>hw := release_clear lk (hw s), ctl_of := (ctl_of s)(c := Clearing lk),
    held_of := (held_of s)(c := held_of s c - {lk})\<rparr>"
  define s2 where "s2 = s1\<lparr>hw := ?ul (hw s1), ctl_of := (ctl_of s1)(c := Unlocked)\<rparr>"
  have "lock_step s s1" unfolding s1_def using assms(1) a(1) by (rule release_enter)
  moreover have "lock_step s1 s2" unfolding s2_def by (rule release_xchg) (simp add: s1_def)
  moreover have "lock_step s2 (s2\<lparr>hw := h, ctl_of := (ctl_of s2)(c := Outside)\<rparr>)"
    by (rule release_done) (simp_all add: s2_def s1_def a(2))
  then have "lock_step s2 (s\<lparr>held_of := (held_of s)(c := held_of s c - {lk}), hw := h\<rparr>)"
    using assms(1) by (simp add: s2_def s1_def fun_upd_idem)
  ultimately show ?thesis by (meson converse_rtranclp_into_rtranclp rtranclp.rtrancl_refl)
qed

text \<open>Boot: every lock initialised, every CPU outside with interrupts off and no \<open>pushcli\<close>.\<close>

definition boot :: "machine \<Rightarrow> bool" where
  "boot s \<longleftrightarrow> (\<forall>c. ctl_of s c = Outside \<and> held_of s c = {} \<and>
       ncli (cpus (hw s) c) = 0 \<and> \<not> intr (cpus (hw s) c)) \<and>
     (\<forall>lk. \<not> locked (locks (hw s) lk) \<and> lcpu (locks (hw s) lk) = None)"

inductive lock_reachable :: "machine \<Rightarrow> bool" where
  start: "boot s \<Longrightarrow> lock_reachable s"
| more: "lock_reachable s \<Longrightarrow> lock_step s t \<Longrightarrow> lock_reachable t"

section \<open>Invariant\<close>

text \<open>
  The CPUs between the successful \<open>xchg\<close> of \<open>acquire\<close> and the \<open>xchg\<close> of \<open>release\<close>.
\<close>

definition owners :: "machine \<Rightarrow> nat \<Rightarrow> nat set" where
  "owners s lk = {c. lcpu (locks (hw s) lk) = Some c \<or> ctl_of s c = Acquired lk \<or> ctl_of s c = Clearing lk}"

definition in_flight :: "machine \<Rightarrow> nat \<Rightarrow> int" where
  "in_flight s c = (if ctl_of s c = Outside then 0 else 1)"

definition lock_inv :: "machine \<Rightarrow> bool" where
  "lock_inv s \<longleftrightarrow>
     (\<forall>lk. if locked (locks (hw s) lk) then \<exists>c. owners s lk = {c} else owners s lk = {}) \<and>
     (\<forall>lk c. lcpu (locks (hw s) lk) = Some c \<longrightarrow> ctl_of s c \<noteq> Acquired lk \<and> ctl_of s c \<noteq> Clearing lk) \<and>
     (\<forall>c. held_of s c = {lk. lcpu (locks (hw s) lk) = Some c})"

definition cli_inv :: "machine \<Rightarrow> bool" where
  "cli_inv s \<longleftrightarrow>
     (\<forall>c. finite (held_of s c)) \<and>
     (\<forall>c. ncli (cpus (hw s) c) = int (card (held_of s c)) + in_flight s c) \<and>
     (\<forall>c. 0 < ncli (cpus (hw s) c) \<longrightarrow> \<not> intr (cpus (hw s) c))"

section \<open>Lemmas\<close>

lemma pushcli_locks [simp]: "locks (pushcli c s) = locks s"
  by (simp add: pushcli_def Let_def)

lemma set_lock_simps [simp]:
  "cpus (set_lock lk f s) = cpus s"
  "locks (set_lock lk f s) = (locks s)(lk := f (locks s lk))"
  by (simp_all add: set_lock_def)

lemma popcli_Done:
  "popcli c s = Done () t \<longleftrightarrow> \<not> intr (cpus s c) \<and> 0 < ncli (cpus s c) \<and>
     t = s\<lparr>cpus := (cpus s)(c := (cpus s c)\<lparr>ncli := ncli (cpus s c) - 1,
       intr := ncli (cpus s c) = 1 \<and> intena (cpus s c)\<rparr>)\<rparr>"
proof -
  obtain n e i where "cpus s c = \<lparr>ncli = n, intena = e, intr = i\<rparr>" by (cases "cpus s c")
  then show ?thesis by (auto simp: popcli_def Let_def)
qed

lemma holding_pushcli [simp]: "holding lk c (pushcli d s) = holding lk c s"
  by (simp add: holding_def)

lemma lock_invD:
  assumes "lock_inv s"
  shows "locked (locks (hw s) lk) \<Longrightarrow> \<exists>c. owners s lk = {c}"
    and "\<not> locked (locks (hw s) lk) \<Longrightarrow> owners s lk = {}"
    and "lcpu (locks (hw s) lk) = Some c \<Longrightarrow> ctl_of s c \<noteq> Acquired lk \<and> ctl_of s c \<noteq> Clearing lk"
  using assms unfolding lock_inv_def by (metis (full_types))+

lemma lock_inv_owner:
  assumes "lock_inv s" and "c \<in> owners s lk"
  shows "owners s lk = {c}" and "locked (locks (hw s) lk)"
  using assms lock_invD [OF assms(1), of lk] by (metis empty_iff singletonD)+

lemma ownersI:
  "ctl_of s c = Acquired lk \<Longrightarrow> c \<in> owners s lk"
  "ctl_of s c = Clearing lk \<Longrightarrow> c \<in> owners s lk"
  "holding lk c (hw s) \<Longrightarrow> c \<in> owners s lk"
  by (simp_all add: owners_def holding_def)

lemma lock_inv_step: "lock_step s t \<Longrightarrow> lock_inv s \<Longrightarrow> lock_inv t"
proof (induction rule: lock_step.induct)
  case (sti_cli s c b)
  then show ?case unfolding lock_inv_def owners_def by simp
next
  case (acquire_enter s c lk)
  let ?t = "(s\<lparr>hw := pushcli c (hw s),
       ctl_of := (ctl_of s)(c := Spinning lk)\<rparr>)"
  have "owners ?t l = owners s l" for l
    using acquire_enter.hyps by (auto simp: owners_def)
  then show ?case
    using acquire_enter.prems acquire_enter.hyps by (auto simp: lock_inv_def)
next
  case (xchg_busy s c lk)
  then show ?case by blast
next
  case (xchg_free s c lk)
  let ?t = "(s\<lparr>hw := set_lock lk (\<lambda>l. l\<lparr>locked := True\<rparr>) (hw s),
       ctl_of := (ctl_of s)(c := Acquired lk)\<rparr>)"
  have e: "owners s lk = {}"
    using xchg_free lock_invD(2) by blast
  then have "owners ?t l = (if l = lk then {c} else owners s l)" for l
    using xchg_free.hyps by (auto simp: owners_def)
  moreover have "lcpu (locks (hw s) lk) = None"
    using e by (cases "lcpu (locks (hw s) lk)") (auto simp: owners_def)
  ultimately show ?case
    using xchg_free.prems by (auto simp: lock_inv_def)
next
  case (acquire_done s c lk m v)
  let ?t = "(s\<lparr>hw := acquire_record m v lk c (hw s),
       ctl_of := (ctl_of s)(c := Outside),
       held_of := (held_of s)(c := insert lk (held_of s c))\<rparr>)"
  have e: "owners s lk = {c}" and lk: "locked (locks (hw s) lk)"
    using lock_inv_owner [OF acquire_done.prems ownersI(1) [OF acquire_done.hyps]] by auto
  then have own: "owners ?t l = (if l = lk then {c} else owners s l)" for l
    using acquire_done.hyps by (auto simp: owners_def acquire_record_def)
  have "lcpu (locks (hw s) lk) \<noteq> Some c"
    using acquire_done lock_invD(3) by blast
  then have "lcpu (locks (hw s) lk) = None"
    using e by (cases "lcpu (locks (hw s) lk)") (auto simp: owners_def)
  with own show ?case
    using acquire_done.prems lk by (auto simp: lock_inv_def acquire_record_def)
next
  case (release_enter s c lk)
  let ?t = "(s\<lparr>hw := release_clear lk (hw s),
       ctl_of := (ctl_of s)(c := Clearing lk),
       held_of := (held_of s)(c := held_of s c - {lk})\<rparr>)"
  have e: "owners s lk = {c}" and lk: "locked (locks (hw s) lk)"
    using lock_inv_owner [OF release_enter.prems ownersI(3) [OF release_enter.hyps(2)]] by auto
  then have "owners ?t l = owners s l" for l
    using release_enter.hyps by (auto simp: owners_def release_clear_def holding_def)
  then show ?case
    using release_enter lk by (auto simp: lock_inv_def release_clear_def holding_def)
next
  case (release_xchg s c lk)
  let ?t = "(s\<lparr>hw := set_lock lk (\<lambda>l. l\<lparr>locked := False\<rparr>) (hw s),
       ctl_of := (ctl_of s)(c := Unlocked)\<rparr>)"
  have e: "owners s lk = {c}" and lk: "locked (locks (hw s) lk)"
    using lock_inv_owner [OF release_xchg.prems ownersI(2) [OF release_xchg.hyps]] by auto
  moreover have "lcpu (locks (hw s) lk) \<noteq> Some c"
    using release_xchg lock_invD(3) by blast
  ultimately have "owners ?t l = (if l = lk then {} else owners s l)" for l
    using release_xchg.hyps by (auto simp: owners_def)
  then show ?case
    using release_xchg.prems by (auto simp: lock_inv_def)
next
  case (release_done s c h)
  let ?t = "(s\<lparr>hw := h,
       ctl_of := (ctl_of s)(c := Outside)\<rparr>)"
  have "owners ?t l = owners s l" for l
    using release_done.hyps by (auto simp: owners_def popcli_Done)
  then show ?case
    using release_done by (auto simp: lock_inv_def popcli_Done)
qed

lemma pushcli_cpus:
  "ncli (cpus (pushcli c s) d) = ncli (cpus s d) + (if d = c then 1 else 0)"
  "intr (cpus (pushcli c s) d) = (intr (cpus s d) \<and> d \<noteq> c)"
  by (simp_all add: pushcli_def Let_def)

lemma cli_inv_step: "lock_step s t \<Longrightarrow> lock_inv s \<Longrightarrow> cli_inv s \<Longrightarrow> cli_inv t"
proof (induction rule: lock_step.induct)
  case (acquire_done s c lk m v)
  have "lk \<notin> held_of s c"
    using acquire_done lock_invD(3) [of s lk c] by (auto simp: lock_inv_def)
  with acquire_done show ?case by (auto simp: cli_inv_def in_flight_def acquire_record_def)
next
  case (release_enter s c lk)
  have "lk \<in> held_of s c"
    using release_enter by (auto simp: lock_inv_def holding_def)
  moreover from this have "int (card (held_of s c - {lk})) = int (card (held_of s c)) - 1"
    using release_enter.prems(2) card_gt_0_iff [of "held_of s c"]
    by (auto simp: cli_inv_def card_Diff_singleton)
  ultimately show ?case
    using release_enter by (auto simp: cli_inv_def in_flight_def release_clear_def)
qed (auto simp: cli_inv_def in_flight_def pushcli_cpus popcli_Done)

lemma boot_inv: "boot s \<Longrightarrow> lock_inv s \<and> cli_inv s"
  by (auto simp: boot_def lock_inv_def cli_inv_def owners_def in_flight_def)

lemma reachable_inv: "lock_reachable s \<Longrightarrow> lock_inv s \<and> cli_inv s"
  by (induction rule: lock_reachable.induct) (use boot_inv lock_inv_step cli_inv_step in blast)+

section \<open>Properties\<close>

text \<open>C5: mutual exclusion on any number of CPUs. In every state the lock code can reach, under
  every interleaving of the CPUs, at most one CPU is between the return of \<open>acquire(lk)\<close>
  and its call of \<open>release(lk)\<close>; for that CPU, and no other, \<open>holding(lk)\<close> is true, and no
  CPU has passed the lock's \<open>xchg\<close> meanwhile. Until then \<open>acquire(lk)\<close> panics on that CPU and
  spins on every other, and \<open>release(lk)\<close> panics on every other.\<close>

theorem spinlock_mutual_exclusion:
  assumes "lock_reachable s" and "lk \<in> held_of s c"
  shows "(lk \<in> held_of s d \<longleftrightarrow> d = c) \<and> (holding lk d (hw s) \<longleftrightarrow> d = c) \<and>
    ctl_of s d \<noteq> Acquired lk \<and> ctl_of s d \<noteq> Clearing lk \<and>
    acquire m v lk d (hw s) = (if d = c then Some (Panic ''acquire'') else None) \<and>
    (release lk d (hw s) = Panic ''release'' \<or> d = c)"
proof -
  from assms(1) have inv: "lock_inv s" by (simp add: reachable_inv)
  with assms(2) have lc: "lcpu (locks (hw s) lk) = Some c" by (simp add: lock_inv_def)
  then have "c \<in> owners s lk" by (simp add: owners_def)
  note own = lock_inv_owner [OF inv this]
  have "lk \<in> held_of s d \<longleftrightarrow> d = c" using inv lc by (auto simp: lock_inv_def)
  moreover have "holding lk d (hw s) \<longleftrightarrow> d = c" using lc own(2) by (auto simp: holding_def)
  moreover from this have "acquire m v lk d (hw s) = (if d = c then Some (Panic ''acquire'') else None)"
      "release lk d (hw s) = Panic ''release'' \<or> d = c"
    using own(2) by (auto simp: acquire_def release_def holding_def pushcli_def Let_def)
  moreover have "ctl_of s d \<noteq> Acquired lk \<and> ctl_of s d \<noteq> Clearing lk"
    using own(1) lock_invD(3) [OF inv lc] ownersI(1,2) [of s d lk] by (cases "d = c") auto
  ultimately show ?thesis by blast
qed

definition boot_machine :: machine where
  "boot_machine = \<lparr>hw = \<lparr>cpus = \<lambda>_. \<lparr>ncli = 0, intena = False, intr = False\<rparr>,
     locks = \<lambda>_. \<lparr>locked = False, lname = [], lcpu = None, pcs = []\<rparr>\<rparr>,
     ctl_of = \<lambda>_. Outside, held_of = \<lambda>_. {}\<rparr>"

text \<open>CPU 0 takes lock 7, uncontended.\<close>

lemma reachable_held: "\<exists>s. lock_reachable s \<and> 7 \<in> held_of s 0 \<and> ctl_of s 0 = Outside"
proof -
  have "lock_reachable boot_machine"
    by (rule lock_reachable.start) (simp add: boot_def boot_machine_def)
  from lock_reachable.more [OF this lock_step.acquire_enter [of boot_machine 0 7]]
  obtain s1 where s1: "lock_reachable s1" "ctl_of s1 0 = Spinning 7" "\<not> locked (locks (hw s1) 7)"
    by (auto simp: boot_machine_def holding_def)
  from lock_reachable.more [OF s1(1) lock_step.xchg_free [OF s1(2,3)]]
  obtain s2 where s2: "lock_reachable s2" "ctl_of s2 0 = Acquired 7" by auto
  have "lock_reachable (s2\<lparr>hw := acquire_record (\<lambda>_. 0) 0 7 0 (hw s2), ctl_of := (ctl_of s2)(0 := Outside),
      held_of := (held_of s2)(0 := insert 7 (held_of s2 0))\<rparr>)"
    by (rule lock_reachable.more [OF s2(1) lock_step.acquire_done [OF s2(2)]])
  then show ?thesis by fastforce
qed

theorem spinlock_mutual_exclusion_witness:
  "\<exists>s. lock_reachable s \<and> 7 \<in> held_of s 0 \<and> 7 \<notin> held_of s 1 \<and> \<not> holding 7 1 (hw s) \<and>
    acquire (\<lambda>_. 0) 0 7 1 (hw s) = None"
proof -
  obtain s where s: "lock_reachable s" "7 \<in> held_of s 0" using reachable_held by blast
  from s spinlock_mutual_exclusion [OF s, of 1 "\<lambda>_. 0" 0] show ?thesis by auto
qed





end
