(* ===== verification/Ptable.thy ===== *)
theory Ptable
  imports XV6_Prelude
begin

text \<open>
  The process table and the scheduler's side of \<^verbatim>\<open>src/proc.c\<close>: \<open>struct proc\<close>
  (\<^verbatim>\<open>src/proc.h\<close>), sleeping and waking, \<open>kill\<close>, \<open>yield\<close>, \<open>sched\<close> and the lottery
  \<open>scheduler\<close>. The record \<open>kstate\<close> is the root of the kernel state: the other components
  extend it with their own fields, so that every operation here runs on every such state.

  Spin locks appear as the set \<open>held\<close> of locks the running CPU holds: \<open>lk_acquire\<close> and
  \<open>lk_release\<close> are \<open>acquire\<close> and \<open>release\<close> of the theory Spinlock as that CPU sees them
  once it has the lock (the panics included), and \<open>ncli\<close> is the number of locks held.
\<close>

section \<open>State\<close>

definition NPROC :: nat where "NPROC = 64"
definition KSTACKSIZE :: uint where "KSTACKSIZE = 4096"
definition NOFILE :: nat where "NOFILE = 16"
definition INIT_TICKETS :: uint where "INIT_TICKETS = 10"

datatype procstate = UNUSED | EMBRYO | SLEEPING | RUNNABLE | RUNNING | ZOMBIE

record trapframe =
  tf_edi :: uint
  tf_esi :: uint
  tf_ebp :: uint
  tf_ebx :: uint
  tf_edx :: uint
  tf_ecx :: uint
  tf_eax :: uint
  tf_gs :: ushort
  tf_fs :: ushort
  tf_es :: ushort
  tf_ds :: ushort
  tf_trapno :: uint
  tf_err :: uint
  tf_eip :: uint
  tf_cs :: ushort
  tf_eflags :: uint
  tf_esp :: uint
  tf_ss :: ushort

record kcontext =
  c_edi :: uint
  c_esi :: uint
  c_ebx :: uint
  c_ebp :: uint
  c_eip :: uint

text \<open>
  \<open>struct proc\<close>. Pointers to processes, files and inodes are indices into their tables,
  \<open>None\<close> for 0; \<open>tf\<close> and \<open>context\<close> are the frames themselves, which the code keeps at the
  top of the kernel stack page. \<open>tickets\<close> is an \<open>int\<close>, kept as its 32-bit pattern.
\<close>

record proc =
  p_sz :: uint
  p_pgdir :: uint
  p_kstack :: uint
  p_state :: procstate
  p_pid :: int
  p_parent :: "nat option"
  p_tf :: trapframe
  p_context :: kcontext
  p_chan :: "chan option"
  p_killed :: bool
  p_ofile :: "nat option list"
  p_cwd :: "nat option"
  p_name :: "byte list"
  p_tickets :: uint

datatype lockid = LkPtable | LkKmem | LkBcache | LkIde | LkLog | LkIcache | LkFtable
  | LkTicks | LkCons | LkPipe uint

text \<open>
  \<open>curproc\<close> is the per-CPU variable \<open>proc\<close>, \<open>cr3\<close> the CPU's page directory register
  and \<open>ts_esp0\<close> the kernel stack of its task state.
\<close>

record kstate =
  held :: "lockid set"
  ptable :: "proc list"
  nextpid :: int
  initproc :: "nat option"
  curproc :: "nat option"
  ticks :: uint
  kpgdir :: uint
  cr3 :: uint
  ts_esp0 :: uint

definition zero_tf :: trapframe where
  "zero_tf = \<lparr>tf_edi = 0, tf_esi = 0, tf_ebp = 0, tf_ebx = 0, tf_edx = 0, tf_ecx = 0,
     tf_eax = 0, tf_gs = 0, tf_fs = 0, tf_es = 0, tf_ds = 0, tf_trapno = 0, tf_err = 0,
     tf_eip = 0, tf_cs = 0, tf_eflags = 0, tf_esp = 0, tf_ss = 0\<rparr>"

definition zero_context :: kcontext where
  "zero_context = \<lparr>c_edi = 0, c_esi = 0, c_ebx = 0, c_ebp = 0, c_eip = 0\<rparr>"

text \<open>A process slot as the zero-initialised table has it.\<close>

definition zero_proc :: proc where
  "zero_proc = \<lparr>p_sz = 0, p_pgdir = 0, p_kstack = 0, p_state = UNUSED, p_pid = 0,
     p_parent = None, p_tf = zero_tf, p_context = zero_context, p_chan = None,
     p_killed = False, p_ofile = replicate NOFILE None, p_cwd = None,
     p_name = replicate 16 0, p_tickets = 0\<rparr>"

section \<open>Locks as the running CPU sees them\<close>

definition lk_acquire :: "lockid \<Rightarrow> ('z kstate_scheme, unit) kop" where
  "lk_acquire lk = kseq (kpanic_if (\<lambda>s. lk \<in> held s) ''acquire'')
     (kmod (\<lambda>s. s\<lparr>held := insert lk (held s)\<rparr>))"

definition lk_release :: "lockid \<Rightarrow> ('z kstate_scheme, unit) kop" where
  "lk_release lk = kseq (kpanic_if (\<lambda>s. lk \<notin> held s) ''release'')
     (kmod (\<lambda>s. s\<lparr>held := held s - {lk}\<rparr>))"

section \<open>Sleep and wakeup\<close>

definition upd_proc :: "nat \<Rightarrow> (proc \<Rightarrow> proc) \<Rightarrow> 'z kstate_scheme \<Rightarrow> 'z kstate_scheme" where
  "upd_proc i f s = s\<lparr>ptable := (ptable s)[i := f (ptable s ! i)]\<rparr>"

text \<open>The current process; the code dereferences \<open>proc\<close> without a check.\<close>

definition cur :: "'z kstate_scheme \<Rightarrow> nat" where
  "cur s = the (curproc s)"

definition wake_proc :: "chan \<Rightarrow> proc \<Rightarrow> proc" where
  "wake_proc c p = (if p_state p = SLEEPING \<and> p_chan p = Some c then p\<lparr>p_state := RUNNABLE\<rparr> else p)"

definition wakeup1 :: "chan \<Rightarrow> ('z kstate_scheme, unit) kop" where
  "wakeup1 c = kmod (\<lambda>s. s\<lparr>ptable := map (wake_proc c) (ptable s)\<rparr>)"

definition wakeup :: "chan \<Rightarrow> ('z kstate_scheme, unit) kop" where
  "wakeup c = kseq (lk_acquire LkPtable) (kseq (wakeup1 c) (lk_release LkPtable))"

text \<open>
  \<open>sched\<close> up to its \<open>swtch\<close>. Interrupts are off exactly while a lock is held
  (\<open>pushcli_popcli_discipline\<close> of the theory Spinlock), so the last check is on \<open>held\<close>.
\<close>

definition sched :: "('z kstate_scheme, 'a) kop" where
  "sched = kseq (kpanic_if (\<lambda>s. LkPtable \<notin> held s) ''sched ptable.lock'')
     (kseq (kpanic_if (\<lambda>s. card (held s) \<noteq> 1) ''sched locks'')
     (kseq (kpanic_if (\<lambda>s. p_state (ptable s ! cur s) = RUNNING) ''sched running'')
     (kseq (kpanic_if (\<lambda>s. held s = {}) ''sched interruptible'')
     (\<lambda>s. Swtch s))))"

text \<open>\<open>yield\<close> up to the switch, and after the scheduler has switched back.\<close>

definition yield :: "('z kstate_scheme, unit) kop" where
  "yield = kseq (lk_acquire LkPtable)
     (kseq (kmod (\<lambda>s. upd_proc (cur s) (\<lambda>p. p\<lparr>p_state := RUNNABLE\<rparr>) s)) sched)"

definition yield_resume :: "('z kstate_scheme, unit) kop" where
  "yield_resume = lk_release LkPtable"

text \<open>
  \<open>sleep(chan, lk)\<close> up to the switch, and after it. No caller passes a null lock, so
  \<open>lk\<close> is a lock and the code's \<open>lk == 0\<close> panic has no counterpart.
\<close>

definition sleep :: "chan \<Rightarrow> lockid \<Rightarrow> ('z kstate_scheme, 'a) kop" where
  "sleep c lk = kseq (kpanic_if (\<lambda>s. curproc s = None) ''sleep'')
     (kseq (if lk \<noteq> LkPtable then kseq (lk_acquire LkPtable) (lk_release lk) else kret ())
     (kseq (kmod (\<lambda>s. upd_proc (cur s) (\<lambda>p. p\<lparr>p_chan := Some c, p_state := SLEEPING\<rparr>) s))
     sched))"

definition sleep_resume :: "lockid \<Rightarrow> ('z kstate_scheme, unit) kop" where
  "sleep_resume lk = kseq (kmod (\<lambda>s. upd_proc (cur s) (\<lambda>p. p\<lparr>p_chan := None\<rparr>) s))
     (if lk \<noteq> LkPtable then kseq (lk_release LkPtable) (lk_acquire lk) else kret ())"

text \<open>\<open>kill(pid)\<close>: the first slot with that pid, whatever its state.\<close>

definition kill_proc :: "proc \<Rightarrow> proc" where
  "kill_proc p = (let p = p\<lparr>p_killed := True\<rparr>
     in if p_state p = SLEEPING then p\<lparr>p_state := RUNNABLE\<rparr> else p)"

definition kill :: "int \<Rightarrow> ('z kstate_scheme, int) kop" where
  "kill pid = kseq (lk_acquire LkPtable)
     (kbind (kget (\<lambda>s. find (\<lambda>i. p_pid (ptable s ! i) = pid) [0..<length (ptable s)]))
       (\<lambda>r. case r of
          Some i \<Rightarrow> kseq (kmod (upd_proc i kill_proc)) (kseq (lk_release LkPtable) (kret 0))
        | None \<Rightarrow> kseq (lk_release LkPtable) (kret (- 1))))"

section \<open>The lottery scheduler\<close>

definition switchkvm :: "('z kstate_scheme, unit) kop" where
  "switchkvm = kmod (\<lambda>s. s\<lparr>cr3 := v2p (kpgdir s)\<rparr>)"

definition switchuvm :: "nat \<Rightarrow> ('z kstate_scheme, unit) kop" where
  "switchuvm i = kseq (kmod (\<lambda>s. s\<lparr>ts_esp0 := p_kstack (ptable s ! cur s) + KSTACKSIZE\<rparr>))
     (kseq (kpanic_if (\<lambda>s. p_pgdir (ptable s ! i) = 0) ''switchuvm: no pgdir'')
     (kmod (\<lambda>s. s\<lparr>cr3 := v2p (p_pgdir (ptable s ! i))\<rparr>)))"

text \<open>
  One round of \<open>scheduler\<close>'s loop, with \<open>r\<close> the value of \<open>random_at_most(982343221)\<close>.
  \<open>total_tickets\<close> adds the tickets of every slot, whatever its state. The sums are \<open>int\<close>s
  (32-bit, wrapping); the comparison with the \<open>unsigned long\<close> \<open>rand_num\<close> is unsigned.
\<close>

definition total_tickets :: "proc list \<Rightarrow> uint" where
  "total_tickets ps = sum_list (map p_tickets ps)"

definition draw :: "proc list \<Rightarrow> uint \<Rightarrow> uint" where
  "draw ps r = (if 0 < sint (total_tickets ps) then r mod total_tickets ps else 0)"

fun lottery_scan :: "uint \<Rightarrow> uint \<Rightarrow> nat \<Rightarrow> proc list \<Rightarrow> nat option" where
  "lottery_scan rand_num acc i [] = None"
| "lottery_scan rand_num acc i (p # ps) =
     (if p_state p \<noteq> RUNNABLE then lottery_scan rand_num acc (Suc i) ps
      else if p_tickets p + acc \<le> rand_num
      then lottery_scan rand_num (acc + p_tickets p) (Suc i) ps
      else Some i)"

definition lottery_pick :: "proc list \<Rightarrow> uint \<Rightarrow> nat option" where
  "lottery_pick ps r = lottery_scan (draw ps r) 0 0 ps"

text \<open>\<open>proc = p; switchuvm(p); p->state = RUNNING;\<close>, up to the switch to the process.\<close>

definition run_proc :: "nat \<Rightarrow> ('z kstate_scheme, unit) kop" where
  "run_proc i = kseq (kmod (\<lambda>s. s\<lparr>curproc := Some i\<rparr>))
     (kseq (switchuvm i) (kmod (upd_proc i (\<lambda>p. p\<lparr>p_state := RUNNING\<rparr>))))"

text \<open>
  A round ends with a process chosen and switched to, the lock still held, or with none
  and the lock released. The result is \<open>foundproc\<close>; a round that starts with
  \<open>foundproc\<close> false halts the CPU until an interrupt before it scans.
\<close>

definition scheduler_round :: "uint \<Rightarrow> ('z kstate_scheme, bool) kop" where
  "scheduler_round r =
     kbind (kget (\<lambda>s. draw (ptable s) r)) (\<lambda>rand_num.
     kseq (lk_acquire LkPtable)
     (kbind (kget (\<lambda>s. lottery_scan rand_num 0 0 (ptable s))) (\<lambda>c.
       case c of
         Some i \<Rightarrow> kseq (run_proc i) (kret True)
       | None \<Rightarrow> kseq (lk_release LkPtable) (kret False))))"

text \<open>The rest of the round, when the process has switched back.\<close>

definition scheduler_resume :: "('z kstate_scheme, unit) kop" where
  "scheduler_resume = kseq switchkvm
     (kseq (kmod (\<lambda>s. s\<lparr>curproc := None\<rparr>)) (lk_release LkPtable))"

section \<open>Execution facts\<close>

lemma lk_acquire_exec [simp]:
  "lk \<notin> held s \<Longrightarrow> lk_acquire lk s = Done () (s\<lparr>held := insert lk (held s)\<rparr>)"
  "lk \<in> held s \<Longrightarrow> lk_acquire lk s = Panic ''acquire''"
  by (simp_all add: lk_acquire_def)

lemma lk_release_exec [simp]:
  "lk \<in> held s \<Longrightarrow> lk_release lk s = Done () (s\<lparr>held := held s - {lk}\<rparr>)"
  "lk \<notin> held s \<Longrightarrow> lk_release lk s = Panic ''release''"
  by (simp_all add: lk_release_def)

lemma upd_proc_simps [simp]:
  "held (upd_proc i f s) = held s"
  "curproc (upd_proc i f s) = curproc s"
  "cur (upd_proc i f s) = cur s"
  "length (ptable (upd_proc i f s)) = length (ptable s)"
  "i < length (ptable s) \<Longrightarrow> ptable (upd_proc i f s) ! i = f (ptable s ! i)"
  "j \<noteq> i \<Longrightarrow> ptable (upd_proc i f s) ! j = ptable s ! j"
  by (simp_all add: upd_proc_def cur_def)

lemma cur_held [simp]: "cur (s\<lparr>held := h\<rparr>) = cur s"
  by (simp add: cur_def)

text \<open>
  \<open>wakeup\<close> does not need the caller's locks and leaves them as they were: after it the
  state differs in the table alone.
\<close>

lemma wakeup_exec [simp]:
  "LkPtable \<notin> held s \<Longrightarrow>
     wakeup c s = Done () (s\<lparr>ptable := map (wake_proc c) (ptable s)\<rparr>)"
  by (simp add: wakeup_def wakeup1_def)

section \<open>The lottery\<close>

text \<open>The tickets with which a process takes part in the draw.\<close>

definition stake :: "proc \<Rightarrow> nat" where
  "stake p = (if p_state p = RUNNABLE then unat (p_tickets p) else 0)"

definition stakes :: "proc list \<Rightarrow> nat" where
  "stakes ps = sum_list (map stake ps)"

lemma stakes_simps [simp]:
  "stakes [] = 0"
  "stakes (p # ps) = stake p + stakes ps"
  "stakes (ps @ qs) = stakes ps + stakes qs"
  by (simp_all add: stakes_def)

text \<open>
  The scan picks slot \<open>j\<close> exactly when the drawn number falls into \<open>j\<close>'s segment of the
  line on which the stakes of the runnable processes are laid end to end.
\<close>

lemma lottery_scan_iff:
  assumes "unat acc + stakes ps < 2 ^ 32" and "unat acc \<le> unat r"
  shows "lottery_scan r acc i ps = Some k \<longleftrightarrow>
    (\<exists>j < length ps. k = i + j \<and>
       unat acc + stakes (take j ps) \<le> unat r \<and>
       unat r < unat acc + stakes (take j ps) + stake (ps ! j))"
  using assms
proof (induction ps arbitrary: acc i)
  case Nil
  then show ?case by simp
next
  case (Cons p ps)
  show ?case
  proof (cases "p_state p = RUNNABLE")
    case False
    then have z: "stake p = 0" by (simp add: stake_def)
    with Cons.prems False show ?thesis
      by (simp add: Ex_less_Suc2 Cons.IH)
  next
    case True
    then have st: "stake p = unat (p_tickets p)" by (simp add: stake_def)
    with Cons.prems have u: "unat (p_tickets p + acc) = stake p + unat acc"
      by (simp add: unat_add_acc)
    show ?thesis
    proof (cases "p_tickets p + acc \<le> r")
      case le: True
      have c: "acc + p_tickets p = p_tickets p + acc" by simp
      from le u have r: "stake p + unat acc \<le> unat r" by (simp add: word_le_nat_alt)
      from Cons.prems u r have "lottery_scan r (p_tickets p + acc) (Suc i) ps = Some k \<longleftrightarrow>
        (\<exists>j < length ps. k = Suc i + j \<and> stake p + unat acc + stakes (take j ps) \<le> unat r \<and>
           unat r < stake p + unat acc + stakes (take j ps) + stake (ps ! j))"
        by (subst Cons.IH) simp_all
      with True le r show ?thesis
        unfolding lottery_scan.simps(2) c
        by (simp add: Ex_less_Suc2 add.assoc add.left_commute add.commute)
    next
      case False
      with u have r: "unat r < stake p + unat acc" by (simp add: word_le_nat_alt)
      with True False Cons.prems show ?thesis
        by (auto simp: Ex_less_Suc2)
    qed
  qed
qed

lemma lottery_scan_Some_runnable:
  "lottery_scan r acc i ps = Some k \<Longrightarrow>
     i \<le> k \<and> k < i + length ps \<and> p_state (ps ! (k - i)) = RUNNABLE"
proof (induction r acc i ps rule: lottery_scan.induct)
  case (2 r acc i p ps)
  then show ?case
    by (cases "k = i") (auto split: if_splits simp: nth_Cons')
qed simp

lemma lottery_scan_None:
  assumes "unat acc + stakes ps < 2 ^ 32" and "unat acc \<le> unat r"
  shows "lottery_scan r acc i ps = None \<longleftrightarrow> unat acc + stakes ps \<le> unat r"
  using assms
proof (induction ps arbitrary: acc i)
  case (Cons p ps)
  show ?case
  proof (cases "p_state p = RUNNABLE")
    case True
    then have st: "stake p = unat (p_tickets p)" by (simp add: stake_def)
    with Cons.prems have u: "unat (p_tickets p + acc) = stake p + unat acc"
      by (simp add: unat_add_acc)
    have c: "acc + p_tickets p = p_tickets p + acc" by simp
    show ?thesis
    proof (cases "p_tickets p + acc \<le> r")
      case le: True
      with Cons.prems u have "lottery_scan r (p_tickets p + acc) (Suc i) ps = None \<longleftrightarrow>
          unat (p_tickets p + acc) + stakes ps \<le> unat r"
        by (intro Cons.IH) (simp_all add: word_le_nat_alt)
      with True le u show ?thesis unfolding lottery_scan.simps(2) c by (simp add: ac_simps)
    next
      case False
      with True u show ?thesis by (simp add: word_le_nat_alt)
    qed
  qed (use Cons in \<open>simp add: stake_def\<close>)
qed simp

text \<open>The total counts every slot; it bounds the stakes of the runnable ones.\<close>

definition tickets_sum :: "proc list \<Rightarrow> nat" where
  "tickets_sum ps = sum_list (map (\<lambda>p. unat (p_tickets p)) ps)"

lemma stakes_le_tickets_sum: "stakes ps \<le> tickets_sum ps"
  by (induction ps) (auto simp: tickets_sum_def stake_def)

lemma unat_total_tickets:
  "tickets_sum ps < 2 ^ 32 \<Longrightarrow> unat (total_tickets ps) = tickets_sum ps"
  by (induction ps) (auto simp: tickets_sum_def total_tickets_def unat_word_ariths)

lemma draw_eq:
  assumes "0 < tickets_sum ps" and "tickets_sum ps < 2 ^ 31"
  shows "unat (draw ps r) = unat r mod tickets_sum ps"
proof -
  have u: "unat (total_tickets ps) = tickets_sum ps"
    using assms by (intro unat_total_tickets) simp
  then have "sint (total_tickets ps) = int (tickets_sum ps)"
    using assms by (simp add: sint_nonneg)
  then show ?thesis using assms u by (simp add: draw_def unat_mod_distrib)
qed

lemma lottery_pick_iff:
  assumes "0 < tickets_sum ps" and "tickets_sum ps < 2 ^ 31"
  shows "lottery_pick ps r = Some i \<longleftrightarrow> i < length ps \<and>
    stakes (take i ps) \<le> unat r mod tickets_sum ps \<and>
    unat r mod tickets_sum ps < stakes (take i ps) + stake (ps ! i)"
  using assms stakes_le_tickets_sum [of ps]
  by (simp add: lottery_pick_def lottery_scan_iff draw_eq)

lemma stakes_take_add:
  "i < length ps \<Longrightarrow> stakes (take i ps) + stake (ps ! i) \<le> stakes ps"
  by (subst (3) id_take_nth_drop [of i ps]) simp_all


section \<open>Properties\<close>

definition runnable_mapped :: "'z kstate_scheme \<Rightarrow> bool" where
  "runnable_mapped s \<longleftrightarrow> (\<forall>p \<in> set (ptable s). p_state p = RUNNABLE \<longrightarrow> p_pgdir p \<noteq> 0)"



text \<open>C27: When the scan finds nobody. With positive total below 2^31 the round chooses no
  process exactly when the remainder of the draw reaches the tickets of the runnable
  processes; hence it always chooses one if only runnable processes have tickets.
  Tickets of processes that are asleep, running elsewhere, or of free slots
  are counted in the total, and draws that fall on them choose nobody.\<close>

theorem lottery_idle_iff:
  assumes "0 < tickets_sum ps" and "tickets_sum ps < 2 ^ 31"
  shows "(lottery_pick ps r = None \<longleftrightarrow> stakes ps \<le> unat r mod tickets_sum ps) \<and>
    (stakes ps = tickets_sum ps \<longrightarrow> lottery_pick ps r \<noteq> None)"
proof -
  have "lottery_pick ps r = None \<longleftrightarrow> stakes ps \<le> unat r mod tickets_sum ps"
    using assms stakes_le_tickets_sum [of ps]
    by (simp add: lottery_pick_def lottery_scan_None draw_eq)
  then show ?thesis using assms(1) by (simp add: not_le)
qed

theorem lottery_idle_iff_witness:
  "lottery_pick [zero_proc\<lparr>p_state := RUNNABLE, p_tickets := 10\<rparr>,
     zero_proc\<lparr>p_state := SLEEPING, p_tickets := 30\<rparr>] 10 = None"
  using lottery_idle_iff [of "[zero_proc\<lparr>p_state := RUNNABLE, p_tickets := 10\<rparr>,
     zero_proc\<lparr>p_state := SLEEPING, p_tickets := 30\<rparr>]" 10]
  by (simp add: tickets_sum_def stakes_def stake_def)

lemma run_proc_exec:
  assumes "p_pgdir (ptable s ! i) \<noteq> 0"
  shows "run_proc i s = Done () (s\<lparr>ptable := (ptable s)[i := (ptable s ! i)\<lparr>p_state := RUNNING\<rparr>],
    curproc := Some i, cr3 := v2p (p_pgdir (ptable s ! i)), ts_esp0 := p_kstack (ptable s ! i) + KSTACKSIZE\<rparr>)"
  using assms by (simp add: run_proc_def switchuvm_def upd_proc_def cur_def)

text \<open>C23: One scheduler round never panics when the runnable processes have a page
  directory and the CPU does not hold the table lock. A round that finds a process leaves
  the CPU in that process's address space with the table lock held, the process marked
  RUNNING and every other slot untouched, and that process was RUNNABLE; a round that finds
  nobody leaves the state as it was.\<close>

theorem scheduler_round_correct:
  assumes "LkPtable \<notin> held s" and "runnable_mapped s"
  shows "case lottery_pick (ptable s) r of
      None \<Rightarrow> scheduler_round r s = Done False s
    | Some i \<Rightarrow> i < length (ptable s) \<and> p_state (ptable s ! i) = RUNNABLE \<and>
        scheduler_round r s = Done True (s\<lparr>held := insert LkPtable (held s),
          ptable := (ptable s)[i := (ptable s ! i)\<lparr>p_state := RUNNING\<rparr>],
          curproc := Some i, cr3 := v2p (p_pgdir (ptable s ! i)),
          ts_esp0 := p_kstack (ptable s ! i) + KSTACKSIZE\<rparr>)"
proof (cases "lottery_pick (ptable s) r")
  case None
  with assms show ?thesis
    by (simp add: scheduler_round_def lottery_pick_def)
next
  case (Some i)
  then have i: "i < length (ptable s)" "p_state (ptable s ! i) = RUNNABLE"
    using lottery_scan_Some_runnable [of _ 0 0 "ptable s" i] by (auto simp: lottery_pick_def)
  with assms(2) have "p_pgdir (ptable s ! i) \<noteq> 0" by (simp add: runnable_mapped_def)
  with run_proc_exec [of "s\<lparr>held := insert LkPtable (held s)\<rparr>" i] assms(1) Some i show ?thesis
    by (simp add: scheduler_round_def lottery_pick_def)
qed

theorem scheduler_round_correct_witness:
  "\<exists>t. scheduler_round 4 \<lparr>held = {}, ptable = [zero_proc\<lparr>p_state := RUNNABLE, p_pgdir := 0x80100000,
       p_tickets := 10\<rparr>], nextpid = 2, initproc = None, curproc = None, ticks = 0, kpgdir = 0,
       cr3 = 0, ts_esp0 = 0\<rparr> = Done True t \<and> curproc t = Some 0"
proof -
  define s where "s = \<lparr>held = {}, ptable = [zero_proc\<lparr>p_state := RUNNABLE, p_pgdir := 0x80100000,
       p_tickets := 10\<rparr>], nextpid = 2, initproc = None, curproc = None, ticks = 0, kpgdir = 0,
       cr3 = 0, ts_esp0 = 0\<rparr>"
  have "lottery_pick (ptable s) 4 = Some 0" "LkPtable \<notin> held s" "runnable_mapped s"
    by (simp_all add: s_def lottery_pick_def draw_def total_tickets_def runnable_mapped_def)
  then show ?thesis using scheduler_round_correct [of s 4] unfolding s_def by simp
qed

lemma sleep_exec:
  assumes "curproc s = Some i" and "i < length (ptable s)"
    and "held s = {lk}" and "lk \<noteq> LkPtable"
  shows "sleep c lk s =
    Swtch (upd_proc i (\<lambda>p. p\<lparr>p_chan := Some c, p_state := SLEEPING\<rparr>) (s\<lparr>held := {LkPtable}\<rparr>))"
  using assms by (auto simp: sleep_def sched_def insert_commute cur_def insert_Diff_if upd_proc_def)

lemma sleep_resume_exec:
  assumes "held s = {LkPtable}" and "lk \<noteq> LkPtable"
  shows "sleep_resume lk s = Done () ((upd_proc (cur s) (\<lambda>p. p\<lparr>p_chan := None\<rparr>) s)\<lparr>held := {lk}\<rparr>)"
  using assms by (simp add: sleep_resume_def)

text \<open>Some process sleeps on the channel.\<close>

definition asleep :: "chan \<Rightarrow> 'z kstate_scheme \<Rightarrow> bool" where
  "asleep c s \<longleftrightarrow> (\<exists>q \<in> set (ptable s). p_state q = SLEEPING \<and> p_chan q = Some c)"

lemma asleep_simps [simp]:
  "asleep c (s\<lparr>ptable := map (wake_proc d) (ptable s)\<rparr>) \<longleftrightarrow> c \<noteq> d \<and> asleep c s"
  "asleep c (s\<lparr>held := h\<rparr>) \<longleftrightarrow> asleep c s"
  by (auto simp: asleep_def wake_proc_def split: if_splits)

lemma asleep_upd_proc:
  assumes "asleep c (upd_proc i f s)" and "\<And>q. p_state (f q) = SLEEPING \<Longrightarrow> p_chan (f q) = Some c \<Longrightarrow> P q"
  shows "asleep c s \<or> (\<exists>q. P q)"
  using assms by (fastforce simp: asleep_def upd_proc_def dest: set_update_subset_insert [THEN subsetD])

lemma asleep_sleep:
  "asleep c (upd_proc i (\<lambda>q. q\<lparr>p_chan := Some d, p_state := SLEEPING\<rparr>) s) \<Longrightarrow> asleep c s \<or> c = d"
  by (drule asleep_upd_proc [where P = "\<lambda>_. c = d"]) simp_all

lemma asleep_resume: "asleep c (upd_proc i (\<lambda>q. q\<lparr>p_chan := None\<rparr>) s) \<Longrightarrow> asleep c s"
  by (drule asleep_upd_proc [where P = "\<lambda>_. False"]) simp_all

text \<open>A system call runs with no lock held, for a process of the table.\<close>

definition in_call :: "'z kstate_scheme \<Rightarrow> bool" where
  "in_call s \<longleftrightarrow> held s = {} \<and> (\<exists>i. curproc s = Some i \<and> i < length (ptable s))"

text \<open>A process comes back from \<open>sched\<close> with the lock of the process table.\<close>

definition resumes :: "'z kstate_scheme \<Rightarrow> bool" where
  "resumes s \<longleftrightarrow> held s = {LkPtable} \<and> (\<exists>i. curproc s = Some i \<and> i < length (ptable s))"

definition asleep_on :: "chan \<Rightarrow> 'z kstate_scheme \<Rightarrow> 'z kstate_scheme" where
  "asleep_on c s = upd_proc (cur s) (\<lambda>q. q\<lparr>p_chan := Some c, p_state := SLEEPING\<rparr>) (s\<lparr>held := {LkPtable}\<rparr>)"

definition awake :: "'z kstate_scheme \<Rightarrow> 'z kstate_scheme" where
  "awake s = (upd_proc (cur s) (\<lambda>q. q\<lparr>p_chan := None\<rparr>) s)\<lparr>held := {}\<rparr>"

lemma sleep_in_call:
  assumes "in_call s" and "lk \<noteq> LkPtable"
  shows "sleep c lk (s\<lparr>held := {lk}\<rparr>) = Swtch (asleep_on c s)"
  using assms by (auto simp: in_call_def sleep_exec asleep_on_def cur_def)

lemma in_call_awake: "resumes s \<Longrightarrow> in_call (awake s)"
  by (auto simp: resumes_def in_call_def awake_def)

lemma asleep_asleep_on: "asleep c (asleep_on d s) \<Longrightarrow> asleep c s \<or> c = d"
  unfolding asleep_on_def by (drule asleep_sleep) simp

lemma asleep_awake: "asleep c (awake s) \<Longrightarrow> asleep c s"
  unfolding awake_def asleep_simps by (rule asleep_resume)



text \<open>kill finds the first slot with the given pid. If there is one it returns 0, that
  process is marked killed and, if it was asleep, runnable, and no other slot changes; if
  there is none it returns -1. Either way the locks held are those held before.\<close>

theorem kill_correct:
  assumes "LkPtable \<notin> held s"
  shows "(\<exists>i. i < length (ptable s) \<and> p_pid (ptable s ! i) = n \<and>
        (\<forall>j<i. p_pid (ptable s ! j) \<noteq> n) \<and>
        (\<exists>t. kill n s = Done 0 t \<and> held t = held s \<and> p_killed (ptable t ! i) \<and>
          p_state (ptable t ! i) \<noteq> SLEEPING \<and> p_pid (ptable t ! i) = n \<and>
          (p_state (ptable s ! i) \<noteq> SLEEPING \<longrightarrow> p_state (ptable t ! i) = p_state (ptable s ! i)) \<and>
          (\<forall>j. j \<noteq> i \<longrightarrow> ptable t ! j = ptable s ! j))) \<or>
    (\<forall>p \<in> set (ptable s). p_pid p \<noteq> n) \<and> kill n s = Done (- 1) s"
proof (cases "find (\<lambda>i. p_pid (ptable s ! i) = n) [0..<length (ptable s)]")
  case None
  with assms have "kill n s = Done (- 1) s" by (simp add: kill_def)
  with None show ?thesis by (auto simp: find_None_iff in_set_conv_nth)
next
  case (Some i)
  then have i: "i < length (ptable s)" "p_pid (ptable s ! i) = n" "\<forall>j<i. p_pid (ptable s ! j) \<noteq> n"
    by (auto simp: find_Some_iff)
  with assms Some have k: "kill n s = Done 0 (upd_proc i kill_proc s)"
    by (simp add: kill_def upd_proc_def)
  have "kill n s = Done 0 (upd_proc i kill_proc s) \<and> held (upd_proc i kill_proc s) = held s"
    using k by simp
  with i show ?thesis by (intro disjI1 exI [of _ i]) (simp add: kill_proc_def Let_def)
qed

theorem kill_correct_witness:
  "\<exists>t. kill 3 \<lparr>held = {}, ptable = [zero_proc, zero_proc\<lparr>p_pid := 3, p_state := SLEEPING\<rparr>],
      nextpid = 4, initproc = None, curproc = None, ticks = 0, kpgdir = 0, cr3 = 0, ts_esp0 = 0\<rparr>
     = Done 0 t \<and> p_state (ptable t ! 1) \<noteq> SLEEPING"
  using kill_correct [of "\<lparr>held = {}, ptable = [zero_proc, zero_proc\<lparr>p_pid := 3, p_state := SLEEPING\<rparr>],
      nextpid = 4, initproc = None, curproc = None, ticks = 0, kpgdir = 0, cr3 = 0, ts_esp0 = 0\<rparr>" 3]
  by (auto simp: zero_proc_def less_Suc_eq)

end
