(* ===== verification/Rand.thy ===== *)
theory Rand
  imports XV6_Prelude
begin

text \<open>
  The pseudo-random numbers of the lottery (\<^verbatim>\<open>src/rand.c\<close>): the Mersenne twister, with its
  state vector updated in place, and \<open>random_at_most\<close>, which draws until a number is
  accepted. The twister is related to its defining recurrence, and \<open>random_at_most\<close> is
  shown to give each of its results to equally many accepted numbers.
\<close>

section \<open>The generator\<close>

definition MT_N :: nat where "MT_N = 624"
definition MT_M :: nat where "MT_M = 397"
definition MATRIX_A :: uint where "MATRIX_A = 0x9908b0df"
definition UPPER_MASK :: uint where "UPPER_MASK = 0x80000000"
definition LOWER_MASK :: uint where "LOWER_MASK = 0x7fffffff"
definition RAND_MAX :: uint where "RAND_MAX = 0x7fffffff"

record rng =
  mt :: "uint list"
  mti :: nat

definition rng_init :: rng where
  "rng_init = \<lparr>mt = replicate MT_N 0, mti = MT_N + 1\<rparr>"

text \<open>The seeding loop, from index \<open>mti\<close> with \<open>n\<close> entries to go.\<close>

fun seed_loop :: "nat \<Rightarrow> nat \<Rightarrow> uint list \<Rightarrow> uint list" where
  "seed_loop 0 i v = v"
| "seed_loop (Suc n) i v = seed_loop n (Suc i) (v[i := (69069 * v ! (i - 1)) AND 0xffffffff])"

definition sgenrand :: "uint \<Rightarrow> rng \<Rightarrow> rng" where
  "sgenrand seed g =
     \<lparr>mt = seed_loop (MT_N - 1) 1 ((mt g)[0 := seed AND 0xffffffff]), mti = MT_N\<rparr>"

definition mag01 :: "uint \<Rightarrow> uint" where
  "mag01 x = (if x = 0 then 0 else MATRIX_A)"

definition mix :: "uint \<Rightarrow> uint \<Rightarrow> uint" where
  "mix a b = (a AND UPPER_MASK) OR (b AND LOWER_MASK)"

definition twist :: "uint \<Rightarrow> uint \<Rightarrow> uint" where
  "twist m y = m XOR drop_bit 1 y XOR mag01 (y AND 1)"

text \<open>The three parts of the reload: \<open>kk < N-M\<close>, \<open>N-M \<le> kk < N-1\<close> and the last entry.\<close>

definition reload_low :: "nat \<Rightarrow> uint list \<Rightarrow> uint list" where
  "reload_low kk v = v[kk := twist (v ! (kk + MT_M)) (mix (v ! kk) (v ! (kk + 1)))]"

definition reload_high :: "nat \<Rightarrow> uint list \<Rightarrow> uint list" where
  "reload_high kk v = v[kk := twist (v ! (kk - (MT_N - MT_M))) (mix (v ! kk) (v ! (kk + 1)))]"

definition reload_last :: "uint list \<Rightarrow> uint list" where
  "reload_last v = v[MT_N - 1 := twist (v ! (MT_M - 1)) (mix (v ! (MT_N - 1)) (v ! 0))]"

definition reload :: "uint list \<Rightarrow> uint list" where
  "reload v = reload_last (fold reload_high [MT_N - MT_M..<MT_N - 1]
     (fold reload_low [0..<MT_N - MT_M] v))"

definition temper :: "uint \<Rightarrow> uint" where
  "temper y = (let y = y XOR drop_bit 11 y;
       y = y XOR (push_bit 7 y AND 0x9d2c5680);
       y = y XOR (push_bit 15 y AND 0xefc60000)
     in y XOR drop_bit 18 y)"

definition genrand :: "rng \<Rightarrow> uint \<times> rng" where
  "genrand g =
     (let g = (if MT_N \<le> mti g then
                 (let g = (if mti g = MT_N + 1 then sgenrand 4357 g else g)
                  in \<lparr>mt = reload (mt g), mti = 0\<rparr>)
               else g);
          y = mt g ! mti g
      in (temper y AND RAND_MAX, g\<lparr>mti := mti g + 1\<rparr>))"

section \<open>A bounded draw\<close>

definition num_rand :: uint where
  "num_rand = RAND_MAX + 1"

partial_function (option) draw_loop :: "uint \<Rightarrow> rng \<Rightarrow> (uint \<times> rng) option" where
  "draw_loop limit g = (let (x, g') = genrand g
     in if limit \<le> x then draw_loop limit g' else Some (x, g'))"

definition random_at_most :: "uint \<Rightarrow> rng \<Rightarrow> (uint \<times> rng) option" where
  "random_at_most m g =
     (let num_bins = m + 1; bin_size = num_rand div num_bins; defect = num_rand mod num_bins
      in map_option (\<lambda>(x, g'). (x div bin_size, g')) (draw_loop (num_rand - defect) g))"

section \<open>The recurrence of the twister\<close>

text \<open>The defining sequence: \<open>N\<close> initial words, and each later word from three before it.\<close>

fun mt_seq :: "uint list \<Rightarrow> nat \<Rightarrow> uint" where
  "mt_seq v k = (if k < 624 then v ! k
     else twist (mt_seq v (k - 227)) (mix (mt_seq v (k - 624)) (mt_seq v (k - 623))))"

declare mt_seq.simps [simp del]

text \<open>The outputs and the generators reached by repeated calls.\<close>

definition gen_after :: "nat \<Rightarrow> rng \<Rightarrow> rng" where
  "gen_after n g = ((snd \<circ> genrand) ^^ n) g"

definition gen_nth :: "nat \<Rightarrow> rng \<Rightarrow> uint" where
  "gen_nth n g = fst (genrand (gen_after n g))"

text \<open>\<open>v\<close> holds words \<open>b .. b + 623\<close> of the sequence, the first \<open>k\<close> of them already advanced.\<close>

definition holds_block :: "uint list \<Rightarrow> nat \<Rightarrow> nat \<Rightarrow> uint list \<Rightarrow> bool" where
  "holds_block v0 b k v \<longleftrightarrow> length v = 624 \<and>
     (\<forall>j<624. v ! j = mt_seq v0 (if j < k then b + 624 + j else b + j))"

lemma holds_block_step:
  assumes "holds_block v0 b k v" and "k < 624"
    and "x = twist (mt_seq v0 (b + k + 397)) (mix (mt_seq v0 (b + k)) (mt_seq v0 (b + k + 1)))"
  shows "holds_block v0 b (Suc k) (v[k := x])"
proof -
  have "x = mt_seq v0 (b + 624 + k)"
    using assms(3) by (subst mt_seq.simps) (simp add: ac_simps)
  then show ?thesis using assms(1,2) by (auto simp: holds_block_def nth_list_update)
qed

lemma reload_low_block:
  assumes "holds_block v0 b k v" and "k < 227"
  shows "holds_block v0 b (Suc k) (reload_low k v)"
  unfolding reload_low_def
  by (rule holds_block_step) (use assms in \<open>simp_all add: holds_block_def MT_M_def ac_simps\<close>)

lemma reload_high_block:
  assumes "holds_block v0 b k v" and "227 \<le> k" and "k < 623"
  shows "holds_block v0 b (Suc k) (reload_high k v)"
  unfolding reload_high_def
  by (rule holds_block_step)
    (use assms in \<open>simp_all add: holds_block_def MT_M_def MT_N_def ac_simps\<close>)

lemma reload_last_block:
  assumes "holds_block v0 b 623 v"
  shows "holds_block v0 b 624 (reload_last v)"
  using holds_block_step [OF assms, of "twist (v ! (MT_M - 1)) (mix (v ! (MT_N - 1)) (v ! 0))"] assms
  by (simp add: reload_last_def MT_N_def MT_M_def holds_block_def ac_simps)

lemma fold_block:
  assumes "\<And>k v. m \<le> k \<Longrightarrow> k < n \<Longrightarrow> P k v \<Longrightarrow> P (Suc k) (f k v)" and "m \<le> n" and "P m v"
  shows "P n (fold f [m..<n] v)"
  using assms(2,1,3)
proof (induction n rule: dec_induct)
  case (step n)
  then show ?case by simp
qed simp

lemma reload_block:
  assumes "holds_block v0 b 0 v"
  shows "holds_block v0 (b + 624) 0 (reload v)"
proof -
  have "holds_block v0 b 227 (fold reload_low [0..<227] v)"
    by (rule fold_block) (use assms in \<open>auto intro: reload_low_block\<close>)
  then have "holds_block v0 b 623 (fold reload_high [227..<623] (fold reload_low [0..<227] v))"
    by (intro fold_block [where P = "holds_block v0 b" and f = reload_high])
      (auto intro: reload_high_block)
  then have "holds_block v0 b 624 (reload v)"
    by (simp add: reload_def MT_N_def MT_M_def reload_last_block)
  then show ?thesis by (simp add: holds_block_def)
qed

text \<open>The state after \<open>n\<close> calls, with the generator seeded to the vector \<open>v\<close>.\<close>

definition rng_at :: "uint list \<Rightarrow> nat \<Rightarrow> rng \<Rightarrow> bool" where
  "rng_at v0 n g \<longleftrightarrow> (\<exists>b. holds_block v0 b 0 (mt g) \<and> b + mti g = 624 + n \<and> mti g \<le> 624)"

lemma genrand_at:
  assumes "rng_at v0 n g"
  shows "fst (genrand g) = temper (mt_seq v0 (624 + n)) AND RAND_MAX \<and> rng_at v0 (Suc n) (snd (genrand g))"
proof -
  obtain b where b: "holds_block v0 b 0 (mt g)" "b + mti g = 624 + n" "mti g \<le> 624"
    using assms by (auto simp: rng_at_def)
  show ?thesis
  proof (cases "mti g = 624")
    case True
    with b(2) have "b = n" by simp
    with b True have "holds_block v0 (624 + n) 0 (reload (mt g))"
      using reload_block [OF b(1)] by (simp add: ac_simps)
    with True show ?thesis
      by (auto simp: genrand_def MT_N_def rng_at_def holds_block_def Let_def
          intro!: exI [of _ "624 + n"])
  next
    case False
    with b show ?thesis
      by (auto simp: genrand_def MT_N_def rng_at_def holds_block_def Let_def intro!: exI [of _ b])
  qed
qed

lemma gen_after_at: "rng_at v0 0 g \<Longrightarrow> rng_at v0 n (gen_after n g)"
  by (induction n) (simp_all add: gen_after_def genrand_at)

lemma length_seed_loop [simp]: "length (seed_loop n i v) = length v"
  by (induction n i v rule: seed_loop.induct) simp_all

section \<open>The bounded draw\<close>

lemma genrand_le: "fst (genrand g) \<le> RAND_MAX"
  by (simp add: genrand_def Let_def word_and_le1)

lemma gen_after_Suc: "gen_after (Suc n) g = gen_after n (snd (genrand g))"
  by (simp add: gen_after_def funpow_swap1)

lemma draw_loop_enough:
  assumes "\<not> limit \<le> gen_nth n g" and "\<forall>j<n. limit \<le> gen_nth j g"
  shows "draw_loop limit g = Some (gen_nth n g, gen_after (Suc n) g)"
  using assms
proof (induction n arbitrary: g)
  case 0
  then show ?case
    by (subst draw_loop.simps) (simp add: gen_nth_def gen_after_def split_beta)
next
  case (Suc n)
  from Suc.prems(2) have "limit \<le> fst (genrand g)"
    by (force simp: gen_nth_def gen_after_def)
  moreover have eq: "gen_nth (Suc j) g = gen_nth j (snd (genrand g))" for j
    by (simp add: gen_nth_def gen_after_Suc)
  moreover have "\<forall>j<n. limit \<le> gen_nth j (snd (genrand g))"
    using Suc.prems(2) by (metis eq Suc_less_eq)
  ultimately show ?case
    using Suc.prems(1) Suc.IH [of "snd (genrand g)"]
    by (subst draw_loop.simps) (simp add: split_beta gen_after_Suc)
qed

lemma draw_loop_Some:
  "draw_loop limit g = Some y \<Longrightarrow> \<not> limit \<le> fst y \<and> (\<exists>n. fst y = gen_nth n g)"
proof (rule draw_loop.raw_induct [where P = "\<lambda>l g y. \<not> l \<le> fst y \<and> (\<exists>n. fst y = gen_nth n g)"])
  fix f limit g y
  assume IH: "\<And>l g y. f l g = Some y \<Longrightarrow> \<not> l \<le> fst y \<and> (\<exists>n. fst y = gen_nth n g)"
    and eq: "(let (x, g') = genrand g in if limit \<le> x then f limit g' else Some (x, g')) = Some y"
  show "\<not> limit \<le> fst y \<and> (\<exists>n. fst y = gen_nth n g)"
  proof (cases "limit \<le> fst (genrand g)")
    case True
    with eq have "f limit (snd (genrand g)) = Some y" by (simp add: split_beta)
    from IH [OF this] obtain n where "\<not> limit \<le> fst y" "fst y = gen_nth n (snd (genrand g))"
      by blast
    then show ?thesis
      by (auto simp: gen_nth_def gen_after_Suc intro!: exI [of _ "Suc n"])
  next
    case False
    with eq show ?thesis
      by (auto simp: split_beta gen_nth_def gen_after_def intro!: exI [of _ 0])
  qed
qed

lemma draw_loop_Some_iff:
  "(\<exists>y. draw_loop limit g = Some y) \<longleftrightarrow> (\<exists>n. \<not> limit \<le> gen_nth n g)"
proof
  assume "\<exists>n. \<not> limit \<le> gen_nth n g"
  then obtain n where "\<not> limit \<le> gen_nth n g" "\<forall>j<n. limit \<le> gen_nth j g"
    using exists_least_iff [of "\<lambda>n. \<not> limit \<le> gen_nth n g"] by auto
  then show "\<exists>y. draw_loop limit g = Some y" using draw_loop_enough by blast
qed (metis draw_loop_Some)

lemma and_ffffffff [simp]: "(x :: uint) AND 0xffffffff = x"
proof -
  have "(0xffffffff :: uint) = - 1"
    by (simp add: word_uint_eq_iff unsigned_minus_1_eq_mask mask_eq_exp_minus_1)
  then show ?thesis by (metis and.right_neutral)
qed

lemma div_eq_interval:
  fixes a b q :: nat
  assumes "0 < b"
  shows "a div b = q \<longleftrightarrow> q * b \<le> a \<and> a < q * b + b"
  using assms less_eq_div_iff_mult_less_eq [of b q a] div_less_iff_less_mult [of b a "Suc q"]
  by (auto simp: add.commute)

text \<open>Words in an interval of naturals are as many as its numbers.\<close>

lemma card_unat_interval:
  assumes "n + k \<le> 2 ^ 32"
  shows "card {x :: uint. n \<le> unat x \<and> unat x < n + k} = k"
proof -
  have "{x :: uint. n \<le> unat x \<and> unat x < n + k} = of_nat ` {n..<n + k}"
  proof (intro set_eqI iffI)
    fix x :: uint
    assume "x \<in> {x. n \<le> unat x \<and> unat x < n + k}"
    then show "x \<in> of_nat ` {n..<n + k}" by (intro image_eqI [of _ _ "unat x"]) auto
  qed (use assms in \<open>auto simp: unat_of_nat\<close>)
  moreover have "inj_on (of_nat :: nat \<Rightarrow> uint) {n..<n + k}"
    using assms by (intro inj_onI) (auto dest!: arg_cong [of _ _ unat] simp: unat_of_nat)
  ultimately show ?thesis by (simp add: card_image)
qed

lemma seed_loop_nth:
  assumes "i + n = length v" and "0 < i" and "\<forall>j<i. v ! j = 69069 ^ j * w"
  shows "\<forall>j<i + n. seed_loop n i v ! j = 69069 ^ j * w"
  using assms
proof (induction n arbitrary: i v)
  case (Suc n)
  from Suc.prems have "v ! (i - 1) = 69069 ^ (i - 1) * w" by simp
  then have "69069 * v ! (i - 1) = 69069 ^ i * w"
    using Suc.prems(2) by (cases i) simp_all
  with Suc.prems show ?case
    by simp (intro Suc.IH [of "Suc i" "v[i := 69069 ^ i * w]", simplified], auto simp: less_Suc_eq nth_list_update)
qed simp

section \<open>Properties\<close>

text \<open>Seeding and drawing follow the twister's recurrence: after sgenrand(seed) the
  vector holds seed times the powers of 69069, and the n-th call of genrand from there
  returns the tempered word 624 + n of the sequence the recurrence defines, with its
  top bit cleared, although the code rebuilds the vector in place 624 words at a time.\<close>

theorem genrand_recurrence:
  assumes "length (mt g) = MT_N"
  shows "(\<forall>k<624. mt (sgenrand seed g) ! k = 69069 ^ k * seed) \<and>
    gen_nth n (sgenrand seed g) = temper (mt_seq (mt (sgenrand seed g)) (624 + n)) AND RAND_MAX \<and>
    gen_nth n (sgenrand seed g) < 2 ^ 31"
proof -
  let ?h = "sgenrand seed g"
  have len: "length (mt ?h) = 624" using assms by (simp add: sgenrand_def MT_N_def)
  have "rng_at (mt ?h) 0 ?h"
    using len by (auto simp: rng_at_def holds_block_def mt_seq.simps sgenrand_def MT_N_def
        intro!: exI [of _ 0])
  from genrand_at [OF gen_after_at [OF this]]
  have "gen_nth n ?h = temper (mt_seq (mt ?h) (624 + n)) AND RAND_MAX" by (simp add: gen_nth_def)
  moreover have "gen_nth n ?h < 2 ^ 31"
    using genrand_le [of "gen_after n ?h"]
    by (simp add: gen_nth_def RAND_MAX_def word_less_nat_alt word_le_nat_alt)
  moreover have "\<forall>k<624. mt ?h ! k = 69069 ^ k * seed"
    using seed_loop_nth [of 1 623 "(mt g)[0 := seed AND 0xffffffff]" seed] assms
    by (simp add: sgenrand_def MT_N_def)
  ultimately show ?thesis by simp
qed

theorem genrand_recurrence_witness:
  "gen_nth 5 (sgenrand 42 rng_init) = temper (mt_seq (mt (sgenrand 42 rng_init)) 629) AND RAND_MAX"
  using genrand_recurrence [of rng_init 42 5] by (simp add: rng_init_def)

text \<open>C30: random_at_most(m), for every m up to RAND_MAX, returns exactly when some later
  output of the generator is below the acceptance limit; what it returns is then one
  such output scaled, it is at most m, and every value k from 0 to m is the
  result for the same number 2^31 div (m + 1) of accepted outputs, so the draw has no
  bias beyond the generator's.\<close>

theorem random_at_most_uniform:
  assumes "m \<le> RAND_MAX" and "k \<le> m"
  shows "((\<exists>r. random_at_most m g = Some r) \<longleftrightarrow>
      (\<exists>n. gen_nth n g < num_rand - num_rand mod (m + 1))) \<and>
    (\<forall>x g'. random_at_most m g \<noteq> Some (x, g') \<or> x \<le> m \<and>
      (\<exists>n. gen_nth n g < num_rand - num_rand mod (m + 1) \<and>
        x = gen_nth n g div (num_rand div (m + 1)))) \<and>
    card {x. x < num_rand - num_rand mod (m + 1) \<and> x div (num_rand div (m + 1)) = k}
      = 2 ^ 31 div (unat m + 1)"
proof -
  let ?b = "num_rand div (m + 1)" and ?l = "num_rand - num_rand mod (m + 1)"
  let ?N = "unat m + 1" and ?B = "2 ^ 31 div (unat m + 1)"
  have N: "unat (m + 1) = ?N" "unat m < 2 ^ 31"
    using assms(1) by (simp_all add: RAND_MAX_def word_le_nat_alt unat_word_ariths)
  have r: "unat num_rand = 2 ^ 31" by (simp add: num_rand_def RAND_MAX_def)
  have b: "unat ?b = ?B" using N r by (simp add: unat_div)
  have "num_rand mod (m + 1) \<le> num_rand"
    using N r by (simp add: word_le_nat_alt unat_mod_distrib)
  then have "unat ?l = 2 ^ 31 - 2 ^ 31 mod ?N"
    using N r by (simp add: unat_sub unat_mod_distrib)
  then have l: "unat ?l = ?B * ?N" by (simp add: minus_mod_eq_div_mult)
  have B: "0 < ?B" using N(2) by (simp add: div_greater_zero_iff)
  have ud: "unat (x div ?b) = unat x div ?B" for x
    using unat_div [of x ?b] unfolding b .
  have div: "x div ?b = j \<longleftrightarrow> unat j * ?B \<le> unat x \<and> unat x < unat j * ?B + ?B" for x j :: uint
    unfolding word_unat_eq_iff ud by (rule div_eq_interval [OF B])
  have kl: "unat j * ?B + ?B \<le> unat ?l" if "j \<le> m" for j
    unfolding l using that mult_le_mono1 [of "unat j + 1" ?N ?B]
    by (simp add: word_le_nat_alt ac_simps)
  have "{x. x < ?l \<and> x div ?b = k} = {x. unat k * ?B \<le> unat x \<and> unat x < unat k * ?B + ?B}"
    unfolding div using kl [OF assms(2)] by (auto simp: word_less_nat_alt)
  then have card: "card {x. x < ?l \<and> x div ?b = k} = ?B"
    using kl [OF assms(2)] unsigned_less [of ?l, where 'a = nat]
    by (simp add: card_unat_interval)
  have le: "x div ?b \<le> m" if "x < ?l" for x
  proof -
    have "unat x < ?N * ?B" using that unfolding word_less_nat_alt l by (simp add: ac_simps)
    then have "unat x div ?B < ?N" using B by (simp add: div_less_iff_less_mult)
    then show ?thesis unfolding word_le_nat_alt ud by simp
  qed
  have some: "(\<exists>r. random_at_most m g = Some r) \<longleftrightarrow> (\<exists>n. gen_nth n g < ?l)"
    using draw_loop_Some_iff [of ?l g] by (auto simp: random_at_most_def Let_def not_le split_beta)
  have "x \<le> m \<and> (\<exists>n. gen_nth n g < ?l \<and> x = gen_nth n g div ?b)"
    if "random_at_most m g = Some (x, g')" for x g'
    using that le by (auto simp: random_at_most_def Let_def not_le dest!: draw_loop_Some)
  with some card show ?thesis by blast
qed

theorem random_at_most_uniform_witness:
  "card {x. x < num_rand - num_rand mod 982343222 \<and> x div (num_rand div 982343222) = 7} = 2"
  using random_at_most_uniform [of 982343221 7 rng_init] by (simp add: RAND_MAX_def)

end
