(* ===== verification/Allocator.thy ===== *)
theory Allocator
  imports XV6_Prelude
begin

text \<open>
  The contract of a resource allocator, which the page allocator (\<^verbatim>\<open>src/kalloc.c\<close>) provides:
  \<open>avail\<close> is the set of free resources,
  \<open>alloc\<close> takes one out of it, \<open>free\<close> puts one back, and what the owners of
  allocated resources do with their contents (\<open>touch\<close>) does not disturb it. The
  client's view, proved once from the contract, is that whatever owners do as long as they free
  only what they own, a resource never has two owners and none is lost.
\<close>

inductive alloc_run ::
  "('s, 'r option) kop \<Rightarrow> ('r \<Rightarrow> ('s, unit) kop) \<Rightarrow> ('r set \<Rightarrow> 's \<Rightarrow> 's \<Rightarrow> bool) \<Rightarrow>
    's \<Rightarrow> 's \<Rightarrow> 'r set \<Rightarrow> bool"
  for alloc free touch s0 where
  start: "alloc_run alloc free touch s0 s0 {}"
| take_one: "alloc_run alloc free touch s0 s own \<Longrightarrow> alloc s = Done (Some r) t \<Longrightarrow>
    alloc_run alloc free touch s0 t (insert r own)"
| fail: "alloc_run alloc free touch s0 s own \<Longrightarrow> alloc s = Done None t \<Longrightarrow>
    alloc_run alloc free touch s0 t own"
| give_back: "alloc_run alloc free touch s0 s own \<Longrightarrow> r \<in> own \<Longrightarrow> free r s = Done () t \<Longrightarrow>
    alloc_run alloc free touch s0 t (own - {r})"
| use_own: "alloc_run alloc free touch s0 s own \<Longrightarrow> touch own s t \<Longrightarrow>
    alloc_run alloc free touch s0 t own"

locale allocator =
  fixes alloc :: "('s, 'r option) kop"
    and free :: "'r \<Rightarrow> ('s, unit) kop"
    and touch :: "'r set \<Rightarrow> 's \<Rightarrow> 's \<Rightarrow> bool"
    and ok :: "'s \<Rightarrow> bool"
    and avail :: "'s \<Rightarrow> 'r set"
  assumes alloc_Some: "ok s \<Longrightarrow> alloc s = Done (Some r) t \<Longrightarrow>
      ok t \<and> r \<in> avail s \<and> avail t = avail s - {r}"
    and alloc_None: "ok s \<Longrightarrow> alloc s = Done None t \<Longrightarrow> ok t \<and> avail t = avail s \<and> avail s = {}"
    and free_ok: "ok s \<Longrightarrow> r \<notin> avail s \<Longrightarrow> free r s = Done () t \<Longrightarrow>
      ok t \<and> avail t = insert r (avail s)"
    and touch_ok: "ok s \<Longrightarrow> own \<inter> avail s = {} \<Longrightarrow> touch own s t \<Longrightarrow> ok t \<and> avail t = avail s"
begin

lemma run_ok:
  assumes "alloc_run alloc free touch s0 s own" and "ok s0"
  shows "ok s \<and> own \<inter> avail s = {} \<and> own \<union> avail s = avail s0"
  using assms
proof (induction rule: alloc_run.induct)
  case (take_one s own r t)
  then show ?case using alloc_Some [of s r t] by blast
next
  case (fail s own t)
  then show ?case using alloc_None [of s t] by simp
next
  case (give_back s own r t)
  then have s: "ok s" "own \<inter> avail s = {}" "own \<union> avail s = avail s0" by simp_all
  with give_back.hyps have "r \<notin> avail s" by blast
  with s(1) give_back.hyps have t: "ok t" "avail t = insert r (avail s)"
    using free_ok by blast+
  from s(2) have "(own - {r}) \<inter> insert r (avail s) = {}" by blast
  moreover have "(own - {r}) \<union> insert r (avail s) = avail s0"
    using s(3) give_back.hyps(2) by blast
  ultimately show ?case using t by simp
next
  case (use_own s own t)
  then show ?case using touch_ok [of s own t] by simp
qed simp

lemma no_double_alloc:
  assumes "alloc_run alloc free touch s0 s own" and "ok s0" and "alloc s = Done (Some r) t"
  shows "r \<notin> own \<and> r \<in> avail s0"
  using run_ok [OF assms(1,2)] alloc_Some [of s r t] assms(3) by blast

lemma exhausted_only_if_all_owned:
  assumes "alloc_run alloc free touch s0 s own" and "ok s0" and "alloc s = Done None t"
  shows "own = avail s0"
  using run_ok [OF assms(1,2)] alloc_None [of s t] assms(3) by blast

end

end
