(* ===== verification/Kalloc.thy ===== *)
theory Kalloc
  imports Ptable Cstring Allocator
begin

text \<open>
  The physical page allocator (\<^verbatim>\<open>src/kalloc.c\<close>). Physical memory is the byte-addressed
  memory of the theory Cstring at its kernel addresses; the free list is threaded through
  the free pages themselves, as in the code (\<open>struct run\<close>).
\<close>

section \<open>Definitions\<close>

definition PGSIZE :: uint where "PGSIZE = 4096"
definition PHYSTOP :: uint where "PHYSTOP = 0xE000000"

definition PGROUNDUP :: "uint \<Rightarrow> uint" where
  "PGROUNDUP sz = (sz + PGSIZE - 1) AND NOT (PGSIZE - 1)"

definition PGROUNDDOWN :: "uint \<Rightarrow> uint" where
  "PGROUNDDOWN a = a AND NOT (PGSIZE - 1)"

text \<open>
  \<open>kernel_end\<close> is the linker's symbol \<open>end\<close>, the first address after the kernel; nothing
  assigns it.
\<close>

record kmem_state = kstate +
  pmem :: mem
  use_lock :: bool
  freelist :: uint
  kernel_end :: uint

definition kmem_lock :: "('z kmem_state_scheme, unit) kop" where
  "kmem_lock s = (if use_lock s then lk_acquire LkKmem s else Done () s)"

definition kmem_unlock :: "('z kmem_state_scheme, unit) kop" where
  "kmem_unlock s = (if use_lock s then lk_release LkKmem s else Done () s)"

definition kfree_bad :: "uint \<Rightarrow> 'z kmem_state_scheme \<Rightarrow> bool" where
  "kfree_bad v s \<longleftrightarrow> v mod PGSIZE \<noteq> 0 \<or> v < kernel_end s \<or> PHYSTOP \<le> v2p v"

definition kfree :: "uint \<Rightarrow> ('z kmem_state_scheme, unit) kop" where
  "kfree v = kseq (kpanic_if (kfree_bad v) ''kfree'')
     (kseq (kmod (\<lambda>s. s\<lparr>pmem := memset (pmem s) v 1 PGSIZE\<rparr>))
     (kseq kmem_lock
     (kseq (kmod (\<lambda>s. s\<lparr>pmem := store32 (pmem s) v (freelist s)\<rparr>))
     (kseq (kmod (\<lambda>s. s\<lparr>freelist := v\<rparr>))
     kmem_unlock))))"

definition kalloc :: "('z kmem_state_scheme, uint) kop" where
  "kalloc = kseq kmem_lock
     (kbind (kget freelist) (\<lambda>r.
     kseq (if r \<noteq> 0 then kmod (\<lambda>s. s\<lparr>freelist := load32 (pmem s) r\<rparr>) else kret ())
     (kseq kmem_unlock (kret r))))"

text \<open>Two aligned pages that share a byte are the same page.\<close>

lemma page_unat:
  fixes v x :: uint
  assumes "v mod 4096 = 0" and "x - v < 4096"
  shows "unat x div 4096 = unat v div 4096"
proof -
  have d: "unat (x - v) < 4096" using assms(2) by (simp add: word_less_nat_alt)
  have "unat v mod 4096 = 0" using assms(1) by (simp add: word_unat_eq_iff unat_mod_distrib)
  then obtain k where k: "unat v = 4096 * k" by (auto dest: mod_0_imp_dvd)
  have "4096 * k < 4096 * 1048576" using unsigned_less [of v, where 'a = nat] k by simp
  then have "k < 1048576" by simp
  with d k have "unat v + unat (x - v) < 2 ^ 32" by simp
  then have "unat (v + (x - v)) = unat v + unat (x - v)" by (rule unat_add_acc)
  then have "unat x = 4096 * k + unat (x - v)" using k by simp
  with k d show ?thesis by simp
qed

lemma page_disjoint:
  fixes v w x :: uint
  assumes "v mod 4096 = 0" and "w mod 4096 = 0" and "x - v < 4096" and "x - w < 4096"
  shows "v = w"
proof -
  have "unat v div 4096 = unat w div 4096" using page_unat [OF assms(1,3)] page_unat [OF assms(2,4)] by simp
  moreover have "unat v mod 4096 = 0" "unat w mod 4096 = 0"
    using assms(1,2) by (simp_all add: word_unat_eq_iff unat_mod_distrib)
  ultimately have "unat v = unat w"
    using div_mult_mod_eq [of "unat v" 4096] div_mult_mod_eq [of "unat w" 4096] by simp
  then show ?thesis by (simp add: word_unat_eq_iff)
qed

lemma kfree_page: "kfree v s = Done x t \<Longrightarrow> \<not> kfree_bad v s"
  by (auto simp: kfree_def kDone_iffs)

lemma kfree_bad_step:
  assumes "\<not> kfree_bad v s"
  shows "unat (v + PGSIZE) = unat v + 4096"
proof -
  have "unat (v - KERNBASE) < 0xE000000"
    using assms by (simp add: kfree_bad_def v2p_def PHYSTOP_def word_le_nat_alt not_le)
  then have "unat ((v - KERNBASE) + KERNBASE) < 0x8E000000"
    by (subst unat_add_acc) (simp_all add: KERNBASE_def)
  then have "unat v < 0x8E000000" by simp
  then show ?thesis by (subst unat_add_acc) (simp_all add: PGSIZE_def)
qed

function freerange_loop :: "uint \<Rightarrow> uint \<Rightarrow> ('z kmem_state_scheme, unit) kop" where
  "freerange_loop p vend s =
     (if p + PGSIZE \<le> vend then kseq (kfree p) (freerange_loop (p + PGSIZE) vend) s
      else Done () s)"
  by pat_completeness auto

termination
proof (relation "measure (\<lambda>(p, vend, s). 2 ^ 32 - unat p)")
  fix p vend :: uint and s t :: "'z kmem_state_scheme" and x
  assume "kfree p s = Done x t"
  then have "unat (p + PGSIZE) = unat p + 4096" by (intro kfree_bad_step) (rule kfree_page)
  then show "((p + PGSIZE, vend, t), p, vend, s) \<in> measure (\<lambda>(p, vend, s). 2 ^ 32 - unat p)"
    using unsigned_less [of "p + PGSIZE", where 'a = nat] by simp
qed simp

declare freerange_loop.simps [simp del]

definition freerange :: "uint \<Rightarrow> uint \<Rightarrow> ('z kmem_state_scheme, unit) kop" where
  "freerange vstart vend = freerange_loop (PGROUNDUP vstart) vend"

definition kinit1 :: "uint \<Rightarrow> uint \<Rightarrow> ('z kmem_state_scheme, unit) kop" where
  "kinit1 vstart vend = kseq (kmod (\<lambda>s. s\<lparr>use_lock := False\<rparr>)) (freerange vstart vend)"

definition kinit2 :: "uint \<Rightarrow> uint \<Rightarrow> ('z kmem_state_scheme, unit) kop" where
  "kinit2 vstart vend = kseq (freerange vstart vend) (kmod (\<lambda>s. s\<lparr>use_lock := True\<rparr>))"

section \<open>The free list as a set of pages\<close>

text \<open>\<open>chain m p fl\<close>: following \<open>next\<close> from \<open>p\<close> visits exactly the pages of \<open>fl\<close>.\<close>

fun chain :: "mem \<Rightarrow> uint \<Rightarrow> uint list \<Rightarrow> bool" where
  "chain m p [] \<longleftrightarrow> p = 0"
| "chain m p (a # fl) \<longleftrightarrow> p = a \<and> a \<noteq> 0 \<and> chain m (load32 m a) fl"

definition in_page :: "uint \<Rightarrow> uint \<Rightarrow> bool" where
  "in_page v x \<longleftrightarrow> x - v < PGSIZE"

definition free_pages :: "'z kmem_state_scheme \<Rightarrow> uint set" where
  "free_pages s = {a. \<exists>fl. chain (pmem s) (freelist s) fl \<and> a \<in> set fl}"

definition kmem_ok :: "'z kmem_state_scheme \<Rightarrow> bool" where
  "kmem_ok s \<longleftrightarrow> (\<exists>fl. chain (pmem s) (freelist s) fl \<and> distinct fl \<and>
     (\<forall>a \<in> set fl. \<not> kfree_bad a s))"

definition kalloc_opt :: "('z kmem_state_scheme, uint option) kop" where
  "kalloc_opt = kbind kalloc (\<lambda>r. kret (if r = 0 then None else Some r))"

text \<open>What owners of pages may do to memory: write to their own pages.\<close>

definition page_writes :: "uint set \<Rightarrow> 'z kmem_state_scheme \<Rightarrow> 'z kmem_state_scheme \<Rightarrow> bool" where
  "page_writes own s t \<longleftrightarrow> (\<exists>m. t = s\<lparr>pmem := m\<rparr> \<and>
     (\<forall>x. (\<forall>v \<in> own. \<not> in_page v x) \<longrightarrow> m x = pmem s x)) \<and>
     (\<forall>v \<in> own. v mod PGSIZE = 0)"

lemma chain_unique: "chain m p fl \<Longrightarrow> chain m p fl' \<Longrightarrow> fl = fl'"
proof (induction fl arbitrary: p fl')
  case Nil
  then show ?case by (cases fl') auto
next
  case (Cons a fl)
  then show ?case by (cases fl') auto
qed

lemma free_pages_eq: "chain (pmem s) (freelist s) fl \<Longrightarrow> free_pages s = set fl"
  by (auto simp: free_pages_def dest: chain_unique)

text \<open>The chain depends only on the pages it visits.\<close>

lemma chain_frame:
  assumes "chain m p fl" and "\<And>a x. a \<in> set fl \<Longrightarrow> in_page a x \<Longrightarrow> m' x = m x"
  shows "chain m' p fl"
  using assms
proof (induction fl arbitrary: p)
  case (Cons a fl)
  have "m' (a + d) = m (a + d)" if "d < PGSIZE" for d
    using that by (intro Cons.prems(2) [of a]) (simp_all add: in_page_def)
  from this [of 0] this [of 1] this [of 2] this [of 3] have "load32 m' a = load32 m a"
    by (intro load32_cong) (simp_all add: PGSIZE_def)
  moreover have "chain m' (load32 m a) fl"
    by (rule Cons.IH) (use Cons.prems in auto)
  ultimately show ?case using Cons.prems(1) by simp
qed simp

lemma in_page_disjoint:
  "v mod PGSIZE = 0 \<Longrightarrow> w mod PGSIZE = 0 \<Longrightarrow> v \<noteq> w \<Longrightarrow> in_page v x \<Longrightarrow> \<not> in_page w x"
  using page_disjoint [of v w x] by (auto simp: in_page_def PGSIZE_def)

lemma kfree_bad_0 [simp]: "kfree_bad 0 s"
  by (simp add: kfree_bad_def v2p_def PHYSTOP_def KERNBASE_def word_le_nat_alt)

lemma kfree_bad_cong [simp]: "kfree_bad v (s\<lparr>pmem := m\<rparr>) = kfree_bad v s"
  "kfree_bad v (s\<lparr>freelist := f\<rparr>) = kfree_bad v s"
  "kfree_bad v (s\<lparr>held := h\<rparr>) = kfree_bad v s"
  by (simp_all add: kfree_bad_def)

section \<open>Execution\<close>

abbreviation kmem_free :: "'z kmem_state_scheme \<Rightarrow> bool" where
  "kmem_free s \<equiv> use_lock s \<longrightarrow> LkKmem \<notin> held s"

lemma kfree_exec:
  assumes "kmem_free s" and "\<not> kfree_bad v s"
  shows "kfree v s = Done () (s\<lparr>pmem := store32 (memset (pmem s) v 1 PGSIZE) v (freelist s), freelist := v\<rparr>)"
  using assms by (cases "use_lock s") (auto simp: kfree_def kmem_lock_def kmem_unlock_def)

lemma kalloc_exec:
  assumes "kmem_free s"
  shows "kalloc s = Done (freelist s)
    (if freelist s = 0 then s else s\<lparr>freelist := load32 (pmem s) (freelist s)\<rparr>)"
  using assms by (cases "use_lock s") (auto simp: kalloc_def kmem_lock_def kmem_unlock_def)

lemma kalloc_Done: "kalloc s = Done r t \<Longrightarrow> kmem_free s"
  by (cases "use_lock s \<and> LkKmem \<in> held s") (auto simp: kalloc_def kmem_lock_def)

lemma kfree_Done: "kfree v s = Done r t \<Longrightarrow> kmem_free s \<and> \<not> kfree_bad v s"
  by (cases "kfree_bad v s"; cases "use_lock s \<and> LkKmem \<in> held s")
    (auto simp: kfree_def kmem_lock_def)

lemma kalloc_ok:
  assumes "kmem_ok s" and "kalloc s = Done r t"
  shows "kmem_ok t \<and> (r = 0 \<longleftrightarrow> free_pages s = {}) \<and> free_pages t = free_pages s - {r} \<and>
    (r \<noteq> 0 \<longrightarrow> r \<in> free_pages s)"
proof -
  obtain fl where fl: "chain (pmem s) (freelist s) fl" "distinct fl" "\<forall>a \<in> set fl. \<not> kfree_bad a s"
    using assms(1) by (auto simp: kmem_ok_def)
  note ex = kalloc_exec [OF kalloc_Done [OF assms(2)]]
  show ?thesis
  proof (cases fl)
    case Nil
    with fl ex assms have "r = 0" "t = s" by auto
    with Nil assms(1) show ?thesis using free_pages_eq [OF fl(1)] by simp
  next
    case (Cons a fl')
    with fl ex assms have t: "r = a" "a \<noteq> 0" "t = s\<lparr>freelist := load32 (pmem s) a\<rparr>" by auto
    have "free_pages t = set fl'" using t fl Cons by (intro free_pages_eq) simp
    moreover have "kmem_ok t" using t fl Cons by (auto simp: kmem_ok_def)
    moreover have "free_pages s = insert a (set fl')" using free_pages_eq [OF fl(1)] Cons by simp
    ultimately show ?thesis using t fl Cons by auto
  qed
qed

lemma kfree_mem:
  "\<not> in_page v x \<Longrightarrow> store32 (memset m v 1 PGSIZE) v w x = m x"
  by (subst store32_other) (auto simp: memset_apply in_page_def PGSIZE_def word_less_nat_alt)

lemma kfree_ok:
  assumes "kmem_ok s" and "kfree v s = Done r t" and "v \<notin> free_pages s"
  shows "kmem_ok t \<and> free_pages t = insert v (free_pages s)"
proof -
  obtain fl where fl: "chain (pmem s) (freelist s) fl" "distinct fl" "\<forall>a \<in> set fl. \<not> kfree_bad a s"
    using assms(1) by (auto simp: kmem_ok_def)
  have v: "kmem_free s" "\<not> kfree_bad v s" using kfree_Done [OF assms(2)] by auto
  have t: "t = s\<lparr>pmem := store32 (memset (pmem s) v 1 PGSIZE) v (freelist s), freelist := v\<rparr>"
    using kfree_exec [OF v] assms(2) by simp
  have nv: "v \<notin> set fl" using assms(3) free_pages_eq [OF fl(1)] by simp
  have "chain (pmem t) (freelist s) fl"
  proof (rule chain_frame [OF fl(1)])
    fix a x assume a: "a \<in> set fl" "in_page a x"
    with nv fl(3) v have "\<not> in_page v x"
      by (intro in_page_disjoint [of a]) (auto simp: kfree_bad_def)
    then show "pmem t x = pmem s x" by (simp add: t kfree_mem)
  qed
  then have c: "chain (pmem t) (freelist t) (v # fl)" using v by (auto simp: t)
  moreover have "\<forall>a \<in> set (v # fl). \<not> kfree_bad a t" using fl(3) v by (auto simp: t)
  moreover have "distinct (v # fl)" using nv fl(2) by simp
  ultimately have "kmem_ok t" unfolding kmem_ok_def by blast
  with free_pages_eq [OF c] free_pages_eq [OF fl(1)] show ?thesis by simp
qed

lemma page_writes_ok:
  assumes "kmem_ok s" and "own \<inter> free_pages s = {}" and "page_writes own s t"
  shows "kmem_ok t \<and> free_pages t = free_pages s"
proof -
  obtain fl where fl: "chain (pmem s) (freelist s) fl" "distinct fl" "\<forall>a \<in> set fl. \<not> kfree_bad a s"
    using assms(1) by (auto simp: kmem_ok_def)
  obtain m where m: "t = s\<lparr>pmem := m\<rparr>" "\<And>x. (\<And>v. v \<in> own \<Longrightarrow> \<not> in_page v x) \<Longrightarrow> m x = pmem s x"
    "\<And>v. v \<in> own \<Longrightarrow> v mod PGSIZE = 0"
    using assms(3) by (auto simp: page_writes_def)
  have "chain m (freelist s) fl"
  proof (rule chain_frame [OF fl(1)])
    fix a x assume a: "a \<in> set fl" "in_page a x"
    show "m x = pmem s x"
    proof (rule m(2))
      fix v assume "v \<in> own"
      moreover from this have "v \<noteq> a" using a assms(2) free_pages_eq [OF fl(1)] by auto
      ultimately show "\<not> in_page v x"
        using a fl(3) m(3) by (intro in_page_disjoint [of a]) (auto simp: kfree_bad_def)
    qed
  qed
  then show ?thesis using fl m(1) by (auto simp: kmem_ok_def free_pages_eq)
qed

interpretation pages: allocator kalloc_opt kfree page_writes kmem_ok free_pages
proof
  fix s t :: "'z kmem_state_scheme" and r
  assume "kmem_ok s" "kalloc_opt s = Done (Some r) t"
  then show "kmem_ok t \<and> r \<in> free_pages s \<and> free_pages t = free_pages s - {r}"
    using kalloc_ok [of s] by (auto simp: kalloc_opt_def kDone_iffs split: if_splits)
next
  fix s t :: "'z kmem_state_scheme"
  assume "kmem_ok s" "kalloc_opt s = Done None t"
  then show "kmem_ok t \<and> free_pages t = free_pages s \<and> free_pages s = {}"
    using kalloc_ok [of s 0 t] by (auto simp: kalloc_opt_def kDone_iffs split: if_splits)
qed (rule kfree_ok page_writes_ok; assumption)+

section \<open>Filling the free list at boot\<close>

definition page_aligned :: "uint \<Rightarrow> bool" where
  "page_aligned v \<longleftrightarrow> unat v mod 4096 = 0"

definition whole_pages :: "uint \<Rightarrow> uint \<Rightarrow> uint set" where
  "whole_pages p vend = {v. page_aligned v \<and> p \<le> v \<and> unat v + 4096 \<le> unat vend}"

lemma mod_PGSIZE: "v mod PGSIZE = 0 \<longleftrightarrow> page_aligned v" for v :: uint
  by (simp add: page_aligned_def word_unat_eq_iff unat_mod_distrib PGSIZE_def)

lemma page_aligned_gap:
  assumes "page_aligned v" and "page_aligned w" and "unat v < unat w"
  shows "unat v + 4096 \<le> unat w"
proof -
  obtain i j where "unat v = 4096 * i" "unat w = 4096 * j"
    using assms(1,2) unfolding page_aligned_def mod_eq_0_iff_dvd by (elim dvdE)
  with assms(3) show ?thesis by simp
qed

lemma whole_pages_step:
  assumes "page_aligned p" and "unat p + 4096 \<le> unat vend"
  shows "whole_pages p vend = insert p (whole_pages (p + PGSIZE) vend)"
proof -
  have u: "unat (p + PGSIZE) = unat p + 4096"
    using assms(2) unsigned_less [of vend, where 'a = nat]
    by (subst unat_add_acc) (simp_all add: PGSIZE_def)
  have "unat p + 4096 \<le> unat v" if "page_aligned v" "unat p \<le> unat v" "v \<noteq> p" for v
    using page_aligned_gap [OF assms(1) that(1)] that by (auto simp: word_unat_eq_iff)
  with assms u show ?thesis
    by (auto simp: whole_pages_def word_le_nat_alt)
qed

lemma unat_v2p:
  assumes "KERNBASE \<le> v"
  shows "unat (v2p v) = unat v - 0x80000000"
  using assms by (simp add: v2p_def unat_sub KERNBASE_def)

lemma freerange_loop_ok:
  assumes "kmem_ok s" and "kmem_free s" and "page_aligned p" and "kernel_end s \<le> p"
    and "KERNBASE \<le> p" and "unat vend \<le> 0x8E000000"
    and "unat p \<le> 0x8E001000" and "free_pages s \<inter> whole_pages p vend = {}"
  shows "\<exists>t. freerange_loop p vend s = Done () t \<and> kmem_ok t \<and> held t = held s \<and>
    use_lock t = use_lock s \<and> kernel_end t = kernel_end s \<and>
    free_pages t = free_pages s \<union> whole_pages p vend"
  using assms
proof (induction p vend s rule: freerange_loop.induct)
  case (1 p vend s)
  have u: "unat (p + PGSIZE) = unat p + 4096"
    using 1(8) by (subst unat_add_acc) (simp_all add: PGSIZE_def)
  show ?case
  proof (cases "p + PGSIZE \<le> vend")
    case False
    then have "whole_pages p vend = {}"
      using u by (auto simp: whole_pages_def word_le_nat_alt)
    with 1 False show ?thesis by (simp add: freerange_loop.simps)
  next
    case True
    with u have st: "whole_pages p vend = insert p (whole_pages (p + PGSIZE) vend)"
      using 1 by (intro whole_pages_step) (simp_all add: word_le_nat_alt)
    have good: "\<not> kfree_bad p s"
      using 1(4-7) u True
      by (simp add: kfree_bad_def mod_PGSIZE unat_v2p PHYSTOP_def word_le_nat_alt not_le not_less)
    define t where "t = s\<lparr>pmem := store32 (memset (pmem s) p 1 PGSIZE) p (freelist s), freelist := p\<rparr>"
    have k: "kfree p s = Done () t" using kfree_exec [OF 1(3) good] by (simp add: t_def)
    have t: "kmem_ok t" "free_pages t = insert p (free_pages s)"
      using kfree_ok [OF 1(2) k] 1(9) st by auto
    have fresh: "p \<notin> whole_pages (p + PGSIZE) vend" using u by (auto simp: whole_pages_def word_le_nat_alt)
    have "\<exists>t'. freerange_loop (p + PGSIZE) vend t = Done () t' \<and> kmem_ok t' \<and> held t' = held t \<and>
        use_lock t' = use_lock t \<and> kernel_end t' = kernel_end t \<and>
        free_pages t' = free_pages t \<union> whole_pages (p + PGSIZE) vend"
    proof (rule 1(1) [OF True k t(1)])
      show "page_aligned (p + PGSIZE)" using 1(4) u by (simp add: page_aligned_def)
      show "free_pages t \<inter> whole_pages (p + PGSIZE) vend = {}" using t(2) fresh st 1(9) by auto
    qed (use 1 u True in \<open>simp_all add: t_def word_le_nat_alt\<close>)
    with True k t(2) st show ?thesis by (subst freerange_loop.simps) (auto simp: t_def)
  qed
qed


lemma unat_and_not_mask:
  fixes a :: uint
  shows "unat (a AND NOT (PGSIZE - 1)) = unat a div 4096 * 4096"
proof -
  have m: "PGSIZE - 1 = mask 12" by (simp add: PGSIZE_def mask_eq_exp_minus_1)
  have "push_bit 12 (drop_bit 12 a) = a AND NOT (mask 12)"
    by (rule bit_word_eqI) (auto simp: bit_simps)
  then have "a = (a AND NOT (mask 12)) + take_bit 12 a" using bits_ident [of 12 a] by simp
  then have "a AND NOT (mask 12) = a - a mod 4096" by (simp add: take_bit_eq_mod algebra_simps)
  moreover have "unat (a - a mod 4096) = unat a - unat a mod 4096"
    by (subst unat_sub) (simp_all add: word_le_nat_alt unat_mod_distrib)
  ultimately show ?thesis by (simp add: m minus_mod_eq_div_mult)
qed

lemma PGROUNDUP_facts:
  assumes "unat v \<le> 2 ^ 32 - 4096"
  shows "page_aligned (PGROUNDUP v) \<and> v \<le> PGROUNDUP v \<and> unat (PGROUNDUP v) < unat v + 4096"
proof -
  have e: "v + PGSIZE - 1 = v + 4095" by (simp add: PGSIZE_def)
  have u: "unat (v + 4095) = unat v + 4095" using assms by (subst unat_add_acc) simp_all
  have r: "unat (PGROUNDUP v) = (unat v + 4095) div 4096 * 4096"
    unfolding PGROUNDUP_def unat_and_not_mask e u ..
  have "(unat v + 4095) div 4096 * 4096 + (unat v + 4095) mod 4096 = unat v + 4095"
    by (rule div_mult_mod_eq)
  moreover have "(unat v + 4095) mod 4096 < 4096" by simp
  ultimately have "unat v \<le> (unat v + 4095) div 4096 * 4096"
    "(unat v + 4095) div 4096 * 4096 < unat v + 4096" by linarith+
  with r show ?thesis by (simp add: page_aligned_def word_le_nat_alt)
qed

text \<open>A kernel state with an empty free list, for concrete instances.\<close>

definition bare_kstate :: kmem_state where
  "bare_kstate = \<lparr>held = {}, ptable = replicate NPROC zero_proc, nextpid = 1, initproc = None,
     curproc = None, ticks = 0, kpgdir = 0, cr3 = 0, ts_esp0 = 0, pmem = (\<lambda>_. 0),
     use_lock = False, freelist = 0, kernel_end = 0x80110000\<rparr>"

lemma bare_kstate_ok: "kmem_ok bare_kstate" "free_pages bare_kstate = {}"
proof -
  have c: "chain (pmem bare_kstate) (freelist bare_kstate) []" by (simp add: bare_kstate_def)
  then show "kmem_ok bare_kstate" unfolding kmem_ok_def by (intro exI [of _ "[]"]) simp
  from free_pages_eq [OF c] show "free_pages bare_kstate = {}" by simp
qed

section \<open>Properties\<close>

text \<open>C9: However kernel code allocates, frees and writes pages, as long as it frees only
  pages it got and writes only to pages it holds, kalloc never hands out a page that is
  still in use, hands out only pages that were free at the start, and reports
  exhaustion only when every one of those is in use.\<close>

theorem kalloc_no_double_alloc:
  assumes "kmem_ok s0" and "alloc_run kalloc_opt kfree page_writes s0 s own"
  shows "case kalloc s of
      Done r t \<Rightarrow> (if r = 0 then own = free_pages s0 else r \<notin> own \<and> r \<in> free_pages s0)
    | _ \<Rightarrow> True"
proof (cases "kalloc s")
  case (Done r t)
  then have k: "kalloc_opt s = Done (if r = 0 then None else Some r) t"
    by (simp add: kalloc_opt_def)
  show ?thesis
  proof (cases "r = 0")
    case True
    with Done k show ?thesis using pages.exhausted_only_if_all_owned [OF assms(2,1)] by simp
  next
    case False
    with Done k show ?thesis using pages.no_double_alloc [OF assms(2,1)] by simp
  qed
qed simp_all

theorem kalloc_no_double_alloc_witness:
  "case kalloc bare_kstate of Done r t \<Rightarrow> r = 0 | _ \<Rightarrow> False"
  using kalloc_no_double_alloc [OF bare_kstate_ok(1) alloc_run.start]
  by (auto simp: kalloc_exec bare_kstate_def)

text \<open>kinit1 and kinit2 put every whole page of their range on the free list, each
  once, and no other: for a range in the kernel's map of physical memory that starts at or
  after the kernel's end and contains no free page yet, freerange returns with exactly
  the page-aligned pages that fit in the range added to the free list.\<close>

theorem freerange_correct:
  assumes "kmem_ok s" and "kmem_free s" and "KERNBASE \<le> kernel_end s" and "kernel_end s \<le> vstart"
    and "unat vend \<le> 0x8E000000" and "unat vstart \<le> unat vend"
    and "free_pages s \<inter> whole_pages vstart vend = {}"
  shows "\<exists>t. freerange vstart vend s = Done () t \<and> kmem_ok t \<and> held t = held s \<and>
    free_pages t = free_pages s \<union> whole_pages vstart vend"
proof -
  let ?p = "PGROUNDUP vstart"
  have p: "page_aligned ?p" "vstart \<le> ?p" "unat ?p < unat vstart + 4096"
    using PGROUNDUP_facts [of vstart] assms(5,6) by auto
  have "whole_pages vstart vend = whole_pages ?p vend"
    using p page_aligned_gap [OF _ p(1)] by (force simp: whole_pages_def word_le_nat_alt)
  moreover have "\<exists>t. freerange_loop ?p vend s = Done () t \<and> kmem_ok t \<and> held t = held s \<and>
      use_lock t = use_lock s \<and> kernel_end t = kernel_end s \<and>
      free_pages t = free_pages s \<union> whole_pages ?p vend"
    by (rule freerange_loop_ok)
      (use assms p calculation in \<open>auto simp: word_le_nat_alt\<close>)
  ultimately show ?thesis by (auto simp: freerange_def)
qed

theorem freerange_correct_witness:
  "\<exists>t. freerange 0x80110800 0x80114000 bare_kstate = Done () t \<and>
     free_pages t = whole_pages 0x80110800 0x80114000"
  using freerange_correct [of bare_kstate "0x80110800" "0x80114000"] bare_kstate_ok
  by (auto simp: bare_kstate_def KERNBASE_def)

end
