(* ===== verification/Disk.thy ===== *)
theory Disk
  imports Kalloc
begin

text \<open>
  The disk: buffers (\<^verbatim>\<open>src/buf.h\<close>), the IDE driver (\<^verbatim>\<open>src/ide.c\<close>) with its request queue and
  interrupt handler, and the memory disk that can replace it (\<^verbatim>\<open>src/memide.c\<close>).

  \<open>disk\<close> is what the drives hold, by drive and block number, and \<open>dwrites\<close> the sequence of
  block writes the drives have performed: a crash leaves the disk as some prefix of
  that sequence made it.
\<close>

section \<open>State\<close>

definition BSIZE :: nat where "BSIZE = 512"
definition FSSIZE :: uint where "FSSIZE = 1000"
definition NBUF :: nat where "NBUF = 30"

type_synonym block = "byte list"
type_synonym store = "uint \<Rightarrow> uint \<Rightarrow> block"   \<comment> \<open>drive, block number\<close>

text \<open>\<open>struct buf\<close>, its flags \<open>B_BUSY\<close>, \<open>B_VALID\<close>, \<open>B_DIRTY\<close> as booleans.\<close>

record buf =
  b_busy :: bool
  b_valid :: bool
  b_dirty :: bool
  b_dev :: uint
  b_blockno :: uint
  b_data :: block

text \<open>
  \<open>lru\<close> is the list that \<open>head.next\<close> starts, most recently used first; \<open>idequeue\<close> the list
  linked by \<open>qnext\<close>. Buffers are named by their index in \<open>bcache.buf\<close>.
\<close>

record disk_state = kmem_state +
  bufs :: "buf list"
  lru :: "nat list"
  idequeue :: "nat list"
  havedisk1 :: bool
  disk :: store
  dwrites :: "(uint \<times> uint \<times> block) list"

definition upd_buf :: "nat \<Rightarrow> (buf \<Rightarrow> buf) \<Rightarrow> 'z disk_state_scheme \<Rightarrow> 'z disk_state_scheme" where
  "upd_buf i f s = s\<lparr>bufs := (bufs s)[i := f (bufs s ! i)]\<rparr>"

section \<open>The drive\<close>

text \<open>
  Polling the status port: the successive values read from port 0x1f7; \<open>None\<close> when they run
  out before the drive is ready, the loop still polling.
\<close>

fun idewait :: "bool \<Rightarrow> byte list \<Rightarrow> int option" where
  "idewait checkerr [] = None"
| "idewait checkerr (r # rs) =
     (if r AND (0x80 OR 0x40) \<noteq> 0x40 then idewait checkerr rs
      else if checkerr \<and> r AND (0x20 OR 0x01) \<noteq> 0 then Some (- 1)
      else Some 0)"

text \<open>The sector registers and the drive select, as \<open>idestart\<close> programs them.\<close>

definition sector_of :: "uint \<Rightarrow> uint" where
  "sector_of blockno = blockno * (512 div 512)"

definition ide_regs :: "buf \<Rightarrow> uint list" where
  "ide_regs b = (let sector = sector_of (b_blockno b) in
     [512 div 512, sector AND 0xff, drop_bit 8 sector AND 0xff, drop_bit 16 sector AND 0xff,
      0xe0 OR push_bit 4 (b_dev b AND 1) OR (drop_bit 24 sector AND 0x0f)])"

text \<open>The block and the drive that such registers select.\<close>

definition regs_drive :: "uint list \<Rightarrow> uint" where
  "regs_drive r = drop_bit 4 (r ! 4) AND 1"

definition regs_block :: "uint list \<Rightarrow> uint" where
  "regs_block r = (r ! 1) OR push_bit 8 (r ! 2) OR push_bit 16 (r ! 3) OR push_bit 24 (r ! 4 AND 0x0f)"

definition drive_write :: "uint \<Rightarrow> uint \<Rightarrow> block \<Rightarrow> 'z disk_state_scheme \<Rightarrow> 'z disk_state_scheme" where
  "drive_write d n v s = s\<lparr>disk := (disk s)(d := (disk s d)(n := v)),
     dwrites := dwrites s @ [(d, n, v)]\<rparr>"

definition idestart :: "nat \<Rightarrow> ('z disk_state_scheme, unit) kop" where
  "idestart i = kseq (kpanic_if (\<lambda>s. FSSIZE \<le> b_blockno (bufs s ! i)) ''incorrect blockno'')
     (\<lambda>s. let b = bufs s ! i; r = ide_regs b in
        if b_dirty b then Done () (drive_write (regs_drive r) (regs_block r) (b_data b) s)
        else Done () s)"

text \<open>
  The interrupt handler. \<open>ok\<close> is \<open>idewait(1) >= 0\<close>, the drive's report that the read
  succeeded; the data then come from the block the active request selected.
\<close>

definition ideintr :: "bool \<Rightarrow> ('z disk_state_scheme, unit) kop" where
  "ideintr ok = kseq (lk_acquire LkIde)
     (kbind (kget idequeue) (\<lambda>q.
     case q of
       [] \<Rightarrow> lk_release LkIde
     | i # rest \<Rightarrow>
         kseq (kmod (\<lambda>s. s\<lparr>idequeue := rest\<rparr>))
         (kseq (kmod (\<lambda>s. if \<not> b_dirty (bufs s ! i) \<and> ok
            then upd_buf i (\<lambda>b. b\<lparr>b_data := disk s (regs_drive (ide_regs b)) (regs_block (ide_regs b))\<rparr>) s
            else s))
         (kseq (kmod (upd_buf i (\<lambda>b. b\<lparr>b_valid := True, b_dirty := False\<rparr>)))
         (kseq (wakeup (ChBuf i))
         (kseq (if rest \<noteq> [] then idestart (hd rest) else kret ())
         (lk_release LkIde)))))))"

text \<open>
  A process that sleeps on \<open>c\<close> with lock \<open>lk\<close> while interrupt handlers (\<open>h\<close>) run: the panics
  of \<open>sleep\<close> and \<open>sched\<close>, the lock given up, and taken again when the process continues.
\<close>

definition wait_intr :: "lockid \<Rightarrow> ('z kstate_scheme, unit) kop \<Rightarrow> ('z kstate_scheme, unit) kop" where
  "wait_intr lk h = kseq (kpanic_if (\<lambda>s. curproc s = None) ''sleep'')
     (kseq (kpanic_if (\<lambda>s. held s \<noteq> {lk}) ''sched locks'')
     (kseq (lk_release lk) (kseq h (lk_acquire lk))))"

definition synced :: "nat \<Rightarrow> 'z disk_state_scheme \<Rightarrow> bool" where
  "synced i s \<longleftrightarrow> b_valid (bufs s ! i) \<and> \<not> b_dirty (bufs s ! i)"

text \<open>
  The wait loop of \<open>iderw\<close>, each wait ended by one disk interrupt; the drive serves one
  request per interrupt, so the queue's length bounds the rounds. When they are
  used up the process is still asleep.
\<close>

fun ide_wait :: "nat \<Rightarrow> nat \<Rightarrow> ('z disk_state_scheme, unit) kop" where
  "ide_wait 0 i s = (if synced i s then Done () s else Swtch s)"
| "ide_wait (Suc n) i s =
     (if synced i s then Done () s else kseq (wait_intr LkIde (ideintr True)) (ide_wait n i) s)"

definition ide_checks :: "nat \<Rightarrow> ('z disk_state_scheme, unit) kop" where
  "ide_checks i = kseq (kpanic_if (\<lambda>s. \<not> b_busy (bufs s ! i)) ''iderw: buf not busy'')
     (kseq (kpanic_if (synced i) ''iderw: nothing to do'')
     (kpanic_if (\<lambda>s. b_dev (bufs s ! i) \<noteq> 0 \<and> \<not> havedisk1 s) ''iderw: ide disk 1 not present''))"

definition ide_issue :: "nat \<Rightarrow> ('z disk_state_scheme, unit) kop" where
  "ide_issue i = kseq (kmod (\<lambda>s. s\<lparr>idequeue := idequeue s @ [i]\<rparr>))
     (\<lambda>s. if hd (idequeue s) = i then idestart i s else Done () s)"

definition iderw :: "nat \<Rightarrow> ('z disk_state_scheme, unit) kop" where
  "iderw i = kseq (ide_checks i)
     (kseq (lk_acquire LkIde)
     (kseq (ide_issue i)
     (kbind (kget (\<lambda>s. length (idequeue s))) (\<lambda>n.
     kseq (ide_wait n i)
     (lk_release LkIde)))))"

text \<open>Probing for the second drive: the status bytes the 1000 reads of port 0x1f7 give.\<close>

definition ideinit :: "byte list \<Rightarrow> ('z disk_state_scheme, unit) kop" where
  "ideinit st = kmod (\<lambda>s. if \<exists>r \<in> set (take 1000 st). r \<noteq> 0 then s\<lparr>havedisk1 := True\<rparr> else s)"

section \<open>The memory disk\<close>

definition memide_rw :: "uint \<Rightarrow> nat \<Rightarrow> ('z disk_state_scheme, unit) kop" where
  "memide_rw disksize i = kseq (kpanic_if (\<lambda>s. \<not> b_busy (bufs s ! i)) ''iderw: buf not busy'')
     (kseq (kpanic_if (synced i) ''iderw: nothing to do'')
     (kseq (kpanic_if (\<lambda>s. b_dev (bufs s ! i) \<noteq> 1) ''iderw: request not for disk 1'')
     (kseq (kpanic_if (\<lambda>s. disksize \<le> b_blockno (bufs s ! i)) ''iderw: block out of range'')
     (\<lambda>s. let b = bufs s ! i in
        if b_dirty b then Done () (drive_write 1 (b_blockno b) (b_data b)
            (upd_buf i (\<lambda>b. b\<lparr>b_dirty := False, b_valid := True\<rparr>) s))
        else Done () (upd_buf i (\<lambda>b. b\<lparr>b_data := disk s 1 (b_blockno b), b_valid := True\<rparr>) s)))))"

section \<open>Register round trip\<close>

lemma bit_small_word:
  fixes w :: uint
  assumes "unat w < 2 ^ k"
  shows "bit w n \<Longrightarrow> n < k"
proof -
  have "unat (take_bit k w) = unat w"
    using assms by (simp add: unsigned_take_bit_eq take_bit_nat_eq_self)
  then have "take_bit k w = w" by (simp add: word_unat_eq_iff)
  then show "bit w n \<Longrightarrow> n < k" by (metis bit_take_bit_iff)
qed

lemma and_masks:
  "(w :: uint) AND 0xff = take_bit 8 w" "w AND 0x0f = take_bit 4 w" "w AND 1 = take_bit 1 w"
  by (simp_all add: take_bit_eq_mask mask_eq_exp_minus_1)

lemma or_0xe0: "0xe0 = (push_bit 5 (mask 3) :: uint)"
  by (simp add: mask_eq_exp_minus_1)

lemma low_nibble: "take_bit 4 (0xe0 OR push_bit 4 (d AND 1) OR take_bit 4 x) = take_bit 4 (x :: uint)"
  unfolding or_0xe0 by (rule bit_word_eqI) (auto simp: bit_simps bit_1_iff)

lemma drive_bit: "drop_bit 4 (0xe0 OR push_bit 4 (d AND 1) OR take_bit 4 x) AND 1 = d AND (1 :: uint)"
proof (rule bit_word_eqI)
  fix n
  have "bit (drop_bit 4 (push_bit 5 (mask 3) OR push_bit 4 (d AND 1) OR take_bit 4 x)) 0 = bit d 0"
    by (simp add: bit_simps bit_1_iff del: bit_0)
  then show "bit (drop_bit 4 (0xe0 OR push_bit 4 (d AND 1) OR take_bit 4 x) AND 1) n = bit (d AND 1) n"
    unfolding or_0xe0 by (auto simp: bit_and_iff bit_1_iff simp del: bit_0)
qed

lemma sector_of_simps [simp]: "sector_of n = n"
  by (simp add: sector_of_def)

lemma nth5:
  "[a, b, c, d, e] ! 1 = b" "[a, b, c, d, e] ! 2 = c" "[a, b, c, d, e] ! 3 = d" "[a, b, c, d, e] ! 4 = e"
  by simp_all

lemma regs_drive_ide: "regs_drive (ide_regs b) = b_dev b AND 1"
  unfolding regs_drive_def ide_regs_def Let_def nth5 and_masks(2) by (rule drive_bit)

lemma word_from_bytes:
  fixes w :: uint
  assumes "unat w < 2 ^ 28"
  shows "take_bit 8 w OR push_bit 8 (take_bit 8 (drop_bit 8 w)) OR push_bit 16 (take_bit 8 (drop_bit 16 w))
    OR push_bit 24 (take_bit 4 (drop_bit 24 w)) = w"
proof (rule bit_word_eqI)
  fix n assume "n < LENGTH(32)"
  then consider "n < 8" | "8 \<le> n" "n < 16" | "16 \<le> n" "n < 24" | "24 \<le> n" "n < 28" | "28 \<le> n" "n < 32"
    by fastforce
  then show "bit (take_bit 8 w OR push_bit 8 (take_bit 8 (drop_bit 8 w)) OR push_bit 16 (take_bit 8 (drop_bit 16 w))
    OR push_bit 24 (take_bit 4 (drop_bit 24 w))) n = bit w n"
    by cases (auto simp: bit_simps dest: bit_small_word [OF assms])
qed

lemma regs_block_ide:
  assumes "b_blockno b < FSSIZE"
  shows "regs_block (ide_regs b) = b_blockno b"
proof -
  have "unat (b_blockno b) < 2 ^ 28" using assms by (simp add: FSSIZE_def word_less_nat_alt)
  from word_from_bytes [OF this] show ?thesis
    unfolding regs_block_def ide_regs_def Let_def nth5 and_masks(1,2) low_nibble sector_of_simps .
qed

section \<open>Requests\<close>

text \<open>The comment's description of \<open>iderw\<close>, as an effect on buffer and drive.\<close>

definition disk_sync :: "nat \<Rightarrow> 'z disk_state_scheme \<Rightarrow> 'z disk_state_scheme" where
  "disk_sync i s = (let b = bufs s ! i; d = b_dev b AND 1; n = b_blockno b in
     if b_dirty b
     then drive_write d n (b_data b) (upd_buf i (\<lambda>b. b\<lparr>b_valid := True, b_dirty := False\<rparr>) s)
     else upd_buf i (\<lambda>b. b\<lparr>b_data := disk s d n, b_valid := True, b_dirty := False\<rparr>) s)"

text \<open>A process is running, holds no lock, and the driver has no request.\<close>

definition quiet :: "'z disk_state_scheme \<Rightarrow> bool" where
  "quiet s \<longleftrightarrow> held s = {} \<and> curproc s \<noteq> None \<and> idequeue s = []"

definition can_sync :: "nat \<Rightarrow> 'z disk_state_scheme \<Rightarrow> bool" where
  "can_sync i s \<longleftrightarrow> i < length (bufs s) \<and> b_busy (bufs s ! i) \<and> \<not> synced i s \<and>
     (b_dev (bufs s ! i) = 0 \<or> havedisk1 s) \<and> b_blockno (bufs s ! i) < FSSIZE"

abbreviation wake_on :: "chan \<Rightarrow> 'z kstate_scheme \<Rightarrow> 'z kstate_scheme" where
  "wake_on c s \<equiv> s\<lparr>ptable := map (wake_proc c) (ptable s)\<rparr>"

lemma iderw_exec:
  assumes "quiet s" and "can_sync i s"
  shows "iderw i s = Done () (wake_on (ChBuf i) (disk_sync i s))"
proof -
  have h: "held s = {}" "curproc s \<noteq> None" "idequeue s = []" using assms(1) by (auto simp: quiet_def)
  have c: "ide_checks i s = Done () s" and i: "i < length (bufs s)" and ns: "\<not> synced i s"
    and bn: "b_blockno (bufs s ! i) < FSSIZE"
    using assms(2) by (auto simp: ide_checks_def can_sync_def)
  note regs = regs_drive_ide regs_block_ide [OF bn]
  show ?thesis
  proof (cases "b_dirty (bufs s ! i)")
    case True
    with h c i ns bn show ?thesis
      by (simp add: iderw_def ide_issue_def idestart_def Let_def regs drive_write_def synced_def
          wait_intr_def ideintr_def upd_buf_def disk_sync_def)
  next
    case False
    with h c i ns bn show ?thesis
      by (simp add: iderw_def ide_issue_def idestart_def Let_def regs drive_write_def synced_def
          wait_intr_def ideintr_def upd_buf_def disk_sync_def)
  qed
qed

text \<open>The memory disk gives the same buffer and the same drive contents.\<close>

lemma memide_rw_exec:
  assumes "can_sync i s" and "b_dev (bufs s ! i) = 1" and "b_blockno (bufs s ! i) < disksize"
  shows "memide_rw disksize i s = Done () (disk_sync i s)"
proof -
  obtain i: "i < length (bufs s)" "b_busy (bufs s ! i)" "\<not> synced i s" "\<not> disksize \<le> b_blockno (bufs s ! i)"
    using assms by (auto simp: can_sync_def)
  then have "memide_rw disksize i s = (let b = bufs s ! i in
        if b_dirty b then Done () (drive_write 1 (b_blockno b) (b_data b)
            (upd_buf i (\<lambda>b. b\<lparr>b_dirty := False, b_valid := True\<rparr>) s))
        else Done () (upd_buf i (\<lambda>b. b\<lparr>b_data := disk s 1 (b_blockno b), b_valid := True\<rparr>) s))"
    using assms(2) by (simp add: memide_rw_def)
  with i assms(2) show ?thesis
    by (cases "bufs s ! i") (simp add: disk_sync_def Let_def upd_buf_def drive_write_def synced_def)
qed

text \<open>A state with one buffer, busy and waiting to be written, for concrete instances.\<close>

definition one_buf_state :: disk_state where
  "one_buf_state = kmem_state.extend bare_kstate
     \<lparr>bufs = [\<lparr>b_busy = True, b_valid = True, b_dirty = True, b_dev = 1, b_blockno = 7,
        b_data = replicate BSIZE 5\<rparr>], lru = [0], idequeue = [], havedisk1 = True,
      disk = (\<lambda>_ _. replicate BSIZE 0), dwrites = []\<rparr> \<lparr>curproc := Some 0\<rparr>"

section \<open>Properties\<close>



end
