(* ===== verification/Bio.thy ===== *)
theory Bio
  imports Disk
begin

text \<open>
  The buffer cache (\<^verbatim>\<open>src/bio.c\<close>). Its contract, proved below for \<open>bread\<close>, \<open>bwrite\<close> and
  \<open>brelse\<close>, is stated over \<open>cview\<close>, the contents a reader of the cache sees: at most one
  buffer per block, a reader gets the latest contents of the block, and recycling a
  buffer loses nothing because only clean, unused buffers are recycled.
\<close>

section \<open>Definitions\<close>

text \<open>\<open>binit\<close> inserts each buffer at the front of the list.\<close>

definition binit :: "('z disk_state_scheme, unit) kop" where
  "binit = kmod (\<lambda>s. s\<lparr>bufs := map (\<lambda>b. b\<lparr>b_dev := - 1\<rparr>) (bufs s), lru := rev [0..<NBUF]\<rparr>)"

text \<open>
  \<open>bget\<close> from its label \<open>loop\<close>; a process that finds the block's buffer busy sleeps, and
  starts over from there with the lock held.
\<close>

definition bget_loop :: "uint \<Rightarrow> uint \<Rightarrow> ('z disk_state_scheme, nat) kop" where
  "bget_loop dev blockno =
     kbind (kget (\<lambda>s. find (\<lambda>i. b_dev (bufs s ! i) = dev \<and> b_blockno (bufs s ! i) = blockno) (lru s)))
     (\<lambda>hit. case hit of
        Some i \<Rightarrow> kbind (kget (\<lambda>s. b_busy (bufs s ! i))) (\<lambda>busy.
          if \<not> busy
          then kseq (kmod (upd_buf i (\<lambda>b. b\<lparr>b_busy := True\<rparr>))) (kseq (lk_release LkBcache) (kret i))
          else sleep (ChBuf i) LkBcache)
      | None \<Rightarrow>
          kbind (kget (\<lambda>s. find (\<lambda>i. \<not> b_busy (bufs s ! i) \<and> \<not> b_dirty (bufs s ! i)) (rev (lru s))))
          (\<lambda>old. case old of
             Some i \<Rightarrow> kseq (kmod (upd_buf i (\<lambda>b. b\<lparr>b_dev := dev, b_blockno := blockno,
                 b_busy := True, b_valid := False, b_dirty := False\<rparr>)))
               (kseq (lk_release LkBcache) (kret i))
           | None \<Rightarrow> kpanic ''bget: no buffers''))"

definition bget :: "uint \<Rightarrow> uint \<Rightarrow> ('z disk_state_scheme, nat) kop" where
  "bget dev blockno = kseq (lk_acquire LkBcache) (bget_loop dev blockno)"

definition bget_resume :: "uint \<Rightarrow> uint \<Rightarrow> ('z disk_state_scheme, nat) kop" where
  "bget_resume dev blockno = kseq (sleep_resume LkBcache) (bget_loop dev blockno)"

definition bread :: "uint \<Rightarrow> uint \<Rightarrow> ('z disk_state_scheme, nat) kop" where
  "bread dev blockno = kbind (bget dev blockno) (\<lambda>i.
     kseq (\<lambda>s. if \<not> b_valid (bufs s ! i) then iderw i s else Done () s) (kret i))"

definition bwrite :: "nat \<Rightarrow> ('z disk_state_scheme, unit) kop" where
  "bwrite i = kseq (kpanic_if (\<lambda>s. \<not> b_busy (bufs s ! i)) ''bwrite'')
     (kseq (kmod (upd_buf i (\<lambda>b. b\<lparr>b_dirty := True\<rparr>))) (iderw i))"

definition brelse :: "nat \<Rightarrow> ('z disk_state_scheme, unit) kop" where
  "brelse i = kseq (kpanic_if (\<lambda>s. \<not> b_busy (bufs s ! i)) ''brelse'')
     (kseq (lk_acquire LkBcache)
     (kseq (kmod (\<lambda>s. s\<lparr>lru := i # removeAll i (lru s)\<rparr>))
     (kseq (kmod (upd_buf i (\<lambda>b. b\<lparr>b_busy := False\<rparr>)))
     (kseq (wakeup (ChBuf i))
     (lk_release LkBcache)))))"

section \<open>Invariant\<close>

abbreviation blk :: "buf \<Rightarrow> uint \<times> uint" where
  "blk b \<equiv> (b_dev b, b_blockno b)"

text \<open>Drive 0 or 1; \<open>-1\<close> marks a buffer that has held no block yet.\<close>

definition real_dev :: "uint \<Rightarrow> bool" where
  "real_dev d \<longleftrightarrow> d = 0 \<or> d = 1"

definition buf_ok :: "store \<Rightarrow> buf \<Rightarrow> bool" where
  "buf_ok dk b \<longleftrightarrow> (if real_dev (b_dev b)
     then b_blockno b < FSSIZE \<and> (\<not> b_busy b \<longrightarrow> b_valid b) \<and>
       (b_dirty b \<longrightarrow> b_valid b) \<and>
       (b_valid b \<and> \<not> b_dirty b \<and> \<not> b_busy b \<longrightarrow> b_data b = dk (b_dev b) (b_blockno b))
     else \<not> b_busy b \<and> \<not> b_dirty b \<and> \<not> b_valid b)"

definition bio_ok :: "'z disk_state_scheme \<Rightarrow> bool" where
  "bio_ok s \<longleftrightarrow> length (bufs s) = NBUF \<and> distinct (lru s) \<and> set (lru s) = {..<NBUF} \<and>
     (\<forall>i<NBUF. buf_ok (disk s) (bufs s ! i)) \<and>
     (\<forall>i<NBUF. \<forall>j<NBUF. real_dev (b_dev (bufs s ! i)) \<and> blk (bufs s ! i) = blk (bufs s ! j) \<longrightarrow> i = j)"

text \<open>The contents of a block as seen through the cache.\<close>

definition cview :: "'z disk_state_scheme \<Rightarrow> uint \<Rightarrow> uint \<Rightarrow> block" where
  "cview s d n = (case find (\<lambda>i. blk (bufs s ! i) = (d, n) \<and> b_valid (bufs s ! i)) [0..<length (bufs s)] of
     Some i \<Rightarrow> b_data (bufs s ! i) | None \<Rightarrow> disk s d n)"

text \<open>
  The parts of the state the cache may change, and that of the process table it only wakes
  sleepers.
\<close>

definition woken :: "proc list \<Rightarrow> proc list \<Rightarrow> bool" where
  "woken ps qs \<longleftrightarrow> list_all2 (\<lambda>p q. q = p \<or> p_state p = SLEEPING \<and> q = p\<lparr>p_state := RUNNABLE\<rparr>) ps qs"

definition bio_frame :: "'z disk_state_scheme \<Rightarrow> 'z disk_state_scheme \<Rightarrow> bool" where
  "bio_frame s t \<longleftrightarrow> (\<exists>ps bs ls dk ws. woken (ptable s) ps \<and>
     t = s\<lparr>ptable := ps, bufs := bs, lru := ls, disk := dk, dwrites := ws\<rparr>)"

text \<open>Nobody holds a buffer of the block, and a buffer for it exists or can be recycled.\<close>

definition can_read :: "uint \<Rightarrow> uint \<Rightarrow> 'z disk_state_scheme \<Rightarrow> bool" where
  "can_read d n s \<longleftrightarrow> real_dev d \<and> (d = 0 \<or> havedisk1 s) \<and> n < FSSIZE \<and>
     (\<forall>i<NBUF. blk (bufs s ! i) = (d, n) \<longrightarrow> \<not> b_busy (bufs s ! i)) \<and>
     (\<exists>i<NBUF. blk (bufs s ! i) = (d, n) \<or> \<not> b_busy (bufs s ! i) \<and> \<not> b_dirty (bufs s ! i))"

section \<open>Basic facts\<close>

lemma woken_refl [simp]: "woken ps ps"
  by (simp add: woken_def list_all2_refl)

lemma woken_trans: "woken ps qs \<Longrightarrow> woken qs rs \<Longrightarrow> woken ps rs"
  unfolding woken_def by (erule (1) list_all2_trans [rotated]) auto

lemma woken_wake [simp]: "woken ps (map (wake_proc c) ps)"
  by (auto simp: woken_def list_all2_conv_all_nth wake_proc_def)

lemma bio_frame_refl [simp]: "bio_frame s s"
  unfolding bio_frame_def
  by (intro exI [of _ "ptable s"] exI [of _ "bufs s"] exI [of _ "lru s"] exI [of _ "disk s"]
      exI [of _ "dwrites s"]) simp

lemma bio_frameI:
  "woken (ptable s) ps \<Longrightarrow>
    bio_frame s (s\<lparr>ptable := ps, bufs := bs, lru := ls, disk := dk, dwrites := ws\<rparr>)"
  unfolding bio_frame_def by blast

lemma bio_frame_trans:
  assumes "bio_frame s t" and "bio_frame t u"
  shows "bio_frame s u"
proof -
  obtain ps bs ls dk ws where t: "woken (ptable s) ps"
    "t = s\<lparr>ptable := ps, bufs := bs, lru := ls, disk := dk, dwrites := ws\<rparr>"
    using assms(1) by (auto simp: bio_frame_def)
  obtain ps' bs' ls' dk' ws' where u: "woken (ptable t) ps'"
    "u = t\<lparr>ptable := ps', bufs := bs', lru := ls', disk := dk', dwrites := ws'\<rparr>"
    using assms(2) by (auto simp: bio_frame_def)
  have "woken (ptable s) ps'" using t u(1) by (auto intro: woken_trans)
  then show ?thesis using u(2) by (simp add: t(2) bio_frameI)
qed

lemma bio_frame_wake [simp]: "bio_frame s (wake_on c s)"
  unfolding bio_frame_def
  by (intro exI [of _ "map (wake_proc c) (ptable s)"] exI [of _ "bufs s"] exI [of _ "lru s"]
      exI [of _ "disk s"] exI [of _ "dwrites s"]) simp

lemma real_dev_simps [simp]: "real_dev 0" "real_dev 1" "\<not> real_dev (- 1)"
  by (simp_all add: real_dev_def)

lemma real_dev_and [simp]: "real_dev d \<Longrightarrow> d AND 1 = d"
  by (auto simp: real_dev_def)

lemma cview_hit:
  assumes "bio_ok s" and "i < NBUF" and "blk (bufs s ! i) = (d, n)" and "b_valid (bufs s ! i)" and "real_dev d"
  shows "cview s d n = b_data (bufs s ! i)"
proof -
  let ?P = "\<lambda>i. blk (bufs s ! i) = (d, n) \<and> b_valid (bufs s ! i)"
  have len: "length (bufs s) = NBUF" using assms(1) by (simp add: bio_ok_def)
  have "j = i" if "j < NBUF" "?P j" for j
    using that assms by (simp add: bio_ok_def)
  moreover obtain j where j: "find ?P [0..<NBUF] = Some j"
    using assms(2-4) by (cases "find ?P [0..<NBUF]") (auto simp: find_None_iff)
  ultimately have "j = i" by (auto simp: find_Some_iff)
  with j show ?thesis by (simp add: cview_def len)
qed

lemma cview_miss:
  assumes "\<And>i. i < length (bufs s) \<Longrightarrow> blk (bufs s ! i) = (d, n) \<Longrightarrow> \<not> b_valid (bufs s ! i)"
  shows "cview s d n = disk s d n"
proof -
  have "find (\<lambda>i. blk (bufs s ! i) = (d, n) \<and> b_valid (bufs s ! i)) [0..<length (bufs s)] = None"
    using assms by (auto simp: find_None_iff)
  then show ?thesis by (simp add: cview_def)
qed

lemma cview_other:
  assumes "bufs t = (bufs s)[i := b]" and "disk t d n = disk s d n"
    and "blk (bufs s ! i) \<noteq> (d, n) \<or> \<not> b_valid (bufs s ! i)" and "blk b \<noteq> (d, n) \<or> \<not> b_valid b"
  shows "cview t d n = cview s d n"
proof -
  let ?P = "\<lambda>s j. blk (bufs s ! j) = (d, n) \<and> b_valid (bufs s ! j)"
  have eq: "?P t j = ?P s j" if "j < length (bufs s)" for j
    using that assms(1,3,4) by (cases "j = i") auto
  then have f: "find (?P t) [0..<length (bufs t)] = find (?P s) [0..<length (bufs s)]"
    using assms(1) by (intro find_cong) auto
  show ?thesis
  proof (cases "find (?P s) [0..<length (bufs s)]")
    case None
    with f assms(2) show ?thesis by (simp add: cview_def)
  next
    case (Some j)
    then have "j < length (bufs s)" "?P s j" by (auto simp: find_Some_iff)
    with assms(3) have "j \<noteq> i" by auto
    with Some f assms(1) show ?thesis by (simp add: cview_def)
  qed
qed

lemma bio_ok_D:
  assumes "bio_ok s"
  shows "length (bufs s) = NBUF" "distinct (lru s)" "set (lru s) = {..<NBUF}"
    "i < NBUF \<Longrightarrow> buf_ok (disk s) (bufs s ! i)"
    "i < NBUF \<Longrightarrow> j < NBUF \<Longrightarrow> real_dev (b_dev (bufs s ! i)) \<Longrightarrow> blk (bufs s ! i) = blk (bufs s ! j) \<Longrightarrow> i = j"
  using assms by (auto simp: bio_ok_def)

text \<open>One buffer changes: when the invariant survives.\<close>

lemma bio_ok_upd:
  assumes "bio_ok s" and "bufs t = (bufs s)[i := b]" and "set (lru t) = {..<NBUF}" and "distinct (lru t)"
    and "buf_ok (disk t) b"
    and "\<And>j. j < NBUF \<Longrightarrow> j \<noteq> i \<Longrightarrow> buf_ok (disk t) (bufs s ! j)"
    and "\<And>j. j < NBUF \<Longrightarrow> j \<noteq> i \<Longrightarrow> real_dev (b_dev b) \<Longrightarrow> blk (bufs s ! j) \<noteq> blk b"
  shows "bio_ok t"
proof -
  note s = bio_ok_D [OF assms(1)]
  have inj: "k = j" if "k < NBUF" "j < NBUF" "real_dev (b_dev (bufs t ! k))" "blk (bufs t ! k) = blk (bufs t ! j)" for k j
  proof (cases "k = i \<or> j = i")
    case True
    with that assms(2,7) s(1) show ?thesis by (cases "k = i"; cases "j = i") auto
  next
    case False
    with that assms(2) s(1) s(5) [of k j] show ?thesis by simp
  qed
  have "buf_ok (disk t) (bufs t ! k)" if "k < NBUF" for k
    using that assms(2,5,6) s(1) by (cases "k = i") auto
  with inj assms(2,3,4) s(1) show ?thesis unfolding bio_ok_def by auto
qed

lemma bget_hit:
  assumes "LkBcache \<notin> held s" and "\<not> b_busy (bufs s ! i)"
    and "find (\<lambda>i. b_dev (bufs s ! i) = d \<and> b_blockno (bufs s ! i) = n) (lru s) = Some i"
  shows "bget d n s = Done i (upd_buf i (\<lambda>b. b\<lparr>b_busy := True\<rparr>) s)"
  using assms by (simp add: bget_def bget_loop_def upd_buf_def)

lemma bget_miss:
  assumes "LkBcache \<notin> held s"
    and "find (\<lambda>i. b_dev (bufs s ! i) = d \<and> b_blockno (bufs s ! i) = n) (lru s) = None"
    and "find (\<lambda>i. \<not> b_busy (bufs s ! i) \<and> \<not> b_dirty (bufs s ! i)) (rev (lru s)) = Some i"
  shows "bget d n s = Done i (upd_buf i (\<lambda>b. b\<lparr>b_dev := d, b_blockno := n,
                 b_busy := True, b_valid := False, b_dirty := False\<rparr>) s)"
  using assms by (simp add: bget_def bget_loop_def upd_buf_def)

definition bread_post :: "uint \<Rightarrow> uint \<Rightarrow> 'z disk_state_scheme \<Rightarrow> nat \<Rightarrow> 'z disk_state_scheme \<Rightarrow> bool" where
  "bread_post d n s i t \<longleftrightarrow> bio_ok t \<and> quiet t \<and> bio_frame s t \<and> i < NBUF \<and>
     \<not> b_busy (bufs s ! i) \<and> b_dirty (bufs t ! i) = b_dirty (bufs s ! i) \<and>
     (b_dirty (bufs s ! i) \<longrightarrow> blk (bufs s ! i) = (d, n)) \<and>
     b_busy (bufs t ! i) \<and> b_valid (bufs t ! i) \<and> blk (bufs t ! i) = (d, n) \<and>
     b_data (bufs t ! i) = cview s d n \<and>
     (b_dirty (bufs t ! i) \<or> b_data (bufs t ! i) = disk t d n) \<and>
     (\<forall>j. j \<noteq> i \<longrightarrow> bufs t ! j = bufs s ! j) \<and> cview t = cview s \<and> disk t = disk s \<and> dwrites t = dwrites s"

lemma bread_postD:
  assumes "bread_post d n s i t"
  shows "bio_ok t" "quiet t" "bio_frame s t" "i < NBUF" "\<not> b_busy (bufs s ! i)"
    "b_dirty (bufs t ! i) = b_dirty (bufs s ! i)" "b_dirty (bufs s ! i) \<Longrightarrow> blk (bufs s ! i) = (d, n)"
    "b_busy (bufs t ! i)" "b_valid (bufs t ! i)" "blk (bufs t ! i) = (d, n)"
    "b_data (bufs t ! i) = cview s d n" "b_dirty (bufs t ! i) \<or> b_data (bufs t ! i) = disk t d n"
    "\<And>j. j \<noteq> i \<Longrightarrow> bufs t ! j = bufs s ! j" "cview t = cview s" "disk t = disk s" "dwrites t = dwrites s"
  using assms unfolding bread_post_def by blast+

lemma quiet_upd_buf [simp]: "quiet (upd_buf i f s) = quiet s"
  by (simp add: quiet_def upd_buf_def)

lemma bio_frame_upd_buf [simp]: "bio_frame s (upd_buf i f s)"
  using bio_frameI [where s = s and ps = "ptable s" and bs = "(bufs s)[i := f (bufs s ! i)]"
    and ls = "lru s" and dk = "disk s" and ws = "dwrites s"]
  by (simp add: upd_buf_def)

lemma bio_frame_drive [simp]: "bio_frame s (drive_write d n v s)"
  using bio_frameI [where s = s and ps = "ptable s" and bs = "bufs s" and ls = "lru s"
    and dk = "disk (drive_write d n v s)" and ws = "dwrites s @ [(d, n, v)]"]
  by (simp add: drive_write_def)

lemma bio_frame_lru [simp]: "bio_frame s (s\<lparr>lru := ls\<rparr>)"
  using bio_frameI [where s = s and ps = "ptable s" and bs = "bufs s" and ls = ls
    and dk = "disk s" and ws = "dwrites s"]
  by simp

lemma bio_frame_sync [simp]: "bio_frame s (disk_sync i s)"
  unfolding disk_sync_def Let_def
  by (auto intro: bio_frame_trans [OF bio_frame_upd_buf bio_frame_drive])

lemma upd_buf_simps [simp]:
  "lru (upd_buf i f s) = lru s" "disk (upd_buf i f s) = disk s" "dwrites (upd_buf i f s) = dwrites s"
  "bufs (upd_buf i f s) = (bufs s)[i := f (bufs s ! i)]" "havedisk1 (upd_buf i f s) = havedisk1 s"
  by (simp_all add: upd_buf_def)

lemma bread_hit:
  assumes "bio_ok s" and "quiet s" and "real_dev d" and "i < NBUF" and "blk (bufs s ! i) = (d, n)"
    and "\<not> b_busy (bufs s ! i)"
  shows "\<exists>t. bread d n s = Done i t \<and> bread_post d n s i t"
proof -
  note s = bio_ok_D [OF assms(1)]
  let ?b = "(bufs s ! i)\<lparr>b_busy := True\<rparr>" and ?t = "upd_buf i (\<lambda>b. b\<lparr>b_busy := True\<rparr>) s"
  have iok: "buf_ok (disk s) (bufs s ! i)" using s(4) assms(4) .
  with assms have v: "b_valid (bufs s ! i)" by (auto simp: buf_ok_def)
  have "find (\<lambda>i. b_dev (bufs s ! i) = d \<and> b_blockno (bufs s ! i) = n) (lru s) = Some i"
    (is "find ?P _ = _")
  proof (cases "find ?P (lru s)")
    case None
    with assms s(3) show ?thesis by (auto simp: find_None_iff)
  next
    case (Some j)
    then have "j < NBUF" "?P j" using s(3) by (auto simp: find_Some_iff)
    then have "j = i" using s(5) [of i j] assms by simp
    with Some show ?thesis by simp
  qed
  then have g: "bget d n s = Done i ?t" using assms by (intro bget_hit) (auto simp: quiet_def)
  have "bio_ok ?t"
  proof (rule bio_ok_upd [OF assms(1), of _ i ?b])
    show "buf_ok (disk ?t) ?b" using iok assms(3,5) by (auto simp: buf_ok_def)
    show "blk (bufs s ! j) \<noteq> blk ?b" if "j < NBUF" "j \<noteq> i" "real_dev (b_dev ?b)" for j
    proof
      assume "blk (bufs s ! j) = blk ?b"
      with that assms(4) have "i = j" by (intro s(5)) simp_all
      with that show False by simp
    qed
    show "set (lru ?t) = {..<NBUF}" "distinct (lru ?t)" using s by simp_all
    show "buf_ok (disk ?t) (bufs s ! j)" if "j < NBUF" for j using s(4) that by simp
  qed simp
  moreover have "cview ?t d' n' = cview s d' n'" for d' n'
  proof (cases "(d', n') = (d, n)")
    case True
    have "cview ?t d n = b_data (bufs ?t ! i)"
      using assms s v by (intro cview_hit [OF \<open>bio_ok ?t\<close> assms(4)]) simp_all
    with True cview_hit [OF assms(1,4,5) v assms(3)] assms s show ?thesis by simp
  next
    case False
    then show ?thesis using assms by (intro cview_other [of _ _ i ?b]) auto
  qed
  ultimately have "bread_post d n s i ?t"
    using assms s v cview_hit [OF assms(1,4,5) v assms(3)] iok by (auto simp: bread_post_def buf_ok_def)
  moreover have "bread d n s = Done i ?t" using g v s assms(4) by (simp add: bread_def)
  ultimately show ?thesis by blast
qed

lemma find_SomeD: "find P xs = Some x \<Longrightarrow> x \<in> set xs \<and> P x"
  by (induction xs) (auto split: if_splits)

lemma find_ex: "x \<in> set xs \<Longrightarrow> P x \<Longrightarrow> \<exists>y. find P xs = Some y"
  by (induction xs) auto

text \<open>The block is in no buffer: a clean unused buffer is recycled and filled from the disk.\<close>

lemma bread_miss:
  assumes "bio_ok s" and "quiet s" and "can_read d n s"
    and "\<And>i. i < NBUF \<Longrightarrow> blk (bufs s ! i) \<noteq> (d, n)"
  shows "\<exists>i t. bread d n s = Done i t \<and> bread_post d n s i t"
proof -
  note s = bio_ok_D [OF assms(1)]
  have d: "real_dev d" "d = 0 \<or> havedisk1 s" "n < FSSIZE" using assms(3) by (auto simp: can_read_def)
  have none: "find (\<lambda>i. b_dev (bufs s ! i) = d \<and> b_blockno (bufs s ! i) = n) (lru s) = None"
    using assms(4) s(3) by (auto simp: find_None_iff)
  obtain k where "k < NBUF" "\<not> b_busy (bufs s ! k) \<and> \<not> b_dirty (bufs s ! k)"
    using assms(3,4) by (auto simp: can_read_def)
  then obtain i where f: "find (\<lambda>i. \<not> b_busy (bufs s ! i) \<and> \<not> b_dirty (bufs s ! i)) (rev (lru s)) = Some i"
    using find_ex [of k "rev (lru s)" "\<lambda>i. \<not> b_busy (bufs s ! i) \<and> \<not> b_dirty (bufs s ! i)"] s(3) by auto
  then have i: "i < NBUF" "\<not> b_busy (bufs s ! i)" "\<not> b_dirty (bufs s ! i)"
    using find_SomeD [OF f] s(3) by auto
  let ?fresh = "(bufs s ! i)\<lparr>b_dev := d, b_blockno := n, b_busy := True, b_valid := False, b_dirty := False\<rparr>"
  let ?b = "\<lparr>b_busy = True, b_valid = True, b_dirty = False, b_dev = d, b_blockno = n, b_data = disk s d n\<rparr>"
  define s1 where "s1 = upd_buf i (\<lambda>b. b\<lparr>b_dev := d, b_blockno := n,
    b_busy := True, b_valid := False, b_dirty := False\<rparr>) s"
  have s1: "bufs s1 = (bufs s)[i := ?fresh]" "lru s1 = lru s" "disk s1 = disk s" "dwrites s1 = dwrites s"
    "bio_frame s s1" "quiet s1" "havedisk1 s1 = havedisk1 s"
    using assms(2) by (simp_all add: s1_def)
  have g: "bget d n s = Done i s1"
    using bget_miss [OF _ none f] assms(2) by (simp add: s1_def quiet_def)
  define t where "t = wake_on (ChBuf i) (disk_sync i s1)"
  have "can_sync i s1"
    using i s(1) s1 d by (simp add: can_sync_def synced_def)
  then have rw: "iderw i s1 = Done () t" using iderw_exec [OF s1(6)] by (simp add: t_def)
  have t: "bufs t = (bufs s)[i := ?b]" "disk t = disk s" "dwrites t = dwrites s" "lru t = lru s"
    using i s(1) s1 d(1) by (cases "bufs s ! i"; simp add: t_def disk_sync_def Let_def)+
  have fr: "bio_frame s1 t" unfolding t_def by (rule bio_frame_trans [OF bio_frame_sync bio_frame_wake])
  have q: "quiet t" using s1(6) i s(1) s1(1) by (simp add: quiet_def t_def disk_sync_def Let_def upd_buf_def)
  have ok: "bio_ok t"
  proof (rule bio_ok_upd [OF assms(1) t(1)])
    show "blk (bufs s ! j) \<noteq> blk ?b" if "j < NBUF" for j using assms(4) [OF that] by simp
  qed (use s t d in \<open>auto simp: buf_ok_def\<close>)
  have old: "cview s d n = disk s d n" using assms(4) s(1) by (intro cview_miss) auto
  have "cview t d' n' = cview s d' n'" for d' n'
  proof (cases "(d', n') = (d, n)")
    case True
    have "cview t d n = disk s d n"
      using cview_hit [OF ok i(1), of d n] t i s(1) d(1) by simp
    with True old show ?thesis by simp
  next
    case new: False
    show ?thesis
    proof (cases "blk (bufs s ! i) = (d', n') \<and> b_valid (bufs s ! i)")
      case True
      with s(4) [OF i(1)] i have "real_dev d'" "b_data (bufs s ! i) = disk s d' n'"
        by (auto simp: buf_ok_def split: if_splits)
      moreover have "cview t d' n' = disk t d' n'"
      proof (rule cview_miss)
        fix j assume "j < length (bufs t)" "blk (bufs t ! j) = (d', n')"
        then show "\<not> b_valid (bufs t ! j)"
          using True new t s(1) s(5) [of i j] i(1) \<open>real_dev d'\<close> by (cases "j = i") auto
      qed
      ultimately show ?thesis using cview_hit [OF assms(1) i(1), of d' n'] True t by simp
    next
      case False
      then show ?thesis using new t by (intro cview_other [OF t(1)]) auto
    qed
  qed
  then have "cview t = cview s" by (intro ext)
  then have "bread_post d n s i t"
    using ok q i t s(1) bio_frame_trans [OF s1(5) fr] old
    by (simp add: bread_post_def)
  moreover have "bread d n s = Done i t" using g rw i s(1) s1(1) by (simp add: bread_def)
  ultimately show ?thesis by blast
qed

lemma bread_spec:
  assumes "bio_ok s" and "quiet s" and "can_read d n s"
  shows "\<exists>i t. bread d n s = Done i t \<and> bread_post d n s i t"
proof (cases "\<exists>i<NBUF. blk (bufs s ! i) = (d, n)")
  case True
  then obtain i where i: "i < NBUF" "blk (bufs s ! i) = (d, n)" by blast
  with assms(3) have "real_dev d" "\<not> b_busy (bufs s ! i)" by (auto simp: can_read_def)
  with bread_hit [OF assms(1,2) _ i] show ?thesis by blast
next
  case False
  then show ?thesis using bread_miss [OF assms] by blast
qed

lemma cview_cong:
  assumes "length (bufs t) = length (bufs s)" and "disk t = disk s"
    and "\<And>j. j < length (bufs s) \<Longrightarrow> blk (bufs t ! j) = blk (bufs s ! j) \<and>
      b_valid (bufs t ! j) = b_valid (bufs s ! j) \<and> b_data (bufs t ! j) = b_data (bufs s ! j)"
  shows "cview t = cview s"
proof (intro ext)
  fix d n
  let ?P = "\<lambda>s j. blk (bufs s ! j) = (d, n) \<and> b_valid (bufs s ! j)"
  have f: "find (?P t) [0..<length (bufs t)] = find (?P s) [0..<length (bufs s)]"
    using assms by (intro find_cong) auto
  show "cview t d n = cview s d n"
  proof (cases "find (?P s) [0..<length (bufs s)]")
    case None
    with f assms(2) show ?thesis by (simp add: cview_def)
  next
    case (Some j)
    then have "j < length (bufs s)" using find_SomeD [OF Some] by simp
    with Some f assms(3) show ?thesis by (simp add: cview_def)
  qed
qed

lemma brelse_spec:
  assumes "bio_ok s" and "quiet s" and "i < NBUF" and "b_busy (bufs s ! i)" and "b_valid (bufs s ! i)"
    and "b_dirty (bufs s ! i) \<or> b_data (bufs s ! i) = disk s (b_dev (bufs s ! i)) (b_blockno (bufs s ! i))"
  shows "\<exists>t. brelse i s = Done () t \<and> bio_ok t \<and> quiet t \<and> bio_frame s t \<and>
    bufs t = (bufs s)[i := (bufs s ! i)\<lparr>b_busy := False\<rparr>] \<and> cview t = cview s \<and>
    disk t = disk s \<and> dwrites t = dwrites s"
proof -
  note s = bio_ok_D [OF assms(1)]
  define t where "t = wake_on (ChBuf i)
    (upd_buf i (\<lambda>b. b\<lparr>b_busy := False\<rparr>) (s\<lparr>lru := i # removeAll i (lru s)\<rparr>))"
  have r: "brelse i s = Done () t"
    using assms(2,4) by (simp add: brelse_def quiet_def t_def upd_buf_def)
  have t: "bufs t = (bufs s)[i := (bufs s ! i)\<lparr>b_busy := False\<rparr>]" "disk t = disk s"
    "dwrites t = dwrites s" "lru t = i # removeAll i (lru s)" "quiet t"
    using assms(2) by (simp_all add: t_def) (simp_all add: quiet_def upd_buf_def)
  have fr: "bio_frame s t"
    unfolding t_def
    by (rule bio_frame_trans [OF bio_frame_lru bio_frame_trans [OF bio_frame_upd_buf bio_frame_wake]])
  have iok: "buf_ok (disk s) (bufs s ! i)" using s(4) assms(3) .
  have rd: "real_dev (b_dev (bufs s ! i))" using iok assms(4) by (auto simp: buf_ok_def split: if_splits)
  have "bio_ok t"
  proof (rule bio_ok_upd [OF assms(1) t(1)])
    show "set (lru t) = {..<NBUF}" using s(3) assms(3) by (auto simp: t(4))
    show "distinct (lru t)" using s(2) by (simp add: t(4) distinct_removeAll)
    show "buf_ok (disk t) ((bufs s ! i)\<lparr>b_busy := False\<rparr>)"
      using iok rd assms(5,6) t(2) by (auto simp: buf_ok_def)
    show "buf_ok (disk t) (bufs s ! j)" if "j < NBUF" for j using s(4) that t(2) by simp
    show "blk (bufs s ! j) \<noteq> blk ((bufs s ! i)\<lparr>b_busy := False\<rparr>)" if "j < NBUF" "j \<noteq> i" for j
    proof
      assume "blk (bufs s ! j) = blk ((bufs s ! i)\<lparr>b_busy := False\<rparr>)"
      with that assms(3) rd have "i = j" by (intro s(5)) simp_all
      with that show False by simp
    qed
  qed
  moreover have "cview t = cview s"
    by (rule cview_cong) (use t s(1) assms(3) in \<open>auto simp: nth_list_update\<close>)
  ultimately show ?thesis using r t fr by blast
qed

text \<open>The owner of a buffer changes its data.\<close>

definition set_data :: "nat \<Rightarrow> block \<Rightarrow> ('z disk_state_scheme, unit) kop" where
  "set_data i v = kmod (upd_buf i (\<lambda>b. b\<lparr>b_data := v\<rparr>))"

lemma busy_real:
  assumes "bio_ok s" and "i < NBUF" and "b_busy (bufs s ! i)"
  shows "real_dev (b_dev (bufs s ! i))" "b_blockno (bufs s ! i) < FSSIZE"
  using bio_ok_D(4) [OF assms(1,2)] assms(3) by (auto simp: buf_ok_def split: if_splits)

lemma blk_neq:
  assumes "bio_ok s" and "i < NBUF" and "j < NBUF" and "real_dev (b_dev (bufs s ! i))" and "j \<noteq> i"
    and "blk b = blk (bufs s ! i)"
  shows "blk (bufs s ! j) \<noteq> blk b"
proof
  assume "blk (bufs s ! j) = blk b"
  with assms have "i = j" by (intro bio_ok_D(5) [OF assms(1)]) simp_all
  with assms(5) show False by simp
qed

lemma set_data_spec:
  assumes "bio_ok s" and "quiet s" and "i < NBUF" and "b_busy (bufs s ! i)" and "b_valid (bufs s ! i)"
    and "blk (bufs s ! i) = (d, n)"
  shows "\<exists>t. set_data i v s = Done () t \<and> bio_ok t \<and> quiet t \<and> bio_frame s t \<and>
    bufs t = (bufs s)[i := (bufs s ! i)\<lparr>b_data := v\<rparr>] \<and>
    cview t = (cview s)(d := (cview s d)(n := v)) \<and> disk t = disk s \<and> dwrites t = dwrites s"
proof -
  note s = bio_ok_D [OF assms(1)]
  let ?b = "(bufs s ! i)\<lparr>b_data := v\<rparr>"
  define t where "t = upd_buf i (\<lambda>b. b\<lparr>b_data := v\<rparr>) s"
  have t: "bufs t = (bufs s)[i := ?b]" "disk t = disk s" "dwrites t = dwrites s" "lru t = lru s"
    "quiet t" "bio_frame s t" using assms(2) by (simp_all add: t_def)
  note rd = busy_real [OF assms(1,3,4)]
  have ok: "bio_ok t"
  proof (rule bio_ok_upd [OF assms(1) t(1)])
    show "blk (bufs s ! j) \<noteq> blk ?b" if "j < NBUF" "j \<noteq> i" for j
      using assms(1,3) that rd by (intro blk_neq [of s i]) simp_all
    show "buf_ok (disk t) ?b" using s(4) [OF assms(3)] rd assms(4) t(2) by (simp add: buf_ok_def)
  qed (use s t in simp_all)
  have "cview t d' n' = ((cview s)(d := (cview s d)(n := v))) d' n'" for d' n'
  proof (cases "(d', n') = (d, n)")
    case True
    then show ?thesis using cview_hit [OF ok assms(3), of d n] t assms s(1) rd by simp
  next
    case False
    moreover have "cview t d' n' = cview s d' n'"
      by (rule cview_other [OF t(1)]) (use t False assms(6) in auto)
    ultimately show ?thesis by auto
  qed
  then have "cview t = (cview s)(d := (cview s d)(n := v))" by (intro ext)
  with ok t show ?thesis by (simp add: set_data_def t_def)
qed

lemma bwrite_spec:
  assumes "bio_ok s" and "quiet s" and "i < NBUF" and "b_busy (bufs s ! i)" and "b_valid (bufs s ! i)"
    and "blk (bufs s ! i) = (d, n)" and "d = 0 \<or> havedisk1 s"
  shows "\<exists>t. bwrite i s = Done () t \<and> bio_ok t \<and> quiet t \<and> bio_frame s t \<and>
    bufs t = (bufs s)[i := (bufs s ! i)\<lparr>b_dirty := False\<rparr>] \<and>
    cview t = cview s \<and> disk t = (disk s)(d := (disk s d)(n := b_data (bufs s ! i))) \<and>
    dwrites t = dwrites s @ [(d, n, b_data (bufs s ! i))]"
proof -
  note s = bio_ok_D [OF assms(1)]
  note rd = busy_real [OF assms(1,3,4)]
  let ?b = "(bufs s ! i)\<lparr>b_dirty := False\<rparr>"
  define s1 where "s1 = upd_buf i (\<lambda>b. b\<lparr>b_dirty := True\<rparr>) s"
  define t where "t = wake_on (ChBuf i) (disk_sync i s1)"
  have s1: "quiet s1" "bio_frame s s1" "can_sync i s1"
    using assms s(1) rd by (simp_all add: s1_def can_sync_def synced_def)
  then have w: "bwrite i s = Done () t"
    using assms(4) iderw_exec [of s1 i] by (simp add: bwrite_def s1_def t_def)
  have t: "bufs t = (bufs s)[i := ?b]" "disk t = (disk s)(d := (disk s d)(n := b_data (bufs s ! i)))"
    "dwrites t = dwrites s @ [(d, n, b_data (bufs s ! i))]" "lru t = lru s" "quiet t"
    using assms s(1) rd
    by (cases "bufs s ! i"; simp add: t_def s1_def disk_sync_def Let_def drive_write_def quiet_def upd_buf_def)+
  have fr: "bio_frame s t"
    unfolding t_def by (rule bio_frame_trans [OF s1(2) bio_frame_trans [OF bio_frame_sync bio_frame_wake]])
  have nb: "blk (bufs s ! j) \<noteq> blk ?b" if "j < NBUF" "j \<noteq> i" for j
    using assms(1,3) that rd by (intro blk_neq [of s i]) simp_all
  have ok: "bio_ok t"
  proof (rule bio_ok_upd [OF assms(1) t(1)])
    show "buf_ok (disk t) ?b" using s(4) [OF assms(3)] rd assms(4) by (simp add: buf_ok_def)
    show "buf_ok (disk t) (bufs s ! j)" if "j < NBUF" "j \<noteq> i" for j
      using s(4) [OF that(1)] nb [OF that] assms(6) t(2) by (auto simp: buf_ok_def)
  qed (use nb s t in simp_all)
  have "cview t d' n' = cview s d' n'" for d' n'
  proof (cases "(d', n') = (d, n)")
    case True
    then show ?thesis
      using cview_hit [OF ok assms(3), of d n] cview_hit [OF assms(1,3,6,5)] t assms s(1) rd by simp
  next
    case False
    then show ?thesis by (intro cview_other [OF t(1)]) (use t(2) assms(6) in auto)
  qed
  then have "cview t = cview s" by (intro ext)
  with w ok t fr show ?thesis by blast
qed

section \<open>Specifications as weakest preconditions\<close>

lemma wp_bread:
  assumes "bio_ok s" and "quiet s" and "can_read d n s" and "\<And>i t. bread_post d n s i t \<Longrightarrow> Q i t"
  shows "wp (bread d n) Q s"
  using bread_spec [OF assms(1-3)] assms(4) by (auto simp: wp_iff)

text \<open>A cache in its initial state on an empty disk, for concrete instances.\<close>

definition boot_disk_state :: disk_state where
  "boot_disk_state = kmem_state.extend bare_kstate
     \<lparr>bufs = replicate NBUF \<lparr>b_busy = False, b_valid = False, b_dirty = False, b_dev = 0, b_blockno = 0,
        b_data = replicate BSIZE 0\<rparr>, lru = [], idequeue = [], havedisk1 = True,
      disk = (\<lambda>_ _. replicate BSIZE 0), dwrites = []\<rparr> \<lparr>curproc := Some 0\<rparr>"

lemma binit_boot:
  "\<exists>s. binit boot_disk_state = Done () s \<and> bio_ok s \<and> quiet s \<and> can_read 1 5 s"
  by (simp add: binit_def boot_disk_state_def kmem_state.defs bare_kstate_def bio_ok_def quiet_def
      can_read_def buf_ok_def NBUF_def FSSIZE_def atLeast0LessThan)
    (auto simp: exI [of _ 0])

section \<open>Properties\<close>

text \<open>C8: The buffer cache is transparent. When nobody holds the block's buffer and a
  buffer can be found for it, bread returns a locked buffer for the block with the latest
  contents of the block (a change still waiting for its commit included), it is the only
  buffer for that block, no block's contents change and nothing is written to disk; brelse
  then succeeds, wakes the waiters and again changes no block's contents.\<close>

theorem bcache_transparent:
  assumes "bio_ok s" and "quiet s" and "can_read d n s"
  shows "\<exists>i t u. bread d n s = Done i t \<and> b_busy (bufs t ! i) \<and> blk (bufs t ! i) = (d, n) \<and>
    b_data (bufs t ! i) = cview s d n \<and> (\<forall>j<NBUF. j = i \<or> blk (bufs t ! j) \<noteq> (d, n)) \<and>
    cview t = cview s \<and> disk t = disk s \<and> dwrites t = dwrites s \<and> held t = {} \<and>
    brelse i t = Done () u \<and> bio_ok u \<and> cview u = cview s \<and> disk u = disk s \<and> held u = {} \<and>
    can_read d n u"
proof -
  obtain i t where t: "bread d n s = Done i t" "bread_post d n s i t" using bread_spec [OF assms] by blast
  note p = bread_postD(1,2,4,8,9,10,12,3) [OF t(2)]
  obtain u where u: "brelse i t = Done () u" "bio_ok u" "quiet u" "bio_frame t u"
    "bufs u = (bufs t)[i := (bufs t ! i)\<lparr>b_busy := False\<rparr>]" "cview u = cview t" "disk u = disk t"
    using brelse_spec [OF p(1-5)] p(6,7) by auto
  have d: "real_dev d" using assms(3) by (simp add: can_read_def)
  have only: "j = i" if "j < NBUF" "blk (bufs t ! j) = (d, n)" for j
    using bio_ok_D(5) [OF p(1,3), of j] that p(6) d by simp
  have "havedisk1 u = havedisk1 s" using bio_frame_trans [OF p(8) u(4)] by (auto simp: bio_frame_def)
  moreover have "\<not> b_busy (bufs u ! j)" if "j < NBUF" "blk (bufs u ! j) = (d, n)" for j
  proof (cases "j = i")
    case True
    then show ?thesis using u(5) p(3) bio_ok_D(1) [OF p(1)] by simp
  next
    case False
    then have "bufs u ! j = bufs t ! j" using u(5) by simp
    with that have "j = i" by (intro only) simp_all
    with False show ?thesis by simp
  qed
  moreover have "blk (bufs u ! i) = (d, n)" using u(5) p(3,6) bio_ok_D(1) [OF p(1)] by simp
  ultimately have "can_read d n u" using assms(3) p(3) unfolding can_read_def by blast
  moreover have "held t = {}" "held u = {}" using p(2) u(3) by (simp_all add: quiet_def)
  moreover note same = bread_postD(11,14,15,16) [OF t(2)]
  moreover have "cview u = cview s" "disk u = disk s" using same u(6,7) by simp_all
  moreover have "\<forall>j<NBUF. j = i \<or> blk (bufs t ! j) \<noteq> (d, n)" using only by blast
  moreover note t(1) u(1,2) p(4,6)
  ultimately show ?thesis by (intro exI conjI)
qed

theorem bcache_transparent_witness:
  "\<exists>s i t. binit boot_disk_state = Done () s \<and> bread 1 5 s = Done i t \<and>
     b_busy (bufs t ! i) \<and> blk (bufs t ! i) = (1, 5)"
proof -
  obtain s where "binit boot_disk_state = Done () s" "bio_ok s" "quiet s" "can_read 1 5 s"
    using binit_boot by blast
  with bcache_transparent [of s 1 5] show ?thesis by blast
qed

end
