(* ===== verification/Layout.thy ===== *)
theory Layout
  imports Cstring
begin

text \<open>
  The on-disk format (\<^verbatim>\<open>src/fs.h\<close>): little-endian fields in blocks of bytes, the super block,
  on-disk inodes, directory entries and the log header (\<^verbatim>\<open>src/log.c\<close>), each with its
  decoding and encoding. The kernel overlays C structures on the block's bytes; the round
  trips below say what those overlays rely on.
\<close>

section \<open>Fields\<close>

definition rd16 :: "byte list \<Rightarrow> nat \<Rightarrow> ushort" where
  "rd16 v k = ucast (v ! k) OR push_bit 8 (ucast (v ! (k + 1)))"

definition wr16 :: "byte list \<Rightarrow> nat \<Rightarrow> ushort \<Rightarrow> byte list" where
  "wr16 v k w = v[k := ucast w, k + 1 := ucast (drop_bit 8 w)]"

definition rd32 :: "byte list \<Rightarrow> nat \<Rightarrow> uint" where
  "rd32 v k = ucast (v ! k) OR push_bit 8 (ucast (v ! (k + 1)))
     OR push_bit 16 (ucast (v ! (k + 2))) OR push_bit 24 (ucast (v ! (k + 3)))"

definition wr32 :: "byte list \<Rightarrow> nat \<Rightarrow> uint \<Rightarrow> byte list" where
  "wr32 v k w = v[k := ucast w, k + 1 := ucast (drop_bit 8 w),
     k + 2 := ucast (drop_bit 16 w), k + 3 := ucast (drop_bit 24 w)]"

text \<open>An array of 32-bit words at offset \<open>k\<close>.\<close>

definition rd32s :: "byte list \<Rightarrow> nat \<Rightarrow> nat \<Rightarrow> uint list" where
  "rd32s v k n = map (\<lambda>i. rd32 v (k + 4 * i)) [0..<n]"

fun wr32s :: "byte list \<Rightarrow> nat \<Rightarrow> uint list \<Rightarrow> byte list" where
  "wr32s v k [] = v"
| "wr32s v k (w # ws) = wr32s (wr32 v k w) (k + 4) ws"

section \<open>Structures\<close>

definition NDIRECT :: nat where "NDIRECT = 12"
definition NINDIRECT :: nat where "NINDIRECT = 128"
definition MAXFILE :: nat where "MAXFILE = NDIRECT + NINDIRECT"
definition IPB :: nat where "IPB = 8"
definition BPB :: nat where "BPB = 4096"
definition DIRSIZ :: nat where "DIRSIZ = 14"
definition ROOTINO :: uint where "ROOTINO = 1"
definition T_DIR :: ushort where "T_DIR = 1"
definition T_FILE :: ushort where "T_FILE = 2"
definition T_DEV :: ushort where "T_DEV = 3"

record superblock =
  sb_size :: uint
  sb_nblocks :: uint
  sb_ninodes :: uint
  sb_nlog :: uint
  sb_logstart :: uint
  sb_inodestart :: uint
  sb_bmapstart :: uint

definition get_sb :: "byte list \<Rightarrow> superblock" where
  "get_sb v = \<lparr>sb_size = rd32 v 0, sb_nblocks = rd32 v 4, sb_ninodes = rd32 v 8, sb_nlog = rd32 v 12,
     sb_logstart = rd32 v 16, sb_inodestart = rd32 v 20, sb_bmapstart = rd32 v 24\<rparr>"

definition put_sb :: "byte list \<Rightarrow> superblock \<Rightarrow> byte list" where
  "put_sb v b = wr32s v 0 [sb_size b, sb_nblocks b, sb_ninodes b, sb_nlog b, sb_logstart b,
     sb_inodestart b, sb_bmapstart b]"

definition IBLOCK :: "uint \<Rightarrow> superblock \<Rightarrow> uint" where
  "IBLOCK i b = i div of_nat IPB + sb_inodestart b"

definition BBLOCK :: "uint \<Rightarrow> superblock \<Rightarrow> uint" where
  "BBLOCK b s = b div of_nat BPB + sb_bmapstart s"

record dinode =
  di_type :: ushort
  di_major :: ushort
  di_minor :: ushort
  di_nlink :: ushort
  di_size :: uint
  di_addrs :: "uint list"

text \<open>\<open>(struct dinode*)bp->data + k\<close>, a structure of 64 bytes.\<close>

definition get_dinode :: "byte list \<Rightarrow> nat \<Rightarrow> dinode" where
  "get_dinode v k = (let o' = 64 * k in
     \<lparr>di_type = rd16 v o', di_major = rd16 v (o' + 2), di_minor = rd16 v (o' + 4),
      di_nlink = rd16 v (o' + 6), di_size = rd32 v (o' + 8), di_addrs = rd32s v (o' + 12) 13\<rparr>)"

definition put_dinode :: "byte list \<Rightarrow> nat \<Rightarrow> dinode \<Rightarrow> byte list" where
  "put_dinode v k d = (let o' = 64 * k in
     wr32s (wr32 (wr16 (wr16 (wr16 (wr16 v o' (di_type d)) (o' + 2) (di_major d)) (o' + 4) (di_minor d))
       (o' + 6) (di_nlink d)) (o' + 8) (di_size d)) (o' + 12) (di_addrs d))"

definition zero_dinode :: dinode where
  "zero_dinode = \<lparr>di_type = 0, di_major = 0, di_minor = 0, di_nlink = 0, di_size = 0,
     di_addrs = replicate 13 0\<rparr>"

record dirent =
  de_inum :: ushort
  de_name :: "byte list"

definition get_dirent :: "byte list \<Rightarrow> dirent" where
  "get_dirent v = \<lparr>de_inum = rd16 v 0, de_name = take DIRSIZ (drop 2 v)\<rparr>"

definition put_dirent :: "dirent \<Rightarrow> byte list" where
  "put_dirent d = [ucast (de_inum d), ucast (drop_bit 8 (de_inum d))] @ de_name d"

section \<open>Round trips\<close>

lemma length_wr [simp]:
  "length (wr16 v k w) = length v" "length (wr32 v k w32) = length v" "length (wr32s v k ws) = length v"
  by (simp_all add: wr16_def wr32_def) (induction ws arbitrary: v k; simp add: wr32_def)

lemma word_of_2bytes: "(ucast (ucast w :: byte) :: ushort) OR push_bit 8 (ucast (ucast (drop_bit 8 w) :: byte)) = w"
proof (rule bit_word_eqI)
  fix n assume n: "n < LENGTH(16)"
  consider "n < 8" | "8 \<le> n" "n < 16" using n by fastforce
  then show "bit ((ucast (ucast w :: byte) :: ushort) OR push_bit 8 (ucast (ucast (drop_bit 8 w) :: byte))) n = bit w n"
    by cases (auto simp: bit_simps)
qed

lemma rd16_wr16 [simp]: "k + 1 < length v \<Longrightarrow> rd16 (wr16 v k w) k = w"
  using word_of_2bytes [of w] by (simp add: rd16_def wr16_def)

lemma rd32_wr32 [simp]: "k + 3 < length v \<Longrightarrow> rd32 (wr32 v k w) k = w"
  using word_of_bytes [of w] by (simp add: rd32_def wr32_def)

text \<open>A field does not see writes to other offsets.\<close>

lemma nth_wr [simp]:
  "j < k \<or> k + 2 \<le> j \<Longrightarrow> wr16 v k w ! j = v ! j"
  "j < k \<or> k + 4 \<le> j \<Longrightarrow> wr32 v k w32 ! j = v ! j"
  by (auto simp: wr16_def wr32_def nth_list_update)

lemma nth_wr32s [simp]: "j < k \<or> k + 4 * length ws \<le> j \<Longrightarrow> wr32s v k ws ! j = v ! j"
  by (induction ws arbitrary: v k) auto

lemma rd_cong:
  "(\<And>j. k \<le> j \<Longrightarrow> j < k + 2 \<Longrightarrow> v ! j = v' ! j) \<Longrightarrow> rd16 v k = rd16 v' k"
  "(\<And>j. k \<le> j \<Longrightarrow> j < k + 4 \<Longrightarrow> v ! j = v' ! j) \<Longrightarrow> rd32 v k = rd32 v' k"
  by (simp_all add: rd16_def rd32_def)

lemma rd_other [simp]:
  "i + 2 \<le> k \<or> k + 2 \<le> i \<Longrightarrow> rd16 (wr16 v k w) i = rd16 v i"
  "i + 2 \<le> k \<or> k + 4 \<le> i \<Longrightarrow> rd16 (wr32 v k w32) i = rd16 v i"
  "i + 2 \<le> k \<or> k + 4 * length ws \<le> i \<Longrightarrow> rd16 (wr32s v k ws) i = rd16 v i"
  "i + 4 \<le> k \<or> k + 2 \<le> i \<Longrightarrow> rd32 (wr16 v k w) i = rd32 v i"
  "i + 4 \<le> k \<or> k + 4 \<le> i \<Longrightarrow> rd32 (wr32 v k w32) i = rd32 v i"
  "i + 4 \<le> k \<or> k + 4 * length ws \<le> i \<Longrightarrow> rd32 (wr32s v k ws) i = rd32 v i"
  by (rule rd_cong, auto)+

lemma rd32_wr32s:
  "i < length ws \<Longrightarrow> k + 4 * length ws \<le> length v \<Longrightarrow> rd32 (wr32s v k ws) (k + 4 * i) = ws ! i"
proof (induction ws arbitrary: v k i)
  case (Cons w ws)
  show ?case
  proof (cases i)
    case 0
    then show ?thesis using Cons.prems by simp
  next
    case (Suc j)
    then show ?thesis using Cons.prems Cons.IH [of j "k + 4" "wr32 v k w"] by (simp add: ac_simps)
  qed
qed simp

lemma rd32s_wr32s [simp]:
  "n = length ws \<Longrightarrow> k + 4 * length ws \<le> length v \<Longrightarrow> rd32s (wr32s v k ws) k n = ws"
  by (rule nth_equalityI) (simp_all add: rd32s_def rd32_wr32s)

lemma rd32s_other [simp]:
  "i + 4 * n \<le> k \<or> k + 4 * length ws \<le> i \<Longrightarrow> rd32s (wr32s v k ws) i n = rd32s v i n"
  "i + 4 * n \<le> k \<or> k + 4 \<le> i \<Longrightarrow> rd32s (wr32 v k w32) i n = rd32s v i n"
  "i + 4 * n \<le> k \<or> k + 2 \<le> i \<Longrightarrow> rd32s (wr16 v k w) i n = rd32s v i n"
  by (auto simp: rd32s_def)

lemma get_put_sb: "28 \<le> length v \<Longrightarrow> get_sb (put_sb v b) = b"
  using rd32_wr32s [of _ "[sb_size b, sb_nblocks b, sb_ninodes b, sb_nlog b, sb_logstart b,
     sb_inodestart b, sb_bmapstart b]" 0 v]
  by (simp add: get_sb_def put_sb_def numeral_eq_Suc) 

lemma get_put_dinode:
  "64 * k + 64 \<le> length v \<Longrightarrow> length (di_addrs d) = 13 \<Longrightarrow> get_dinode (put_dinode v k d) k = d"
  by (simp add: get_dinode_def put_dinode_def Let_def)

lemma get_put_dinode_other:
  assumes "j \<noteq> k" and "length (di_addrs d) = 13"
  shows "get_dinode (put_dinode v k d) j = get_dinode v j"
proof -
  consider "64 * j + 64 \<le> 64 * k" | "64 * k + 64 \<le> 64 * j" using assms(1) by arith
  then show ?thesis using assms(2) by cases (simp_all add: get_dinode_def put_dinode_def Let_def)
qed

lemma length_put_dinode [simp]: "length (put_dinode v k d) = length v"
  by (simp add: put_dinode_def Let_def)

lemma get_put_dirent: "length (de_name d) = DIRSIZ \<Longrightarrow> get_dirent (put_dirent d) = d"
  using word_of_2bytes [of "de_inum d"] by (simp add: get_dirent_def put_dirent_def rd16_def DIRSIZ_def)

end
