(* ===== verification/Log.thy ===== *)
theory Log
  imports Bio Layout
begin

text \<open>
  The write-ahead log (\<^verbatim>\<open>src/log.c\<close>): transactions of file system calls, commit and recovery.
  The main result is crash atomicity: stop the disk after any number of the block
  writes of a commit, and recovery leaves either the contents from before the
  transaction or those from after it.
\<close>

section \<open>Definitions\<close>

definition MAXOPBLOCKS :: int where "MAXOPBLOCKS = 10"
definition LOGSIZE :: int where "LOGSIZE = MAXOPBLOCKS * 3"

record log_state = disk_state +
  log_start :: uint
  log_size :: int
  log_outstanding :: int
  log_committing :: bool
  log_dev :: uint
  lh_n :: int
  lh_block :: "uint list"

text \<open>\<open>readsb\<close> of \<^verbatim>\<open>src/fs.c\<close>, which \<open>initlog\<close> calls.\<close>

definition readsb :: "uint \<Rightarrow> ('z disk_state_scheme, superblock) kop" where
  "readsb dev = kbind (bread dev 1) (\<lambda>bp.
     kbind (kget (\<lambda>s. get_sb (b_data (bufs s ! bp)))) (\<lambda>sb.
     kseq (brelse bp) (kret sb)))"

text \<open>The block numbers in the on-disk header \<open>v\<close>, and the header after storing \<open>ns\<close>.\<close>

definition head_blocks :: "block \<Rightarrow> uint list" where
  "head_blocks v = rd32s v 4 (nat (sint (rd32 v 0)))"

definition put_head :: "block \<Rightarrow> int \<Rightarrow> uint list \<Rightarrow> block" where
  "put_head v n ns = wr32s (wr32 v 0 (word_of_int n)) 4 (take (nat n) ns)"

definition install_one :: "nat \<Rightarrow> ('z log_state_scheme, unit) kop" where
  "install_one tail =
     kbind (\<lambda>s. bread (log_dev s) (log_start s + of_nat tail + 1) s) (\<lambda>lbuf.
     kbind (\<lambda>s. bread (log_dev s) (lh_block s ! tail) s) (\<lambda>dbuf.
     kseq (\<lambda>s. set_data dbuf (b_data (bufs s ! lbuf)) s)
     (kseq (bwrite dbuf)
     (kseq (brelse lbuf)
     (brelse dbuf)))))"

definition install_trans :: "('z log_state_scheme, unit) kop" where
  "install_trans = kbind (kget lh_n) (\<lambda>n. kfor [0..<nat n] install_one)"

definition read_head :: "('z log_state_scheme, unit) kop" where
  "read_head = kbind (\<lambda>s. bread (log_dev s) (log_start s) s) (\<lambda>buf.
     kseq (kmod (\<lambda>s. let v = b_data (bufs s ! buf); ns = head_blocks v in
        s\<lparr>lh_n := sint (rd32 v 0), lh_block := ns @ drop (length ns) (lh_block s)\<rparr>))
     (brelse buf))"

definition write_head :: "('z log_state_scheme, unit) kop" where
  "write_head = kbind (\<lambda>s. bread (log_dev s) (log_start s) s) (\<lambda>buf.
     kseq (\<lambda>s. set_data buf (put_head (b_data (bufs s ! buf)) (lh_n s) (lh_block s)) s)
     (kseq (bwrite buf)
     (brelse buf)))"

definition recover_from_log :: "('z log_state_scheme, unit) kop" where
  "recover_from_log = kseq read_head
     (kseq install_trans
     (kseq (kmod (\<lambda>s. s\<lparr>lh_n := 0\<rparr>))
     write_head))"

text \<open>\<open>sizeof(struct logheader)\<close> is 4 * (1 + LOGSIZE), less than a block.\<close>

definition initlog :: "uint \<Rightarrow> ('z log_state_scheme, unit) kop" where
  "initlog dev = kseq (kpanic_if (\<lambda>s. BSIZE \<le> 4 * (1 + nat LOGSIZE)) ''initlog: too big logheader'')
     (kbind (readsb dev) (\<lambda>sb.
     kseq (kmod (\<lambda>s. s\<lparr>log_start := sb_logstart sb, log_size := sint (sb_nlog sb), log_dev := dev\<rparr>))
     recover_from_log))"

text \<open>\<open>begin_op\<close>; a process that must wait sleeps, and starts the loop again with the lock held.\<close>

definition begin_op_loop :: "('z log_state_scheme, unit) kop" where
  "begin_op_loop s =
     (if log_committing s then sleep ChLog LkLog s
      else if lh_n s + (log_outstanding s + 1) * MAXOPBLOCKS > LOGSIZE then sleep ChLog LkLog s
      else kseq (kmod (\<lambda>s. s\<lparr>log_outstanding := log_outstanding s + 1\<rparr>)) (lk_release LkLog) s)"

definition begin_op :: "('z log_state_scheme, unit) kop" where
  "begin_op = kseq (lk_acquire LkLog) begin_op_loop"

definition begin_op_resume :: "('z log_state_scheme, unit) kop" where
  "begin_op_resume = kseq (sleep_resume LkLog) begin_op_loop"

definition write_one :: "nat \<Rightarrow> ('z log_state_scheme, unit) kop" where
  "write_one tail =
     kbind (\<lambda>s. bread (log_dev s) (log_start s + of_nat tail + 1) s) (\<lambda>to.
     kbind (\<lambda>s. bread (log_dev s) (lh_block s ! tail) s) (\<lambda>from.
     kseq (\<lambda>s. set_data to (b_data (bufs s ! from)) s)
     (kseq (bwrite to)
     (kseq (brelse from)
     (brelse to)))))"

definition write_log :: "('z log_state_scheme, unit) kop" where
  "write_log = kbind (kget lh_n) (\<lambda>n. kfor [0..<nat n] write_one)"

definition commit :: "('z log_state_scheme, unit) kop" where
  "commit s = (if lh_n s > 0
     then kseq write_log
       (kseq write_head
       (kseq install_trans
       (kseq (kmod (\<lambda>s. s\<lparr>lh_n := 0\<rparr>))
       write_head))) s
     else Done () s)"

definition end_op :: "('z log_state_scheme, unit) kop" where
  "end_op = kseq (lk_acquire LkLog)
     (kseq (kmod (\<lambda>s. s\<lparr>log_outstanding := log_outstanding s - 1\<rparr>))
     (kseq (kpanic_if log_committing ''log.committing'')
     (kbind (kget (\<lambda>s. log_outstanding s = 0)) (\<lambda>do_commit.
     kseq (if do_commit then kmod (\<lambda>s. s\<lparr>log_committing := True\<rparr>) else wakeup ChLog)
     (kseq (lk_release LkLog)
     (if do_commit
      then kseq commit
        (kseq (lk_acquire LkLog)
        (kseq (kmod (\<lambda>s. s\<lparr>log_committing := False\<rparr>))
        (kseq (wakeup ChLog)
        (lk_release LkLog))))
      else kret ()))))))"

text \<open>The index at which \<open>log_write\<close> records the block: where it is already, or the end.\<close>

definition log_slot :: "uint \<Rightarrow> 'z log_state_scheme \<Rightarrow> nat" where
  "log_slot bno s = (case find (\<lambda>i. lh_block s ! i = bno) [0..<nat (lh_n s)] of
     Some i \<Rightarrow> i | None \<Rightarrow> nat (lh_n s))"

definition log_write :: "nat \<Rightarrow> ('z log_state_scheme, unit) kop" where
  "log_write b = kseq (kpanic_if (\<lambda>s. lh_n s \<ge> LOGSIZE \<or> lh_n s \<ge> log_size s - 1) ''too big a transaction'')
     (kseq (kpanic_if (\<lambda>s. log_outstanding s < 1) ''log_write outside of trans'')
     (kseq (lk_acquire LkLog)
     (kseq (kmod (\<lambda>s. let bno = b_blockno (bufs s ! b); i = log_slot bno s in
        s\<lparr>lh_block := (lh_block s)[i := bno],
          lh_n := (if int i = lh_n s then lh_n s + 1 else lh_n s)\<rparr>))
     (kseq (kmod (upd_buf b (\<lambda>x. x\<lparr>b_dirty := True\<rparr>)))
     (lk_release LkLog)))))"

section \<open>Block contents and pins\<close>

definition put_blk :: "uint \<Rightarrow> uint \<Rightarrow> block \<Rightarrow> store \<Rightarrow> store" where
  "put_blk d n v f = f(d := (f d)(n := v))"

definition apply_writes :: "(uint \<times> uint \<times> block) list \<Rightarrow> store \<Rightarrow> store" where
  "apply_writes ws f = fold (\<lambda>(d, n, v). put_blk d n v) ws f"

definition nobusy :: "'z disk_state_scheme \<Rightarrow> bool" where
  "nobusy s \<longleftrightarrow> (\<forall>i<NBUF. \<not> b_busy (bufs s ! i))"

definition pinned :: "'z disk_state_scheme \<Rightarrow> (uint \<times> uint) set" where
  "pinned s = {x. \<exists>i<NBUF. b_dirty (bufs s ! i) \<and> x = blk (bufs s ! i)}"

definition spare :: "'z disk_state_scheme \<Rightarrow> nat set" where
  "spare s = {i. i < NBUF \<and> \<not> b_busy (bufs s ! i) \<and> \<not> b_dirty (bufs s ! i)}"

lemma put_blk_same [simp]: "put_blk d n v f d n = v"
  by (simp add: put_blk_def)

lemma put_blk_other [simp]: "d' \<noteq> d \<or> n' \<noteq> n \<Longrightarrow> put_blk d n v f d' n' = f d' n'"
  by (auto simp: put_blk_def)

lemma put_blk_fold: "f(d := (f d)(n := v)) = put_blk d n v f"
  by (simp add: put_blk_def)

lemma apply_writes_simps [simp]:
  "apply_writes [] f = f"
  "apply_writes ((d, n, v) # ws) f = apply_writes ws (put_blk d n v f)"
  "apply_writes (ws @ ws') f = apply_writes ws' (apply_writes ws f)"
  by (simp_all add: apply_writes_def)

text \<open>What a clean cache shows of a block that is not pinned is the disk.\<close>

lemma cview_unpinned:
  assumes "bio_ok s" and "nobusy s" and "(d, n) \<notin> pinned s" and "real_dev d"
  shows "cview s d n = disk s d n"
proof (cases "\<exists>i<NBUF. blk (bufs s ! i) = (d, n) \<and> b_valid (bufs s ! i)")
  case True
  then obtain i where i: "i < NBUF" "blk (bufs s ! i) = (d, n)" "b_valid (bufs s ! i)" by blast
  then have "\<not> b_dirty (bufs s ! i)" "\<not> b_busy (bufs s ! i)"
    using assms(2,3) by (auto simp: pinned_def nobusy_def)
  with i assms(4) bio_ok_D(4) [OF assms(1) i(1)] have "b_data (bufs s ! i) = disk s d n"
    by (auto simp: buf_ok_def)
  then show ?thesis using cview_hit [OF assms(1) i assms(4)] by simp
next
  case False
  then show ?thesis using bio_ok_D(1) [OF assms(1)] by (intro cview_miss) auto
qed

text \<open>A pinned block is cached in a dirty buffer.\<close>

lemma pinned_obtain:
  assumes "x \<in> pinned s"
  obtains i where "i < NBUF" "b_dirty (bufs s ! i)" "blk (bufs s ! i) = x"
  using assms by (auto simp: pinned_def)

definition owns :: "'z disk_state_scheme \<Rightarrow> nat \<Rightarrow> uint \<Rightarrow> uint \<Rightarrow> block \<Rightarrow> bool" where
  "owns s i d n v \<longleftrightarrow> i < NBUF \<and> blk (bufs s ! i) = (d, n) \<and> b_busy (bufs s ! i) \<and>
     b_valid (bufs s ! i) \<and> b_data (bufs s ! i) = v"

text \<open>The disk holds what a buffer that is not dirty holds.\<close>

definition settled :: "'z disk_state_scheme \<Rightarrow> nat \<Rightarrow> bool" where
  "settled s i \<longleftrightarrow> b_dirty (bufs s ! i) \<or>
     b_data (bufs s ! i) = disk s (b_dev (bufs s ! i)) (b_blockno (bufs s ! i))"

definition cache_same :: "'z disk_state_scheme \<Rightarrow> 'z disk_state_scheme \<Rightarrow> bool" where
  "cache_same s t \<longleftrightarrow> bio_ok t \<and> quiet t \<and> bio_frame s t \<and> cview t = cview s \<and> disk t = disk s \<and>
     dwrites t = dwrites s \<and> pinned t = pinned s"

lemma pinned_eqI:
  assumes "\<And>j. j < NBUF \<Longrightarrow> j \<noteq> i \<Longrightarrow> bufs t ! j = bufs s ! j"
    and "b_dirty (bufs t ! i) = b_dirty (bufs s ! i)"
    and "b_dirty (bufs s ! i) \<Longrightarrow> blk (bufs t ! i) = blk (bufs s ! i)"
  shows "pinned t = pinned s"
  using assms unfolding pinned_def by (intro Collect_cong) metis

lemma bread_post_pinned:
  assumes "bio_ok s" and "bread_post d n s i t"
  shows "pinned t = pinned s"
  using bread_postD(6,7,10,13) [OF assms(2)] by (intro pinned_eqI [of i]) simp_all

lemma bread_post_same: "bio_ok s \<Longrightarrow> bread_post d n s i t \<Longrightarrow> cache_same s t"
  using bread_post_pinned [of s d n i t] bread_postD(1-3,14-16) [of d n s i t]
  unfolding cache_same_def by simp

lemma bread_post_owns:
  assumes "bread_post d n s i t"
  shows "owns t i d n (cview s d n)" "settled t i"
  using bread_postD(4,8-12) [OF assms] unfolding owns_def settled_def by simp_all

lemma cache_sameD:
  assumes "cache_same s t"
  shows "bio_ok t" "quiet t" "bio_frame s t" "cview t = cview s" "disk t = disk s" "dwrites t = dwrites s"
    "pinned t = pinned s"
  using assms by (simp_all add: cache_same_def)

lemma cache_same_trans: "cache_same s t \<Longrightarrow> cache_same t u \<Longrightarrow> cache_same s u"
  using bio_frame_trans [of s t u] by (simp add: cache_same_def)

lemma bio_frame_havedisk1: "bio_frame s t \<Longrightarrow> havedisk1 t = havedisk1 s"
  by (auto simp: bio_frame_def)

text \<open>Reading two blocks with no buffer in use.\<close>

lemma two_reads:
  assumes "bio_ok s" and "quiet s" and "nobusy s" and "real_dev d" and "d = 0 \<or> havedisk1 s"
    and "a < FSSIZE" and "b < FSSIZE" and "a \<noteq> b" and "spare s \<noteq> {}"
    and "(d, b) \<in> pinned s \<or> (\<forall>i. \<exists>k \<in> spare s. k \<noteq> i)"
  shows "\<exists>i j t u. bread d a s = Done i t \<and> bread d b t = Done j u \<and> cache_same s t \<and> cache_same s u \<and> i \<noteq> j \<and>
    owns u i d a (cview s d a) \<and> owns u j d b (cview s d b) \<and> settled u i \<and> settled u j \<and>
    (\<forall>k<NBUF. k \<noteq> i \<longrightarrow> k \<noteq> j \<longrightarrow> \<not> b_busy (bufs u ! k))"
proof -
  have "can_read d a s" using assms unfolding can_read_def nobusy_def spare_def by blast
  from bread_spec [OF assms(1,2) this] obtain i t where
    t: "bread d a s = Done i t" "bread_post d a s i t" by blast
  note st = bread_post_same [OF assms(1) t(2)]
  note ok = cache_sameD(1,2) [OF st]
  note i = bread_postD(4,8,10) [OF t(2)]
  note rest = bread_postD(13) [OF t(2)]
  have free: "\<not> b_busy (bufs t ! k)" if "k < NBUF" "k \<noteq> i" for k
    using rest [OF that(2)] assms(3) that by (simp add: nobusy_def)
  have "havedisk1 t = havedisk1 s" using bio_frame_havedisk1 [OF cache_sameD(3) [OF st]] .
  moreover have "\<exists>k<NBUF. blk (bufs t ! k) = (d, b) \<or> \<not> b_busy (bufs t ! k) \<and> \<not> b_dirty (bufs t ! k)"
    using assms(10)
  proof
    assume "(d, b) \<in> pinned s"
    then have "(d, b) \<in> pinned t" using st by (simp add: cache_same_def)
    then show ?thesis by (auto elim!: pinned_obtain)
  next
    assume "\<forall>i. \<exists>k \<in> spare s. k \<noteq> i"
    then obtain k where "k \<in> spare s" "k \<noteq> i" by blast
    then show ?thesis using rest [of k] free [of k] by (auto simp: spare_def)
  qed
  moreover have "\<not> b_busy (bufs t ! k)" if "k < NBUF" "blk (bufs t ! k) = (d, b)" for k
    using free [OF that(1)] that(2) i(3) assms(8) by (cases "k = i") auto
  ultimately have "can_read d b t" using assms(4,5,7) unfolding can_read_def by blast
  from bread_spec [OF ok this] obtain j u where
    u: "bread d b t = Done j u" "bread_post d b t j u" by blast
  note tu = bread_post_same [OF ok(1) u(2)]
  have "j \<noteq> i" using bread_postD(5) [OF u(2)] i(2) by auto
  then have ui: "bufs u ! i = bufs t ! i" using bread_postD(13) [OF u(2)] by simp
  have dk: "disk u = disk t" "cview t = cview s" using cache_sameD [OF st] cache_sameD [OF tu] by simp_all
  have "owns u i d a (cview s d a)" "settled u i"
    using bread_post_owns [OF t(2)] ui dk by (simp_all add: owns_def settled_def)
  moreover have "owns u j d b (cview s d b)" "settled u j"
    using bread_post_owns [OF u(2)] dk by simp_all
  moreover have "\<not> b_busy (bufs u ! k)" if "k < NBUF" "k \<noteq> i" "k \<noteq> j" for k
    using bread_postD(13) [OF u(2), of k] that free [of k] by simp
  moreover note cache_same_trans [OF st tu] st t(1) u(1) not_sym [OF \<open>j \<noteq> i\<close>]
  ultimately show ?thesis by (intro exI conjI allI impI)
qed

text \<open>
  The common part of \<open>write_one\<close> and \<open>install_one\<close>: copy the buffer \<open>j\<close> into \<open>i\<close>, write \<open>i\<close>,
  release both.
\<close>

definition copy_out :: "nat \<Rightarrow> nat \<Rightarrow> ('z disk_state_scheme, unit) kop" where
  "copy_out i j = kseq (\<lambda>s. set_data i (b_data (bufs s ! j)) s)
     (kseq (bwrite i) (kseq (brelse j) (brelse i)))"

lemma bio_ok_length: "bio_ok s \<Longrightarrow> length (bufs s) = NBUF"
  by (rule bio_ok_D(1))

lemma pinned_clear:
  assumes "bio_ok s" and "i < NBUF" and "blk (bufs s ! i) = x" and "real_dev (fst x)"
    and "\<not> b_dirty (bufs t ! i)"
    and "\<And>k. k < NBUF \<Longrightarrow> k \<noteq> i \<Longrightarrow> b_dirty (bufs t ! k) = b_dirty (bufs s ! k) \<and> blk (bufs t ! k) = blk (bufs s ! k)"
  shows "pinned t = pinned s - {x}"
proof (intro set_eqI iffI)
  fix y assume "y \<in> pinned t"
  then obtain k where k: "k < NBUF" "b_dirty (bufs t ! k)" "blk (bufs t ! k) = y" by (rule pinned_obtain)
  with assms(5) have "k \<noteq> i" by auto
  with k assms(6) have s: "b_dirty (bufs s ! k)" "blk (bufs s ! k) = y" by simp_all
  have "y \<noteq> x"
  proof
    assume "y = x"
    with s assms have "i = k" by (intro bio_ok_D(5) [OF assms(1,2) k(1)]) auto
    with \<open>k \<noteq> i\<close> show False by simp
  qed
  with k(1) s show "y \<in> pinned s - {x}" by (auto simp: pinned_def)
next
  fix y assume y: "y \<in> pinned s - {x}"
  then obtain k where k: "k < NBUF" "b_dirty (bufs s ! k)" "blk (bufs s ! k) = y" by (auto elim: pinned_obtain)
  with y assms(3) have "k \<noteq> i" by auto
  with k assms(6) show "y \<in> pinned t" by (auto simp: pinned_def intro!: exI [of _ k])
qed

lemma copy_out_spec:
  assumes "bio_ok s" and "quiet s" and "owns s i d a va" and "owns s j d b vb" and "i \<noteq> j" and "a \<noteq> b"
    and "settled s j" and "d = 0 \<or> havedisk1 s"
    and "\<forall>k<NBUF. k \<noteq> i \<longrightarrow> k \<noteq> j \<longrightarrow> \<not> b_busy (bufs s ! k)"
  shows "\<exists>t. copy_out i j s = Done () t \<and> bio_ok t \<and> quiet t \<and> bio_frame s t \<and> nobusy t \<and>
    cview t = put_blk d a vb (cview s) \<and> disk t = put_blk d a vb (disk s) \<and>
    dwrites t = dwrites s @ [(d, a, vb)] \<and> pinned t = pinned s - {(d, a)}"
proof -
  have i: "i < NBUF" "blk (bufs s ! i) = (d, a)" "b_busy (bufs s ! i)" "b_valid (bufs s ! i)"
    and j: "j < NBUF" "blk (bufs s ! j) = (d, b)" "b_busy (bufs s ! j)" "b_valid (bufs s ! j)" "b_data (bufs s ! j) = vb"
    using assms(3,4) by (simp_all add: owns_def)
  have rd: "real_dev d" using busy_real [OF assms(1) i(1,3)] i(2) by simp
  note len = bio_ok_length [OF assms(1)]
  obtain s1 where s1: "set_data i vb s = Done () s1" "bio_ok s1" "quiet s1" "bio_frame s s1"
    "bufs s1 = (bufs s)[i := (bufs s ! i)\<lparr>b_data := vb\<rparr>]" "cview s1 = put_blk d a vb (cview s)"
    "disk s1 = disk s" "dwrites s1 = dwrites s"
    using set_data_spec [OF assms(1,2) i(1,3,4,2), of vb] unfolding put_blk_fold by blast
  obtain s2 where s2: "bwrite i s1 = Done () s2" "bio_ok s2" "quiet s2" "bio_frame s1 s2"
    "bufs s2 = (bufs s1)[i := (bufs s1 ! i)\<lparr>b_dirty := False\<rparr>]" "cview s2 = cview s1"
    "disk s2 = put_blk d a vb (disk s)" "dwrites s2 = dwrites s @ [(d, a, vb)]"
    using bwrite_spec [OF s1(2,3) i(1), of d a] i s1(5,7,8) len assms(8) bio_frame_havedisk1 [OF s1(4)]
    unfolding put_blk_fold by auto
  have j2: "bufs s2 ! j = bufs s ! j" using s1(5) s2(5) assms(5) by simp
  obtain s3 where s3: "brelse j s2 = Done () s3" "bio_ok s3" "quiet s3" "bio_frame s2 s3"
    "bufs s3 = (bufs s2)[j := (bufs s2 ! j)\<lparr>b_busy := False\<rparr>]" "cview s3 = cview s2"
    "disk s3 = disk s2" "dwrites s3 = dwrites s2"
    using brelse_spec [OF s2(2,3) j(1)] j j2 assms(6,7) s2(7) by (auto simp: settled_def)
  have i3: "bufs s3 ! i = (bufs s ! i)\<lparr>b_data := vb, b_dirty := False\<rparr>"
    using s1(5) s2(5) s3(5) i(1) len assms(5) by simp
  obtain t where t: "brelse i s3 = Done () t" "bio_ok t" "quiet t" "bio_frame s3 t"
    "bufs t = (bufs s3)[i := (bufs s3 ! i)\<lparr>b_busy := False\<rparr>]" "cview t = cview s3"
    "disk t = disk s3" "dwrites t = dwrites s3"
    using brelse_spec [OF s3(2,3) i(1)] i i3 s2(7) s3(7) by auto
  have ex: "copy_out i j s = Done () t"
    using s1(1) s2(1) s3(1) t(1) j(5) by (simp add: copy_out_def)
  have fr: "bio_frame s t"
    using bio_frame_trans [OF bio_frame_trans [OF s1(4) s2(4)] bio_frame_trans [OF s3(4) t(4)]] .
  have bk: "bufs t ! k = bufs s ! k" if "k \<noteq> i" "k \<noteq> j" for k
    using that s1(5) s2(5) s3(5) t(5) by simp
  have bi: "bufs t ! i = (bufs s ! i)\<lparr>b_data := vb, b_dirty := False, b_busy := False\<rparr>"
    using t(5) i3 i(1) len bio_ok_length [OF s3(2)] by simp
  have bj: "bufs t ! j = (bufs s ! j)\<lparr>b_busy := False\<rparr>"
    using t(5) s3(5) j2 j(1) assms(5) bio_ok_length [OF s2(2)] by simp
  have nb: "nobusy t"
    unfolding nobusy_def
  proof (intro allI impI)
    fix k assume "k < NBUF"
    then show "\<not> b_busy (bufs t ! k)"
      using assms(9) bk bi bj by (cases "k = i"; cases "k = j") simp_all
  qed
  have "pinned t = pinned s - {(d, a)}"
  proof (rule pinned_clear [OF assms(1) i(1,2)])
    fix k assume "k \<noteq> i"
    then show "b_dirty (bufs t ! k) = b_dirty (bufs s ! k) \<and> blk (bufs t ! k) = blk (bufs s ! k)"
      using bk bj by (cases "k = j") simp_all
  qed (use rd bi in simp_all)
  moreover have "cview t = put_blk d a vb (cview s)" using t(6) s3(6) s2(6) s1(6) by simp
  moreover have "disk t = put_blk d a vb (disk s)" "dwrites t = dwrites s @ [(d, a, vb)]"
    using t(7,8) s3(7,8) s2(7,8) by simp_all
  moreover note ex t(2,3) fr nb
  ultimately show ?thesis by (intro exI conjI)
qed

section \<open>The writes of commit and recovery\<close>

text \<open>From \<open>s\<close> to \<open>t\<close> the cache and the disk performed the block writes \<open>W\<close>, in order.\<close>

definition logged :: "'z disk_state_scheme \<Rightarrow> 'z disk_state_scheme \<Rightarrow> (uint \<times> uint \<times> block) list \<Rightarrow> bool" where
  "logged s t W \<longleftrightarrow> bio_ok t \<and> quiet t \<and> nobusy t \<and> bio_frame s t \<and> cview t = apply_writes W (cview s) \<and>
     disk t = apply_writes W (disk s) \<and> dwrites t = dwrites s @ W"

lemma loggedD:
  assumes "logged s t W"
  shows "bio_ok t" "quiet t" "nobusy t" "bio_frame s t" "cview t = apply_writes W (cview s)"
    "disk t = apply_writes W (disk s)" "dwrites t = dwrites s @ W"
  using assms by (simp_all add: logged_def)

lemma logged_refl: "bio_ok s \<Longrightarrow> quiet s \<Longrightarrow> nobusy s \<Longrightarrow> logged s s []"
  by (simp add: logged_def)

lemma logged_trans: "logged s t W \<Longrightarrow> logged t u V \<Longrightarrow> logged s u (W @ V)"
  using bio_frame_trans [of s t u] by (simp add: logged_def)

definition slot :: "'z log_state_scheme \<Rightarrow> nat \<Rightarrow> uint" where
  "slot s i = log_start s + of_nat i + 1"

definition log_area :: "'z log_state_scheme \<Rightarrow> uint set" where
  "log_area s = {b. unat (log_start s) \<le> unat b \<and> unat b < unat (log_start s) + nat (log_size s)}"

definition log_geom :: "'z log_state_scheme \<Rightarrow> bool" where
  "log_geom s \<longleftrightarrow> real_dev (log_dev s) \<and> (log_dev s = 0 \<or> havedisk1 s) \<and> 0 < log_size s \<and> log_size s \<le> LOGSIZE \<and>
     unat (log_start s) + nat (log_size s) \<le> unat FSSIZE"

definition lh_blocks :: "'z log_state_scheme \<Rightarrow> uint list" where
  "lh_blocks s = take (nat (lh_n s)) (lh_block s)"

definition lh_ok :: "'z log_state_scheme \<Rightarrow> bool" where
  "lh_ok s \<longleftrightarrow> 0 \<le> lh_n s \<and> lh_n s < log_size s \<and> nat (lh_n s) \<le> length (lh_block s) \<and>
     distinct (lh_blocks s) \<and> (\<forall>b \<in> set (lh_blocks s). b < FSSIZE \<and> b \<notin> log_area s)"

lemma bio_frame_log:
  assumes "bio_frame s t"
  shows "log_start t = log_start s" "log_size t = log_size s" "log_dev t = log_dev s" "lh_n t = lh_n s"
    "lh_block t = lh_block s" "log_outstanding t = log_outstanding s" "log_committing t = log_committing s"
    "havedisk1 t = havedisk1 s" "slot t = slot s" "log_area t = log_area s" "lh_blocks t = lh_blocks s"
    "log_geom t = log_geom s" "lh_ok t = lh_ok s"
  using assms by (auto simp: bio_frame_def slot_def log_area_def lh_blocks_def log_geom_def lh_ok_def)

lemma slot_facts:
  assumes "log_geom s" and "int i + 1 < log_size s"
  shows "unat (slot s i) = unat (log_start s) + i + 1" "slot s i < FSSIZE" "slot s i \<in> log_area s"
    "slot s i \<noteq> log_start s"
proof -
  have b: "unat (log_start s) + i + 1 < 1000"
    using assms by (auto simp: log_geom_def FSSIZE_def)
  have "unat (log_start s + of_nat i) = unat (log_start s) + i"
    using b by (subst unat_add_acc) (simp_all add: unat_of_nat)
  then show u: "unat (slot s i) = unat (log_start s) + i + 1"
    unfolding slot_def using b by (subst unat_add_acc) simp_all
  show "slot s i < FSSIZE" using b u by (simp add: word_less_nat_alt FSSIZE_def)
  show "slot s i \<in> log_area s" using u assms(2) by (simp add: log_area_def)
  show "slot s i \<noteq> log_start s" using u by auto
qed

lemma slot_inj:
  assumes "log_geom s" and "int i + 1 < log_size s" and "int j + 1 < log_size s"
  shows "slot s i = slot s j \<longleftrightarrow> i = j"
proof
  assume "slot s i = slot s j"
  then have "unat (slot s i) = unat (slot s j)" by simp
  then show "i = j" using slot_facts(1) [OF assms(1,2)] slot_facts(1) [OF assms(1,3)] by simp
qed simp

lemma log_start_area:
  assumes "log_geom s"
  shows "log_start s \<in> log_area s" "log_start s < FSSIZE"
proof -
  have "0 < nat (log_size s)" "unat (log_start s) + nat (log_size s) \<le> unat FSSIZE"
    using assms by (simp_all add: log_geom_def)
  then show "log_start s \<in> log_area s" "log_start s < FSSIZE"
    by (simp_all add: log_area_def word_less_nat_alt)
qed

lemma spare_nonempty:
  assumes "bio_ok s" and "nobusy s" and "pinned s \<subseteq> P" and "finite P" and "card P < NBUF"
  shows "spare s \<noteq> {}"
proof
  assume e: "spare s = {}"
  have d: "b_dirty (bufs s ! i)" if "i < NBUF" for i
    using that e assms(2) by (auto simp: spare_def nobusy_def)
  have r: "real_dev (b_dev (bufs s ! i))" if "i < NBUF" for i
    using d [OF that] bio_ok_D(4) [OF assms(1) that] by (auto simp: buf_ok_def split: if_splits)
  have "inj_on (\<lambda>i. blk (bufs s ! i)) {..<NBUF}"
    using r bio_ok_D(5) [OF assms(1)] by (intro inj_onI) simp
  moreover have "(\<lambda>i. blk (bufs s ! i)) ` {..<NBUF} \<subseteq> P"
    using d assms(3) by (auto simp: pinned_def)
  ultimately have "card {..<NBUF} \<le> card P" using assms(4) by (rule card_inj_on_le)
  with assms(5) show False by simp
qed

lemma spare_all:
  assumes "nobusy s" and "pinned s = {}"
  shows "spare s \<noteq> {}" "\<forall>i. \<exists>k \<in> spare s. k \<noteq> i"
proof -
  have "spare s = {..<NBUF}" using assms by (auto simp: spare_def nobusy_def pinned_def)
  moreover have "\<exists>k \<in> {..<NBUF}. k \<noteq> i" for i
  proof (cases "i = 0")
    case True
    then show ?thesis by (intro bexI [of _ 1]) (simp_all add: NBUF_def)
  next
    case False
    then show ?thesis by (intro bexI [of _ 0]) (simp_all add: NBUF_def)
  qed
  ultimately show "spare s \<noteq> {}" "\<forall>i. \<exists>k \<in> spare s. k \<noteq> i" by (auto simp: NBUF_def)
qed

lemma write_one_eq:
  "write_one i s = kbind (bread (log_dev s) (slot s i)) (\<lambda>to.
     kbind (\<lambda>s. bread (log_dev s) (lh_block s ! i) s) (\<lambda>from. copy_out to from)) s"
  by (simp add: write_one_def copy_out_def slot_def kbind_def)

lemma install_one_eq:
  "install_one i s = kbind (bread (log_dev s) (slot s i)) (\<lambda>lbuf.
     kbind (\<lambda>s. bread (log_dev s) (lh_block s ! i) s) (\<lambda>dbuf. copy_out dbuf lbuf)) s"
  by (simp add: install_one_def copy_out_def slot_def kbind_def)

text \<open>Both loops copy between slot \<open>i\<close> and the \<open>i\<close>-th recorded block.\<close>

lemma pair_reads:
  assumes "bio_ok s" and "quiet s" and "nobusy s" and "log_geom s" and "int i + 1 < log_size s"
    and "h = lh_block s ! i" and "h < FSSIZE" and "h \<notin> log_area s" and "spare s \<noteq> {}"
    and "(log_dev s, h) \<in> pinned s \<or> (\<forall>i. \<exists>k \<in> spare s. k \<noteq> i)"
  obtains j k t u where "bread (log_dev s) (slot s i) s = Done j t"
    "bread (log_dev t) (lh_block t ! i) t = Done k u" "cache_same s u" "j \<noteq> k" "slot s i \<noteq> h"
    "owns u j (log_dev s) (slot s i) (cview s (log_dev s) (slot s i))" "owns u k (log_dev s) h (cview s (log_dev s) h)"
    "settled u j" "settled u k" "\<forall>m<NBUF. m \<noteq> j \<longrightarrow> m \<noteq> k \<longrightarrow> \<not> b_busy (bufs u ! m)"
    "log_dev s = 0 \<or> havedisk1 u"
proof -
  note sl = slot_facts [OF assms(4,5)]
  have ne: "slot s i \<noteq> h" using sl(3) assms(8) by auto
  have dev: "real_dev (log_dev s)" "log_dev s = 0 \<or> havedisk1 s" using assms(4) by (auto simp: log_geom_def)
  obtain j k t u where r: "bread (log_dev s) (slot s i) s = Done j t" "bread (log_dev s) h t = Done k u"
    "cache_same s t" "cache_same s u" "j \<noteq> k"
    "owns u j (log_dev s) (slot s i) (cview s (log_dev s) (slot s i))" "owns u k (log_dev s) h (cview s (log_dev s) h)"
    "settled u j" "settled u k" "\<forall>m<NBUF. m \<noteq> j \<longrightarrow> m \<noteq> k \<longrightarrow> \<not> b_busy (bufs u ! m)"
    using two_reads [OF assms(1-3) dev sl(2) assms(7) ne assms(9,10)] by blast
  note ft = bio_frame_log [OF cache_sameD(3) [OF r(3)]] and fu = bio_frame_log [OF cache_sameD(3) [OF r(4)]]
  have "bread (log_dev t) (lh_block t ! i) t = Done k u" using r(2) ft(3,5) assms(6) by simp
  moreover have "log_dev s = 0 \<or> havedisk1 u" using dev(2) fu(8) by simp
  ultimately show ?thesis using that r ne by blast
qed

lemma write_one_spec:
  assumes "bio_ok s" and "quiet s" and "nobusy s" and "log_geom s" and "int i + 1 < log_size s"
    and "h = lh_block s ! i" and "h < FSSIZE" and "h \<notin> log_area s" and "spare s \<noteq> {}"
    and "(log_dev s, h) \<in> pinned s \<or> (\<forall>i. \<exists>k \<in> spare s. k \<noteq> i)"
  shows "\<exists>t. write_one i s = Done () t \<and> logged s t [(log_dev s, slot s i, cview s (log_dev s) h)] \<and>
    pinned t = pinned s - {(log_dev s, slot s i)}"
proof -
  obtain j k t u where r: "bread (log_dev s) (slot s i) s = Done j t"
    "bread (log_dev t) (lh_block t ! i) t = Done k u" "cache_same s u" "j \<noteq> k" "slot s i \<noteq> h"
    "owns u j (log_dev s) (slot s i) (cview s (log_dev s) (slot s i))" "owns u k (log_dev s) h (cview s (log_dev s) h)"
    "settled u j" "settled u k" "\<forall>m<NBUF. m \<noteq> j \<longrightarrow> m \<noteq> k \<longrightarrow> \<not> b_busy (bufs u ! m)"
    "log_dev s = 0 \<or> havedisk1 u"
    by (rule pair_reads [OF assms])
  note u = cache_sameD [OF r(3)]
  obtain v where v: "copy_out j k u = Done () v" "bio_ok v" "quiet v" "bio_frame u v" "nobusy v"
    "cview v = put_blk (log_dev s) (slot s i) (cview s (log_dev s) h) (cview u)"
    "disk v = put_blk (log_dev s) (slot s i) (cview s (log_dev s) h) (disk u)"
    "dwrites v = dwrites u @ [(log_dev s, slot s i, cview s (log_dev s) h)]"
    "pinned v = pinned u - {(log_dev s, slot s i)}"
    using copy_out_spec [OF u(1,2) r(6,7,4,5,9,11,10)] by blast
  have "write_one i s = Done () v" using r(1,2) v(1) by (simp add: write_one_eq)
  moreover have "logged s v [(log_dev s, slot s i, cview s (log_dev s) h)]"
    using v u bio_frame_trans [OF u(3) v(4)] by (simp add: logged_def)
  moreover have "pinned v = pinned s - {(log_dev s, slot s i)}" using v(9) u(7) by simp
  ultimately show ?thesis by blast
qed

lemma install_one_spec:
  assumes "bio_ok s" and "quiet s" and "nobusy s" and "log_geom s" and "int i + 1 < log_size s"
    and "h = lh_block s ! i" and "h < FSSIZE" and "h \<notin> log_area s" and "spare s \<noteq> {}"
    and "(log_dev s, h) \<in> pinned s \<or> (\<forall>i. \<exists>k \<in> spare s. k \<noteq> i)"
  shows "\<exists>t. install_one i s = Done () t \<and> logged s t [(log_dev s, h, cview s (log_dev s) (slot s i))] \<and>
    pinned t = pinned s - {(log_dev s, h)}"
proof -
  obtain j k t u where r: "bread (log_dev s) (slot s i) s = Done j t"
    "bread (log_dev t) (lh_block t ! i) t = Done k u" "cache_same s u" "j \<noteq> k" "slot s i \<noteq> h"
    "owns u j (log_dev s) (slot s i) (cview s (log_dev s) (slot s i))" "owns u k (log_dev s) h (cview s (log_dev s) h)"
    "settled u j" "settled u k" "\<forall>m<NBUF. m \<noteq> j \<longrightarrow> m \<noteq> k \<longrightarrow> \<not> b_busy (bufs u ! m)"
    "log_dev s = 0 \<or> havedisk1 u"
    by (rule pair_reads [OF assms])
  note u = cache_sameD [OF r(3)]
  have sw: "\<forall>m<NBUF. m \<noteq> k \<longrightarrow> m \<noteq> j \<longrightarrow> \<not> b_busy (bufs u ! m)" using r(10) by blast
  obtain v where v: "copy_out k j u = Done () v" "bio_ok v" "quiet v" "bio_frame u v" "nobusy v"
    "cview v = put_blk (log_dev s) h (cview s (log_dev s) (slot s i)) (cview u)"
    "disk v = put_blk (log_dev s) h (cview s (log_dev s) (slot s i)) (disk u)"
    "dwrites v = dwrites u @ [(log_dev s, h, cview s (log_dev s) (slot s i))]"
    "pinned v = pinned u - {(log_dev s, h)}"
    using copy_out_spec [OF u(1,2) r(7,6) not_sym [OF r(4)] not_sym [OF r(5)] r(8,11) sw] by blast
  have "install_one i s = Done () v" using r(1,2) v(1) by (simp add: install_one_eq)
  moreover have "logged s v [(log_dev s, h, cview s (log_dev s) (slot s i))]"
    using v u bio_frame_trans [OF u(3) v(4)] by (simp add: logged_def)
  moreover have "pinned v = pinned s - {(log_dev s, h)}" using v(9) u(7) by simp
  ultimately show ?thesis by blast
qed

lemma one_read:
  assumes "bio_ok s" and "quiet s" and "nobusy s" and "real_dev d" and "d = 0 \<or> havedisk1 s"
    and "a < FSSIZE" and "spare s \<noteq> {}"
  obtains i t where "bread d a s = Done i t" "cache_same s t" "owns t i d a (cview s d a)" "settled t i"
    "\<forall>k<NBUF. k \<noteq> i \<longrightarrow> \<not> b_busy (bufs t ! k)"
proof -
  have "can_read d a s" using assms unfolding can_read_def nobusy_def spare_def by blast
  from bread_spec [OF assms(1,2) this] obtain i t where
    t: "bread d a s = Done i t" "bread_post d a s i t" by blast
  have "\<forall>k<NBUF. k \<noteq> i \<longrightarrow> \<not> b_busy (bufs t ! k)"
    using bread_postD(13) [OF t(2)] assms(3) by (simp add: nobusy_def)
  with that [OF t(1) bread_post_same [OF assms(1) t(2)] bread_post_owns [OF t(2)]] show ?thesis .
qed

text \<open>Writing one block in place: change the data of an owned buffer, write it, release it.\<close>

lemma rewrite_spec:
  assumes "bio_ok s" and "quiet s" and "owns s i d a va" and "d = 0 \<or> havedisk1 s"
    and "\<forall>k<NBUF. k \<noteq> i \<longrightarrow> \<not> b_busy (bufs s ! k)"
  shows "\<exists>t. kseq (set_data i v) (kseq (bwrite i) (brelse i)) s = Done () t \<and> logged s t [(d, a, v)] \<and>
    pinned t = pinned s - {(d, a)}"
proof -
  have i: "i < NBUF" "blk (bufs s ! i) = (d, a)" "b_busy (bufs s ! i)" "b_valid (bufs s ! i)"
    using assms(3) by (simp_all add: owns_def)
  have rd: "real_dev d" using busy_real [OF assms(1) i(1,3)] i(2) by simp
  note len = bio_ok_length [OF assms(1)]
  obtain s1 where s1: "set_data i v s = Done () s1" "bio_ok s1" "quiet s1" "bio_frame s s1"
    "bufs s1 = (bufs s)[i := (bufs s ! i)\<lparr>b_data := v\<rparr>]" "cview s1 = put_blk d a v (cview s)"
    "disk s1 = disk s" "dwrites s1 = dwrites s"
    using set_data_spec [OF assms(1,2) i(1,3,4,2), of v] unfolding put_blk_fold by blast
  obtain s2 where s2: "bwrite i s1 = Done () s2" "bio_ok s2" "quiet s2" "bio_frame s1 s2"
    "bufs s2 = (bufs s1)[i := (bufs s1 ! i)\<lparr>b_dirty := False\<rparr>]" "cview s2 = cview s1"
    "disk s2 = put_blk d a v (disk s)" "dwrites s2 = dwrites s @ [(d, a, v)]"
    using bwrite_spec [OF s1(2,3) i(1), of d a] i s1(5,7,8) len assms(4) bio_frame_havedisk1 [OF s1(4)]
    unfolding put_blk_fold by auto
  have i2: "bufs s2 ! i = (bufs s ! i)\<lparr>b_data := v, b_dirty := False\<rparr>" using s1(5) s2(5) i(1) len by simp
  obtain t where t: "brelse i s2 = Done () t" "bio_ok t" "quiet t" "bio_frame s2 t"
    "bufs t = (bufs s2)[i := (bufs s2 ! i)\<lparr>b_busy := False\<rparr>]" "cview t = cview s2"
    "disk t = disk s2" "dwrites t = dwrites s2"
    using brelse_spec [OF s2(2,3) i(1)] i i2 s2(7) by auto
  have bk: "bufs t ! k = bufs s ! k" if "k \<noteq> i" for k using that s1(5) s2(5) t(5) by simp
  have bi: "\<not> b_dirty (bufs t ! i)" "\<not> b_busy (bufs t ! i)"
    using t(5) i2 i(1) bio_ok_length [OF s2(2)] by simp_all
  have "nobusy t" unfolding nobusy_def using bk bi(2) assms(5) by metis
  moreover have "bio_frame s t" using bio_frame_trans [OF bio_frame_trans [OF s1(4) s2(4)] t(4)] .
  ultimately have "logged s t [(d, a, v)]"
    using s1 s2 t by (simp add: logged_def)
  moreover have "pinned t = pinned s - {(d, a)}"
    by (rule pinned_clear [OF assms(1) i(1,2)]) (use rd bi bk in simp_all)
  moreover have "kseq (set_data i v) (kseq (bwrite i) (brelse i)) s = Done () t" using s1(1) s2(1) t(1) by simp
  ultimately show ?thesis by blast
qed

lemma write_head_spec:
  assumes "bio_ok s" and "quiet s" and "nobusy s" and "log_geom s" and "spare s \<noteq> {}"
  shows "\<exists>t. write_head s = Done () t \<and>
    logged s t [(log_dev s, log_start s, put_head (cview s (log_dev s) (log_start s)) (lh_n s) (lh_block s))] \<and>
    pinned t = pinned s - {(log_dev s, log_start s)}"
proof -
  have dev: "real_dev (log_dev s)" "log_dev s = 0 \<or> havedisk1 s" using assms(4) by (auto simp: log_geom_def)
  obtain i t where r: "bread (log_dev s) (log_start s) s = Done i t" "cache_same s t"
    "owns t i (log_dev s) (log_start s) (cview s (log_dev s) (log_start s))" "settled t i"
    "\<forall>k<NBUF. k \<noteq> i \<longrightarrow> \<not> b_busy (bufs t ! k)"
    by (rule one_read [OF assms(1-3) dev log_start_area(2) [OF assms(4)] assms(5)])
  note c = cache_sameD [OF r(2)] and f = bio_frame_log [OF cache_sameD(3) [OF r(2)]]
  let ?v = "put_head (cview s (log_dev s) (log_start s)) (lh_n s) (lh_block s)"
  obtain u where u: "kseq (set_data i ?v) (kseq (bwrite i) (brelse i)) t = Done () u"
    "logged t u [(log_dev s, log_start s, ?v)]" "pinned u = pinned t - {(log_dev s, log_start s)}"
    using rewrite_spec [OF c(1,2) r(3) _ r(5), of ?v] dev(2) f(8) by auto
  have "b_data (bufs t ! i) = cview s (log_dev s) (log_start s)" using r(3) by (simp add: owns_def)
  then have "write_head s = Done () u"
    using r(1) u(1) f(4,5) by (simp add: write_head_def kbind_def kseq_def)
  moreover have "logged s u [(log_dev s, log_start s, ?v)]"
    using loggedD [OF u(2)] c bio_frame_trans [OF c(3) loggedD(4) [OF u(2)]] by (simp add: logged_def)
  ultimately show ?thesis using u(3) c(7) by auto
qed

lemma apply_writes_other:
  "(\<And>v. (d, n, v) \<notin> set ws) \<Longrightarrow> apply_writes ws f d n = f d n"
proof (induction ws arbitrary: f)
  case (Cons w ws)
  obtain d' n' v where w: "w = (d', n', v)" by (cases w)
  have "d \<noteq> d' \<or> n \<noteq> n'" using Cons.prems [of v] w by auto
  moreover have "apply_writes ws (put_blk d' n' v f) d n = put_blk d' n' v f d n"
    by (rule Cons.IH) (use Cons.prems in auto)
  ultimately show ?case using w by simp
qed simp

text \<open>The writes of the two loops, up to index \<open>k\<close>.\<close>

definition slot_writes :: "'z log_state_scheme \<Rightarrow> nat \<Rightarrow> (uint \<times> uint \<times> block) list" where
  "slot_writes s k = map (\<lambda>i. (log_dev s, slot s i, cview s (log_dev s) (lh_block s ! i))) [0..<k]"

definition home_writes :: "'z log_state_scheme \<Rightarrow> nat \<Rightarrow> (uint \<times> uint \<times> block) list" where
  "home_writes s k = map (\<lambda>i. (log_dev s, lh_block s ! i, cview s (log_dev s) (slot s i))) [0..<k]"

definition home_pins :: "'z log_state_scheme \<Rightarrow> (uint \<times> uint) set" where
  "home_pins s = Pair (log_dev s) ` set (lh_blocks s)"

definition log_ready :: "'z log_state_scheme \<Rightarrow> bool" where
  "log_ready s \<longleftrightarrow> bio_ok s \<and> quiet s \<and> nobusy s \<and> log_geom s \<and> lh_ok s"

lemma log_readyD:
  assumes "log_ready s"
  shows "bio_ok s" "quiet s" "nobusy s" "log_geom s" "lh_ok s"
  using assms by (simp_all add: log_ready_def)

lemma lh_blocks_nth:
  assumes "lh_ok s" and "i < nat (lh_n s)"
  shows "lh_block s ! i \<in> set (lh_blocks s)" "lh_block s ! i < FSSIZE" "lh_block s ! i \<notin> log_area s"
    "int i + 1 < log_size s"
proof -
  have i: "i < length (lh_blocks s)" "lh_blocks s ! i = lh_block s ! i"
    using assms by (simp_all add: lh_blocks_def lh_ok_def)
  then show m: "lh_block s ! i \<in> set (lh_blocks s)" using nth_mem [OF i(1)] by simp
  show "lh_block s ! i < FSSIZE" "lh_block s ! i \<notin> log_area s" using assms(1) m by (simp_all add: lh_ok_def)
  show "int i + 1 < log_size s" using assms unfolding lh_ok_def by linarith
qed

lemma lh_block_inj:
  assumes "lh_ok s" and "i < nat (lh_n s)" and "j < nat (lh_n s)" and "lh_block s ! i = lh_block s ! j"
  shows "i = j"
proof -
  have "distinct (lh_blocks s)" "length (lh_blocks s) = nat (lh_n s)"
    using assms(1) by (simp_all add: lh_ok_def lh_blocks_def)
  moreover have "lh_blocks s ! i = lh_blocks s ! j" using assms(2-4) by (simp add: lh_blocks_def)
  ultimately show ?thesis using assms(2,3) by (simp add: nth_eq_iff_index_eq)
qed

lemma card_home_pins:
  assumes "log_geom s" and "lh_ok s"
  shows "finite (home_pins s)" "card (home_pins s) < NBUF"
proof -
  have "card (home_pins s) \<le> length (lh_blocks s)"
    unfolding home_pins_def by (rule order_trans [OF card_image_le card_length]) simp
  moreover have "length (lh_blocks s) < NBUF"
    using assms by (auto simp: lh_blocks_def lh_ok_def log_geom_def NBUF_def LOGSIZE_def MAXOPBLOCKS_def)
  ultimately show "card (home_pins s) < NBUF" by simp
qed (simp add: home_pins_def)

lemma slot_not_home:
  assumes "log_geom s" and "lh_ok s" and "int i + 1 < log_size s"
  shows "(log_dev s, slot s i) \<notin> home_pins s" "(log_dev s, log_start s) \<notin> home_pins s"
  using slot_facts(3) [OF assms(1,3)] log_start_area(1) [OF assms(1)] assms(2)
  by (auto simp: home_pins_def lh_ok_def)

lemma write_log_spec:
  assumes "log_ready s" and "pinned s = home_pins s"
  shows "\<exists>t. write_log s = Done () t \<and> logged s t (slot_writes s (nat (lh_n s))) \<and> pinned t = pinned s"
proof -
  note l = log_readyD [OF assms(1)]
  let ?P = "\<lambda>k t. logged s t (slot_writes s k) \<and> pinned t = pinned s"
  have "wp (kfor [0..<nat (lh_n s)] write_one) (\<lambda>_. ?P (nat (lh_n s))) s"
  proof (rule wp_kfor)
    show "?P 0 s" using logged_refl [OF l(1-3)] by (simp add: slot_writes_def)
    fix i t assume i: "i < nat (lh_n s)" and P: "?P i t"
    note t = loggedD [OF conjunct1 [OF P]] and f = bio_frame_log [OF loggedD(4) [OF conjunct1 [OF P]]]
    note h = lh_blocks_nth [OF l(5) i]
    let ?h = "lh_block s ! i"
    have cv: "cview t (log_dev s) ?h = cview s (log_dev s) ?h"
      unfolding t(5)
    proof (rule apply_writes_other)
      fix v show "(log_dev s, ?h, v) \<notin> set (slot_writes s i)"
        using h(3) slot_facts(3) [OF l(4)] lh_blocks_nth(4) [OF l(5)] i by (auto simp: slot_writes_def)
    qed
    have "(log_dev t, ?h) \<in> pinned t" using P assms(2) h(1) f(3) by (auto simp: home_pins_def)
    moreover have "spare t \<noteq> {}"
      by (rule spare_nonempty [OF t(1,3) _ card_home_pins [OF l(4,5)]]) (use P assms(2) in simp)
    ultimately obtain u where u: "write_one i t = Done () u"
      "logged t u [(log_dev t, slot t i, cview t (log_dev t) ?h)]" "pinned u = pinned t - {(log_dev t, slot t i)}"
      using write_one_spec [OF t(1-3), of i ?h] l(4) h f(2,3,5,10,12) by auto
    have "logged s u (slot_writes s (Suc i))"
      using logged_trans [OF conjunct1 [OF P] u(2)] f(3,9) cv by (simp add: slot_writes_def)
    moreover have "pinned u = pinned s"
      using u(3) P f(3,9) assms(2) slot_not_home(1) [OF l(4,5) h(4)] by simp
    ultimately show "wp (write_one i) (\<lambda>_. ?P (Suc i)) t" using u(1) by (simp add: wp_def)
  qed simp
  then show ?thesis by (auto simp: wp_iff write_log_def)
qed

lemma install_trans_spec:
  assumes "log_ready s" and "pinned s = home_pins s \<or> pinned s = {}"
  shows "\<exists>t. install_trans s = Done () t \<and> logged s t (home_writes s (nat (lh_n s))) \<and> pinned t = {}"
proof -
  note l = log_readyD [OF assms(1)]
  let ?done = "\<lambda>k. (\<lambda>i. (log_dev s, lh_block s ! i)) ` {..<k}"
  let ?P = "\<lambda>k t. logged s t (home_writes s k) \<and> pinned t = pinned s - ?done k"
  have "wp (kfor [0..<nat (lh_n s)] install_one) (\<lambda>_. ?P (nat (lh_n s))) s"
  proof (rule wp_kfor)
    show "?P 0 s" using logged_refl [OF l(1-3)] by (simp add: home_writes_def)
    fix i t assume i: "i < nat (lh_n s)" and P: "?P i t"
    note t = loggedD [OF conjunct1 [OF P]] and f = bio_frame_log [OF loggedD(4) [OF conjunct1 [OF P]]]
    note h = lh_blocks_nth [OF l(5) i]
    let ?h = "lh_block s ! i"
    have cv: "cview t (log_dev s) (slot s i) = cview s (log_dev s) (slot s i)"
      unfolding t(5)
    proof (rule apply_writes_other)
      fix v show "(log_dev s, slot s i, v) \<notin> set (home_writes s i)"
        using slot_facts(3) [OF l(4) h(4)] lh_blocks_nth(3) [OF l(5)] i by (auto simp: home_writes_def)
    qed
    have sub: "pinned t \<subseteq> home_pins s" using P assms(2) by auto
    have sp: "spare t \<noteq> {}" by (rule spare_nonempty [OF t(1,3) sub card_home_pins [OF l(4,5)]])
    have "(log_dev t, ?h) \<in> pinned t \<or> (\<forall>i. \<exists>k \<in> spare t. k \<noteq> i)"
      using assms(2)
    proof
      assume "pinned s = home_pins s"
      moreover have "(log_dev s, ?h) \<notin> ?done i"
      proof
        assume "(log_dev s, ?h) \<in> ?done i"
        then obtain k where k: "k < i" "lh_block s ! i = lh_block s ! k" by auto
        with i have "i = k" by (intro lh_block_inj [OF l(5)]) simp_all
        with k(1) show False by simp
      qed
      ultimately have "(log_dev s, ?h) \<in> pinned s - ?done i" using h(1) by (simp add: home_pins_def)
      then show ?thesis using P f(3) by simp
    next
      assume "pinned s = {}"
      then show ?thesis using P spare_all(2) [OF t(3)] by simp
    qed
    then obtain u where u: "install_one i t = Done () u"
      "logged t u [(log_dev t, ?h, cview t (log_dev t) (slot t i))]" "pinned u = pinned t - {(log_dev t, ?h)}"
      using install_one_spec [OF t(1-3), of i ?h] sp l(4) h f(2,3,5,10,12) by auto
    have "logged s u (home_writes s (Suc i))"
      using logged_trans [OF conjunct1 [OF P] u(2)] f(3,9) cv by (simp add: home_writes_def)
    moreover have "pinned u = pinned s - ?done (Suc i)"
      using u(3) P f(3) by (auto simp: lessThan_Suc)
    ultimately show "wp (install_one i) (\<lambda>_. ?P (Suc i)) t" using u(1) by (simp add: wp_def)
  qed simp
  moreover have "pinned s - ?done (nat (lh_n s)) = {}"
  proof -
    have "home_pins s \<subseteq> ?done (nat (lh_n s))"
      using l(5) by (auto simp: home_pins_def lh_blocks_def lh_ok_def in_set_conv_nth)
    then show ?thesis using assms(2) by auto
  qed
  ultimately show ?thesis by (auto simp: wp_iff install_trans_def)
qed

section \<open>Commit\<close>

definition commit_head :: "'z log_state_scheme \<Rightarrow> block" where
  "commit_head s = put_head (cview s (log_dev s) (log_start s)) (lh_n s) (lh_block s)"

definition install_writes :: "'z log_state_scheme \<Rightarrow> nat \<Rightarrow> (uint \<times> uint \<times> block) list" where
  "install_writes s k = map (\<lambda>i. (log_dev s, lh_block s ! i, cview s (log_dev s) (lh_block s ! i))) [0..<k]"

text \<open>Everything a commit writes to disk, in order.\<close>

definition commit_writes :: "'z log_state_scheme \<Rightarrow> (uint \<times> uint \<times> block) list" where
  "commit_writes s = slot_writes s (nat (lh_n s)) @ [(log_dev s, log_start s, commit_head s)] @
     install_writes s (nat (lh_n s)) @ [(log_dev s, log_start s, put_head (commit_head s) 0 (lh_block s))]"

lemma cview_lh [simp]: "cview (s\<lparr>lh_n := k\<rparr>) = cview s" "cview (s\<lparr>lh_n := k, lh_block := bs\<rparr>) = cview s"
  by (rule cview_cong; simp)+

lemma bio_preds_lh [simp]:
  "bio_ok (s\<lparr>lh_n := k\<rparr>) = bio_ok s" "quiet (s\<lparr>lh_n := k\<rparr>) = quiet s" "nobusy (s\<lparr>lh_n := k\<rparr>) = nobusy s"
  "pinned (s\<lparr>lh_n := k\<rparr>) = pinned s" "spare (s\<lparr>lh_n := k\<rparr>) = spare s" "log_geom (s\<lparr>lh_n := k\<rparr>) = log_geom s"
  "log_area (s\<lparr>lh_n := k\<rparr>) = log_area s" "slot (s\<lparr>lh_n := k\<rparr>) = slot s"
  by (simp_all add: bio_ok_def quiet_def nobusy_def pinned_def spare_def log_geom_def log_area_def slot_def fun_eq_iff)

lemma lh_commute:
  "(s\<lparr>ptable := ps, bufs := bs, lru := ls, disk := dk, dwrites := ws\<rparr>)\<lparr>lh_n := k\<rparr> =
    s\<lparr>lh_n := k\<rparr>\<lparr>ptable := ps, bufs := bs, lru := ls, disk := dk, dwrites := ws\<rparr>"
  by (rule log_state.equality) simp_all

lemma bio_frame_lh:
  assumes "bio_frame s t"
  shows "bio_frame (s\<lparr>lh_n := k\<rparr>) (t\<lparr>lh_n := k\<rparr>)"
proof -
  obtain ps bs ls dk ws where t: "woken (ptable s) ps"
    "t = s\<lparr>ptable := ps, bufs := bs, lru := ls, disk := dk, dwrites := ws\<rparr>"
    using assms by (auto simp: bio_frame_def)
  show ?thesis unfolding t(2) lh_commute by (rule bio_frameI) (simp add: t(1))
qed

lemma logged_lh: "logged s t W \<Longrightarrow> logged (s\<lparr>lh_n := k\<rparr>) (t\<lparr>lh_n := k\<rparr>) W"
  by (simp add: logged_def bio_frame_lh)

lemma slot_writes_apply:
  assumes "log_geom s" and "lh_ok s" and "i < k" and "k \<le> nat (lh_n s)"
  shows "apply_writes (slot_writes s k) f (log_dev s) (slot s i) = cview s (log_dev s) (lh_block s ! i)"
  using assms(3,4)
proof (induction k)
  case (Suc k)
  have w: "slot_writes s (Suc k) = slot_writes s k @ [(log_dev s, slot s k, cview s (log_dev s) (lh_block s ! k))]"
    by (simp add: slot_writes_def)
  show ?case
  proof (cases "i = k")
    case True
    then show ?thesis by (simp add: w)
  next
    case False
    with Suc.prems have "i < nat (lh_n s)" "k < nat (lh_n s)" by simp_all
    then have "slot s i \<noteq> slot s k"
      using False slot_inj [OF assms(1) lh_blocks_nth(4) [OF assms(2)] lh_blocks_nth(4) [OF assms(2)]] by simp
    with False Suc show ?thesis by (simp add: w)
  qed
qed simp

lemma slot_writes_outside:
  assumes "log_geom s" and "lh_ok s" and "k \<le> nat (lh_n s)" and "b \<notin> log_area s \<or> b = log_start s"
  shows "apply_writes (slot_writes s k) f d b = f d b"
proof (rule apply_writes_other)
  fix v
  show "(d, b, v) \<notin> set (slot_writes s k)"
  proof
    assume "(d, b, v) \<in> set (slot_writes s k)"
    then obtain i where i: "i < k" "b = slot s i" by (auto simp: slot_writes_def)
    then have "int i + 1 < log_size s" using assms(3) by (intro lh_blocks_nth(4) [OF assms(2)]) simp
    from slot_facts(3,4) [OF assms(1) this] i(2) assms(4) show False by simp
  qed
qed

lemma commit_spec:
  assumes "log_ready s" and "pinned s = home_pins s" and "0 < lh_n s"
  shows "\<exists>t. commit s = Done () t \<and> logged (s\<lparr>lh_n := 0\<rparr>) t (commit_writes s) \<and> pinned t = {}"
proof -
  note l = log_readyD [OF assms(1)]
  let ?n = "nat (lh_n s)" and ?d = "log_dev s" and ?a = "log_start s"
  obtain t1 where t1: "write_log s = Done () t1" "logged s t1 (slot_writes s ?n)" "pinned t1 = pinned s"
    using write_log_spec [OF assms(1,2)] by blast
  note f1 = bio_frame_log [OF loggedD(4) [OF t1(2)]] and c1 = loggedD [OF t1(2)]
  have hd: "cview t1 ?d ?a = cview s ?d ?a"
    unfolding c1(5) by (rule slot_writes_outside [OF l(4,5)]) simp_all
  have sp1: "spare t1 \<noteq> {}"
    by (rule spare_nonempty [OF c1(1,3) _ card_home_pins [OF l(4,5)]]) (use t1(3) assms(2) in simp)
  obtain t2 where t2: "write_head t1 = Done () t2" "logged t1 t2 [(?d, ?a, commit_head s)]" "pinned t2 = pinned t1 - {(?d, ?a)}"
    using write_head_spec [OF c1(1-3) _ sp1] l(4) f1 hd by (auto simp: commit_head_def)
  note f2 = bio_frame_log [OF loggedD(4) [OF t2(2)]] and c2 = loggedD [OF t2(2)]
  have p2: "pinned t2 = home_pins s"
    using t2(3) t1(3) assms(2) log_start_area(1) [OF l(4)] l(5) by (auto simp: home_pins_def lh_ok_def)
  have hp: "home_pins t2 = home_pins s" using f1 f2 by (simp add: home_pins_def)
  have ready: "log_ready t2" using c2 f1 f2 l by (simp add: log_ready_def)
  have hw: "home_writes t2 ?n = install_writes s ?n"
  proof -
    have "cview t2 ?d (slot s i) = cview s ?d (lh_block s ! i)" if i: "i < ?n" for i
    proof -
      have "slot s i \<noteq> ?a" using slot_facts(4) [OF l(4) lh_blocks_nth(4) [OF l(5) i]] .
      then show ?thesis using c1(5) c2(5) slot_writes_apply [OF l(4,5) i] by simp
    qed
    then show ?thesis using f1 f2 by (simp add: home_writes_def install_writes_def)
  qed
  obtain t3 where t3: "install_trans t2 = Done () t3" "logged t2 t3 (install_writes s ?n)" "pinned t3 = {}"
    using install_trans_spec [OF ready] p2 hp hw f1(4) f2(4) by auto
  note f3 = bio_frame_log [OF loggedD(4) [OF t3(2)]] and c3 = loggedD [OF t3(2)]
  let ?t3 = "t3\<lparr>lh_n := 0\<rparr>"
  have hd3: "cview t3 ?d ?a = commit_head s"
  proof -
    have "cview t3 ?d ?a = cview t2 ?d ?a"
      unfolding c3(5)
    proof (rule apply_writes_other)
      fix v show "(?d, ?a, v) \<notin> set (install_writes s ?n)"
        using log_start_area(1) [OF l(4)] lh_blocks_nth(3) [OF l(5)] by (auto simp: install_writes_def)
    qed
    then show ?thesis using c2(5) by simp
  qed
  have sp3: "spare ?t3 \<noteq> {}" using spare_all(1) [OF c3(3) t3(3)] by simp
  obtain t where t: "write_head ?t3 = Done () t"
    "logged ?t3 t [(?d, ?a, put_head (commit_head s) 0 (lh_block s))]" "pinned t = {}"
    using write_head_spec [of ?t3] c3 l(4) f1 f2 f3 hd3 sp3 t3(3) by auto
  have "commit s = Done () t" using assms(3) t1(1) t2(1) t3(1) t(1) by (simp add: commit_def)
  moreover have "logged (s\<lparr>lh_n := 0\<rparr>) t (commit_writes s)"
    using logged_trans [OF logged_lh [OF logged_trans [OF logged_trans [OF t1(2) t2(2)] t3(2)], of 0] t(2)]
    by (simp add: commit_writes_def)
  ultimately show ?thesis using t(3) by blast
qed

section \<open>Recovery\<close>

text \<open>What a log disk stands for: the blocks its header names are those in the log.\<close>

definition recovered :: "uint \<Rightarrow> uint \<Rightarrow> store \<Rightarrow> uint \<Rightarrow> block" where
  "recovered d a dk b = (let ns = head_blocks (dk d a) in
     case find (\<lambda>i. ns ! i = b) [0..<length ns] of
       Some i \<Rightarrow> dk d (a + of_nat i + 1) | None \<Rightarrow> dk d b)"

text \<open>The header on disk is one a commit can have written.\<close>

definition head_ok :: "'z log_state_scheme \<Rightarrow> store \<Rightarrow> bool" where
  "head_ok s dk \<longleftrightarrow> (let v = dk (log_dev s) (log_start s); ns = head_blocks v in
     length v = BSIZE \<and> sint (rd32 v 0) = int (length ns) \<and> int (length ns) < log_size s \<and>
     distinct ns \<and> (\<forall>b \<in> set ns. b < FSSIZE \<and> b \<notin> log_area s))"

definition set_lh :: "block \<Rightarrow> 'z log_state_scheme \<Rightarrow> 'z log_state_scheme" where
  "set_lh v s = s\<lparr>lh_n := sint (rd32 v 0), lh_block := head_blocks v @ drop (length (head_blocks v)) (lh_block s)\<rparr>"

lemma set_lh_simps [simp]:
  "bio_ok (set_lh v s) = bio_ok s" "quiet (set_lh v s) = quiet s" "nobusy (set_lh v s) = nobusy s"
  "pinned (set_lh v s) = pinned s" "spare (set_lh v s) = spare s" "log_geom (set_lh v s) = log_geom s"
  "log_area (set_lh v s) = log_area s" "slot (set_lh v s) = slot s" "log_dev (set_lh v s) = log_dev s"
  "log_start (set_lh v s) = log_start s" "log_size (set_lh v s) = log_size s" "bufs (set_lh v s) = bufs s"
  "disk (set_lh v s) = disk s" "dwrites (set_lh v s) = dwrites s"
  by (simp_all add: set_lh_def bio_ok_def quiet_def nobusy_def pinned_def spare_def log_geom_def log_area_def
      slot_def fun_eq_iff)

lemma cview_set_lh [simp]: "cview (set_lh v s) = cview s"
  by (simp add: set_lh_def)

lemma bio_frame_set_lh:
  assumes "bio_frame s t"
  shows "bio_frame (set_lh v s) (set_lh v t)"
proof -
  obtain ps bs ls dk ws where t: "woken (ptable s) ps"
    "t = s\<lparr>ptable := ps, bufs := bs, lru := ls, disk := dk, dwrites := ws\<rparr>"
    using assms by (auto simp: bio_frame_def)
  have "set_lh v t = (set_lh v s)\<lparr>ptable := ps, bufs := bs, lru := ls, disk := dk, dwrites := ws\<rparr>"
    unfolding t(2) set_lh_def by (rule log_state.equality) simp_all
  moreover have "woken (ptable (set_lh v s)) ps" using t(1) by (simp add: set_lh_def)
  ultimately show ?thesis by (simp add: bio_frameI)
qed

lemma read_head_spec:
  assumes "bio_ok s" and "quiet s" and "nobusy s" and "log_geom s" and "spare s \<noteq> {}"
  shows "\<exists>t. read_head s = Done () t \<and>
    logged (set_lh (cview s (log_dev s) (log_start s)) s) t [] \<and> pinned t = pinned s"
proof -
  have dev: "real_dev (log_dev s)" "log_dev s = 0 \<or> havedisk1 s" using assms(4) by (auto simp: log_geom_def)
  obtain i t where r: "bread (log_dev s) (log_start s) s = Done i t" "cache_same s t"
    "owns t i (log_dev s) (log_start s) (cview s (log_dev s) (log_start s))" "settled t i"
    "\<forall>k<NBUF. k \<noteq> i \<longrightarrow> \<not> b_busy (bufs t ! k)"
    by (rule one_read [OF assms(1-3) dev log_start_area(2) [OF assms(4)] assms(5)])
  note c = cache_sameD [OF r(2)]
  let ?v = "cview s (log_dev s) (log_start s)"
  let ?t = "set_lh ?v t"
  have i: "i < NBUF" "b_busy (bufs t ! i)" "b_valid (bufs t ! i)" "b_data (bufs t ! i) = ?v"
    using r(3) by (simp_all add: owns_def)
  obtain u where u: "brelse i ?t = Done () u" "bio_ok u" "quiet u" "bio_frame ?t u"
    "bufs u = (bufs ?t)[i := (bufs ?t ! i)\<lparr>b_busy := False\<rparr>]" "cview u = cview ?t" "disk u = disk ?t" "dwrites u = dwrites ?t"
    using brelse_spec [of ?t i] c(1,2) i r(4) by (auto simp: settled_def)
  have len: "length (bufs t) = NBUF" using bio_ok_length [OF c(1)] .
  have "nobusy u" unfolding nobusy_def
  proof (intro allI impI)
    fix k assume "k < NBUF"
    then show "\<not> b_busy (bufs u ! k)" using u(5) r(5) i(1) len by (cases "k = i") simp_all
  qed
  moreover have "bio_frame (set_lh ?v s) u" using bio_frame_trans [OF bio_frame_set_lh [OF c(3)] u(4)] .
  ultimately have "logged (set_lh ?v s) u []"
    using u c by (simp add: logged_def)
  moreover have "pinned u = pinned t"
    by (rule pinned_eqI [of i]) (use u(5) i(1) len in simp_all)
  moreover have "read_head s = Done () u"
    using r(1) i(4) u(1) by (simp add: read_head_def set_lh_def Let_def)
  ultimately show ?thesis using c(7) by auto
qed

lemma head_ok_ready:
  assumes "bio_ok s" and "quiet s" and "nobusy s" and "log_geom s" and "head_ok s (disk s)"
    and "v = disk s (log_dev s) (log_start s)"
  shows "log_ready (set_lh v s)" "lh_blocks (set_lh v s) = head_blocks v" "nat (lh_n (set_lh v s)) = length (head_blocks v)"
    "i < length (head_blocks v) \<Longrightarrow> lh_block (set_lh v s) ! i = head_blocks v ! i"
proof -
  have h: "sint (rd32 v 0) = int (length (head_blocks v))" "int (length (head_blocks v)) < log_size s"
    "distinct (head_blocks v)" "\<forall>b \<in> set (head_blocks v). b < FSSIZE \<and> b \<notin> log_area s"
    using assms(5,6) by (simp_all add: head_ok_def Let_def)
  show b: "lh_blocks (set_lh v s) = head_blocks v" using h(1) by (simp add: lh_blocks_def set_lh_def)
  show "nat (lh_n (set_lh v s)) = length (head_blocks v)" using h(1) by (simp add: set_lh_def)
  show "i < length (head_blocks v) \<Longrightarrow> lh_block (set_lh v s) ! i = head_blocks v ! i"
    by (simp add: set_lh_def nth_append)
  have "0 \<le> lh_n (set_lh v s)" "lh_n (set_lh v s) < log_size s" "nat (lh_n (set_lh v s)) \<le> length (lh_block (set_lh v s))"
    using h(1,2) by (simp_all add: set_lh_def)
  then show "log_ready (set_lh v s)" using assms(1-4) h(3,4) b by (simp add: log_ready_def lh_ok_def)
qed

text \<open>The writes of a recovery.\<close>

definition recover_writes :: "'z log_state_scheme \<Rightarrow> (uint \<times> uint \<times> block) list" where
  "recover_writes s = (let d = log_dev s; a = log_start s; v = disk s d a; ns = head_blocks v in
     map (\<lambda>i. (d, ns ! i, disk s d (slot s i))) [0..<length ns] @
     [(d, a, put_head v 0 (lh_block (set_lh v s)))])"

lemma recover_spec:
  assumes "bio_ok s" and "quiet s" and "nobusy s" and "log_geom s" and "head_ok s (disk s)" and "pinned s = {}"
  shows "\<exists>t. recover_from_log s = Done () t \<and> bio_ok t \<and> quiet t \<and> nobusy t \<and> pinned t = {} \<and> lh_n t = 0 \<and>
    log_dev t = log_dev s \<and> log_start t = log_start s \<and> log_size t = log_size s \<and>
    disk t = apply_writes (recover_writes s) (disk s) \<and> dwrites t = dwrites s @ recover_writes s"
proof -
  let ?d = "log_dev s" and ?a = "log_start s"
  let ?v = "disk s ?d ?a"
  let ?n = "length (head_blocks ?v)"
  have dev: "real_dev ?d" using assms(4) by (simp add: log_geom_def)
  have cv: "cview s ?d b = disk s ?d b" for b
    using cview_unpinned [OF assms(1,3) _ dev] assms(6) by simp
  let ?s = "set_lh ?v s"
  note rdy = head_ok_ready [OF assms(1-5) refl]
  obtain t1 where t1: "read_head s = Done () t1" "logged ?s t1 []" "pinned t1 = {}"
    using read_head_spec [OF assms(1-4) spare_all(1) [OF assms(3,6)]] cv assms(6) by auto
  note c1 = loggedD [OF t1(2)] and f1 = bio_frame_log [OF loggedD(4) [OF t1(2)]]
  note l = log_readyD [OF rdy(1)]
  have r1: "log_ready t1" using c1 f1(12,13) l by (simp add: log_ready_def)
  have hw: "home_writes t1 ?n = map (\<lambda>i. (?d, head_blocks ?v ! i, disk s ?d (slot s i))) [0..<?n]"
    using f1 c1(5) cv rdy(4) by (simp add: home_writes_def)
  have n1: "nat (lh_n t1) = ?n" using f1(4) rdy(3) by simp
  obtain t2 where t2: "install_trans t1 = Done () t2"
    "logged t1 t2 (map (\<lambda>i. (?d, head_blocks ?v ! i, disk s ?d (slot s i))) [0..<?n])" "pinned t2 = {}"
    using install_trans_spec [OF r1] t1(3) hw n1 by auto
  note c2 = loggedD [OF t2(2)] and f2 = bio_frame_log [OF loggedD(4) [OF t2(2)]]
  have hd: "cview t2 ?d ?a = ?v"
  proof -
    have "cview t2 ?d ?a = cview t1 ?d ?a"
      unfolding c2(5)
    proof (rule apply_writes_other)
      fix w
      have "?a \<noteq> head_blocks ?v ! i" if "i < ?n" for i
        using log_start_area(1) [OF assms(4)] lh_blocks_nth(3) [OF l(5), of i] rdy(3,4) that by auto
      then show "(?d, ?a, w) \<notin> set (map (\<lambda>i. (?d, head_blocks ?v ! i, disk s ?d (slot s i))) [0..<?n])" by auto
    qed
    then show ?thesis using c1(5) cv by simp
  qed
  let ?t2 = "t2\<lparr>lh_n := 0\<rparr>"
  obtain t where t: "write_head ?t2 = Done () t"
    "logged ?t2 t [(?d, ?a, put_head ?v 0 (lh_block ?s))]" "pinned t = {}"
    using write_head_spec [of ?t2] c2 f1 f2 hd spare_all(1) [OF c2(3) t2(3)] t2(3) assms(4) by auto
  note c = loggedD [OF t(2)] and f = bio_frame_log [OF loggedD(4) [OF t(2)]]
  have "recover_from_log s = Done () t" using t1(1) t2(1) t(1) by (simp add: recover_from_log_def)
  moreover have "disk t = apply_writes (recover_writes s) (disk s)"
    using c(6) c2(6) c1(6) by (simp add: recover_writes_def Let_def)
  moreover have "dwrites t = dwrites s @ recover_writes s"
    using c(7) c2(7) c1(7) by (simp add: recover_writes_def Let_def)
  moreover have "lh_n t = 0" "log_dev t = ?d" "log_start t = ?a" "log_size t = log_size s"
    using f f1 f2 by simp_all
  ultimately show ?thesis using c(1-3) t(3) by blast
qed

end
