(* ===== verification/Log_Crash.thy ===== *)
theory Log_Crash
  imports Log
begin

text \<open>
  Crashes: the disk after every prefix of the block writes of a commit (\<open>commit_writes\<close>) or
  of a recovery (\<open>recover_writes\<close>), and what recovery makes of it.
\<close>

section \<open>Crashes\<close>

lemma head_blocks_put_head:
  assumes "length v = BSIZE" and "0 \<le> n" and "n < 30" and "nat n \<le> length ns"
  shows "head_blocks (put_head v n ns) = take (nat n) ns" "sint (rd32 (put_head v n ns) 0) = n"
    "length (put_head v n ns) = BSIZE"
proof -
  have "unat (word_of_int n :: uint) = nat n"
    using assms(2,3) by (simp add: unat_eq_nat_uint uint_word_of_int)
  then have "sint (word_of_int n :: uint) = n" using assms(2,3) by (subst sint_nonneg) simp_all
  then show n: "sint (rd32 (put_head v n ns) 0) = n"
    using assms by (simp add: put_head_def BSIZE_def)
  show "head_blocks (put_head v n ns) = take (nat n) ns"
    unfolding head_blocks_def n using assms by (simp add: put_head_def BSIZE_def)
qed (simp add: put_head_def assms(1))

lemma find_index:
  assumes "i < n" and "\<And>j. j < n \<Longrightarrow> P j \<longleftrightarrow> j = i"
  shows "find P [0..<n] = Some i"
proof (cases "find P [0..<n]")
  case None
  with assms show ?thesis by (auto simp: find_None_iff)
next
  case (Some j)
  then have "j < n" "P j" using find_SomeD [OF Some] by auto
  with assms(2) Some show ?thesis by simp
qed

lemma recovered_in:
  assumes "distinct (head_blocks (dk d a))" and "i < length (head_blocks (dk d a))"
  shows "recovered d a dk (head_blocks (dk d a) ! i) = dk d (a + of_nat i + 1)"
proof -
  have "find (\<lambda>j. head_blocks (dk d a) ! j = head_blocks (dk d a) ! i) [0..<length (head_blocks (dk d a))] = Some i"
    by (rule find_index [OF assms(2)]) (use assms in \<open>simp add: nth_eq_iff_index_eq\<close>)
  then show ?thesis by (simp add: recovered_def Let_def)
qed

lemma recovered_out:
  assumes "b \<notin> set (head_blocks (dk d a))"
  shows "recovered d a dk b = dk d b"
proof -
  have "find (\<lambda>j. head_blocks (dk d a) ! j = b) [0..<length (head_blocks (dk d a))] = None"
    using assms by (auto simp: find_None_iff)
  then show ?thesis by (simp add: recovered_def Let_def)
qed

text \<open>Writes of distinct blocks.\<close>

lemma apply_indexed_in:
  assumes "i < k" and "\<And>j. j < k \<Longrightarrow> h j = h i \<Longrightarrow> j = i"
  shows "apply_writes (map (\<lambda>j. (d, h j, g j)) [0..<k]) f d (h i) = g i"
  using assms
proof (induction k)
  case (Suc k)
  show ?case
  proof (cases "i = k")
    case True
    then show ?thesis by simp
  next
    case False
    then have "h k \<noteq> h i" using Suc.prems(2) [of k] by auto
    then show ?thesis using False Suc by (simp add: put_blk_other)
  qed
qed simp

lemma apply_indexed_out:
  assumes "\<And>j. j < k \<Longrightarrow> h j \<noteq> b"
  shows "apply_writes (map (\<lambda>j. (d, h j, g j)) [0..<k]) f d b = f d b"
proof (rule apply_writes_other)
  fix v show "(d, b, v) \<notin> set (map (\<lambda>j. (d, h j, g j)) [0..<k])" by (auto dest: assms)
qed

text \<open>
  A state in which a commit can start: no buffer in use, exactly the recorded blocks
  pinned, and no transaction in the log on disk.
\<close>

definition commit_ready :: "'z log_state_scheme \<Rightarrow> bool" where
  "commit_ready s \<longleftrightarrow> log_ready s \<and> pinned s = home_pins s \<and> 0 < lh_n s \<and>
     length (disk s (log_dev s) (log_start s)) = BSIZE \<and> head_blocks (disk s (log_dev s) (log_start s)) = [] \<and>
     sint (rd32 (disk s (log_dev s) (log_start s)) 0) = 0"

lemma commit_readyD:
  assumes "commit_ready s"
  shows "log_ready s" "pinned s = home_pins s" "0 < lh_n s" "lh_n s < 30"
    "real_dev (log_dev s)" "cview s (log_dev s) (log_start s) = disk s (log_dev s) (log_start s)"
    "b \<notin> set (lh_blocks s) \<Longrightarrow> cview s (log_dev s) b = disk s (log_dev s) b"
proof -
  show r: "log_ready s" "pinned s = home_pins s" "0 < lh_n s" using assms by (simp_all add: commit_ready_def)
  note l = log_readyD [OF r(1)]
  show "lh_n s < 30" using l(4,5) by (auto simp: log_geom_def lh_ok_def LOGSIZE_def MAXOPBLOCKS_def)
  show d: "real_dev (log_dev s)" using l(4) by (simp add: log_geom_def)
  show out: "b \<notin> set (lh_blocks s) \<Longrightarrow> cview s (log_dev s) b = disk s (log_dev s) b" for b
    using cview_unpinned [OF l(1,3) _ d, of b] r(2) by (auto simp: home_pins_def)
  have "log_start s \<notin> set (lh_blocks s)" using log_start_area(1) [OF l(4)] l(5) by (auto simp: lh_ok_def)
  then show "cview s (log_dev s) (log_start s) = disk s (log_dev s) (log_start s)" by (rule out)
qed

lemma commit_head_facts:
  assumes "commit_ready s"
  shows "head_blocks (commit_head s) = lh_blocks s" "sint (rd32 (commit_head s) 0) = lh_n s"
    "length (commit_head s) = BSIZE" "length (lh_blocks s) = nat (lh_n s)" "distinct (lh_blocks s)"
    "head_blocks (put_head (commit_head s) 0 bs) = []" "sint (rd32 (put_head (commit_head s) 0 bs) 0) = 0"
    "length (put_head (commit_head s) 0 bs) = BSIZE"
proof -
  note c = commit_readyD [OF assms] and l = log_readyD [OF commit_readyD(1) [OF assms]]
  have v: "length (cview s (log_dev s) (log_start s)) = BSIZE" using assms c(6) by (simp add: commit_ready_def)
  have n: "nat (lh_n s) \<le> length (lh_block s)" using l(5) by (simp add: lh_ok_def)
  note h = head_blocks_put_head [OF v less_imp_le [OF c(3)] c(4) n]
  show "head_blocks (commit_head s) = lh_blocks s" "sint (rd32 (commit_head s) 0) = lh_n s" and len: "length (commit_head s) = BSIZE"
    using h by (simp_all add: commit_head_def lh_blocks_def)
  show "length (lh_blocks s) = nat (lh_n s)" "distinct (lh_blocks s)" using n l(5) by (simp_all add: lh_blocks_def lh_ok_def)
  show "head_blocks (put_head (commit_head s) 0 bs) = []" "sint (rd32 (put_head (commit_head s) 0 bs) 0) = 0"
    "length (put_head (commit_head s) 0 bs) = BSIZE"
    using head_blocks_put_head [OF len, of 0 bs] by simp_all
qed

text \<open>The three shapes of a prefix of the commit's writes.\<close>

lemma commit_prefix:
  assumes "commit_ready s"
  obtains (before) j where "j \<le> nat (lh_n s)" "take k (commit_writes s) = slot_writes s j"
  | (during) j where "j \<le> nat (lh_n s)" "take k (commit_writes s) =
      slot_writes s (nat (lh_n s)) @ [(log_dev s, log_start s, commit_head s)] @ install_writes s j"
  | (after) "take k (commit_writes s) = commit_writes s"
proof -
  let ?n = "nat (lh_n s)"
  have len: "length (slot_writes s ?n) = ?n" "length (install_writes s ?n) = ?n"
    by (simp_all add: slot_writes_def install_writes_def)
  have ts: "take j (slot_writes s ?n) = slot_writes s j" "take j (install_writes s ?n) = install_writes s j"
    if "j \<le> ?n" for j using that by (simp_all add: slot_writes_def install_writes_def take_map)
  consider "k \<le> ?n" | j where "k = ?n + 1 + j" "j \<le> ?n" | "2 * ?n + 2 \<le> k"
  proof -
    show thesis if "k \<le> ?n \<Longrightarrow> thesis" "\<And>j. k = ?n + 1 + j \<Longrightarrow> j \<le> ?n \<Longrightarrow> thesis" "2 * ?n + 2 \<le> k \<Longrightarrow> thesis"
    proof (cases "k \<le> ?n \<or> 2 * ?n + 2 \<le> k")
      case True
      then show ?thesis using that(1,3) by blast
    next
      case False
      then show ?thesis by (intro that(2) [of "k - ?n - 1"]) arith+
    qed
  qed
  then show ?thesis
  proof cases
    case 1
    then show ?thesis using before [of k] len ts(1) by (simp add: commit_writes_def)
  next
    case 2
    then show ?thesis using during [of j] len ts(2) by (simp add: commit_writes_def)
  next
    case 3
    then show ?thesis using after len by (simp add: commit_writes_def)
  qed
qed

text \<open>
  What recovery will make of the disk after each prefix: the old contents up to the write
  of the header, the new ones from there on; and the header is one recovery accepts.
\<close>

definition crash_ok :: "'z log_state_scheme \<Rightarrow> store \<Rightarrow> (uint \<Rightarrow> block) \<Rightarrow> bool" where
  "crash_ok s dk g \<longleftrightarrow> head_ok s dk \<and> (\<forall>b. b \<notin> log_area s \<longrightarrow> recovered (log_dev s) (log_start s) dk b = g b)"

lemma crash_before:
  assumes "commit_ready s" and "j \<le> nat (lh_n s)"
  shows "crash_ok s (apply_writes (slot_writes s j) (disk s)) (disk s (log_dev s))"
proof -
  note l = log_readyD [OF commit_readyD(1) [OF assms(1)]]
  let ?D = "apply_writes (slot_writes s j) (disk s)"
  have o: "?D (log_dev s) b = disk s (log_dev s) b" if "b \<notin> log_area s \<or> b = log_start s" for b
    by (rule slot_writes_outside [OF l(4,5) assms(2) that])
  have "0 < log_size s" using l(4) by (simp add: log_geom_def)
  then have "head_ok s ?D" using o [of "log_start s"] assms(1) by (simp add: head_ok_def commit_ready_def)
  moreover have "recovered (log_dev s) (log_start s) ?D b = disk s (log_dev s) b" if "b \<notin> log_area s" for b
    using o [of b] o [of "log_start s"] that assms(1) by (subst recovered_out) (simp_all add: commit_ready_def)
  ultimately show ?thesis by (simp add: crash_ok_def)
qed

lemma crash_during:
  assumes "commit_ready s" and "j \<le> nat (lh_n s)"
  shows "crash_ok s (apply_writes (slot_writes s (nat (lh_n s)) @ [(log_dev s, log_start s, commit_head s)] @
    install_writes s j) (disk s)) (cview s (log_dev s))"
proof -
  let ?d = "log_dev s" and ?a = "log_start s" and ?n = "nat (lh_n s)"
  note c = commit_readyD [OF assms(1)] and l = log_readyD [OF commit_readyD(1) [OF assms(1)]]
  note h = commit_head_facts [OF assms(1)]
  define D1 where "D1 = put_blk ?d ?a (commit_head s) (apply_writes (slot_writes s ?n) (disk s))"
  define D where "D = apply_writes (install_writes s j) D1"
  have area: "lh_block s ! i \<notin> log_area s" if "i < ?n" for i by (rule lh_blocks_nth(3) [OF l(5) that])
  have inA: "D ?d b = D1 ?d b" if "b \<in> log_area s" for b
    unfolding D_def install_writes_def
    by (rule apply_indexed_out) (use area that assms(2) in auto)
  have hd: "D ?d ?a = commit_head s" using inA [OF log_start_area(1) [OF l(4)]] by (simp add: D1_def)
  have sl: "D ?d (slot s i) = cview s ?d (lh_block s ! i)" if i: "i < ?n" for i
  proof -
    note sf = slot_facts [OF l(4) lh_blocks_nth(4) [OF l(5) i]]
    have "D ?d (slot s i) = D1 ?d (slot s i)" by (rule inA [OF sf(3)])
    then show ?thesis using sf(4) slot_writes_apply [OF l(4,5) i] by (simp add: D1_def)
  qed
  have "recovered ?d ?a D b = cview s ?d b" if b: "b \<notin> log_area s" for b
  proof (cases "b \<in> set (lh_blocks s)")
    case True
    then obtain i where i: "i < ?n" "b = lh_blocks s ! i" using h(4) by (metis in_set_conv_nth)
    have eq: "lh_blocks s ! i = lh_block s ! i" using i(1) by (simp add: lh_blocks_def)
    have "recovered ?d ?a D (head_blocks (D ?d ?a) ! i) = D ?d (?a + of_nat i + 1)"
      by (rule recovered_in) (use hd h(1,4,5) i(1) in simp_all)
    then show ?thesis using sl [OF i(1)] hd h(1) i(2) eq by (simp add: slot_def)
  next
    case False
    then have "D ?d b = D1 ?d b"
      unfolding D_def install_writes_def using assms(2) h(4) l(5)
      by (intro apply_indexed_out) (auto simp: lh_blocks_def lh_ok_def in_set_conv_nth)
    moreover have "b \<noteq> ?a" using b log_start_area(1) [OF l(4)] by auto
    ultimately have "D ?d b = disk s ?d b"
      using slot_writes_outside [OF l(4,5) order_refl, of b "disk s" ?d] b by (simp add: D1_def)
    then show ?thesis using recovered_out [of b D ?d ?a] False hd h(1) c(7) by simp
  qed
  moreover have "head_ok s D"
    using hd h(1-5) l(5) c(3) by (simp add: head_ok_def lh_ok_def)
  moreover have "apply_writes (slot_writes s ?n @ [(?d, ?a, commit_head s)] @ install_writes s j) (disk s) = D"
    by (simp add: D_def D1_def)
  ultimately show ?thesis by (simp add: crash_ok_def)
qed

lemma crash_after:
  assumes "commit_ready s"
  shows "crash_ok s (apply_writes (commit_writes s) (disk s)) (cview s (log_dev s))"
proof -
  let ?d = "log_dev s" and ?a = "log_start s" and ?n = "nat (lh_n s)"
  note c = commit_readyD [OF assms] and l = log_readyD [OF commit_readyD(1) [OF assms]]
  note h = commit_head_facts [OF assms]
  define D1 where "D1 = put_blk ?d ?a (commit_head s) (apply_writes (slot_writes s ?n) (disk s))"
  define D where "D = put_blk ?d ?a (put_head (commit_head s) 0 (lh_block s)) (apply_writes (install_writes s ?n) D1)"
  have "D ?d b = cview s ?d b" if b: "b \<notin> log_area s" for b
  proof -
    have ba: "b \<noteq> ?a" using b log_start_area(1) [OF l(4)] by auto
    show ?thesis
    proof (cases "b \<in> set (lh_blocks s)")
      case True
      then obtain i where i: "i < ?n" "b = lh_block s ! i"
        using h(4) by (metis in_set_conv_nth lh_blocks_def nth_take)
      then have "apply_writes (install_writes s ?n) D1 ?d b = cview s ?d b"
        unfolding install_writes_def using lh_block_inj [OF l(5) _ i(1)]
        by (simp only: i(2)) (rule apply_indexed_in, auto)
      then show ?thesis using ba by (simp add: D_def)
    next
      case False
      then have "apply_writes (install_writes s ?n) D1 ?d b = D1 ?d b"
        unfolding install_writes_def using h(4) l(5)
        by (intro apply_indexed_out) (auto simp: lh_blocks_def lh_ok_def in_set_conv_nth)
      then show ?thesis
        using ba slot_writes_outside [OF l(4,5) order_refl, of b "disk s" ?d] b c(7) [OF False]
        by (simp add: D_def D1_def)
    qed
  qed
  moreover have hd: "D ?d ?a = put_head (commit_head s) 0 (lh_block s)" by (simp add: D_def)
  ultimately have "recovered ?d ?a D b = cview s ?d b" if "b \<notin> log_area s" for b
    using that h(6) by (subst recovered_out) simp_all
  moreover have "head_ok s D" using hd h(6-8) l(4) by (simp add: head_ok_def log_geom_def)
  moreover have "apply_writes (commit_writes s) (disk s) = D" by (simp add: D_def D1_def commit_writes_def)
  ultimately show ?thesis by (simp add: crash_ok_def)
qed

text \<open>
  The same for recovery's own writes: after any prefix of them the disk still stands for
  the same contents, and at the end it holds them.
\<close>

lemma recover_prefix:
  assumes "log_geom r" and "head_ok r (disk r)" and "b \<notin> log_area r"
    and "d = log_dev r" and "a = log_start r" and "D = apply_writes (take k (recover_writes r)) (disk r)"
  shows "recovered d a D b = recovered d a (disk r) b"
    and "length (recover_writes r) \<le> k \<Longrightarrow> D d b = recovered d a (disk r) b \<and> head_blocks (D d a) = []"
    and "head_ok r D"
proof -
  let ?v = "disk r d a"
  let ?ns = "head_blocks ?v" and ?W = "\<lambda>k. map (\<lambda>i. (d, head_blocks (disk r d a) ! i, disk r d (slot r i))) [0..<k]"
  let ?h = "put_head ?v 0 (lh_block (set_lh ?v r))"
  have ok: "length ?v = BSIZE" "int (length ?ns) < log_size r" "distinct ?ns" "\<forall>b \<in> set ?ns. b \<notin> log_area r"
    using assms(2,4,5) by (simp_all add: head_ok_def Let_def)
  have W: "recover_writes r = ?W (length ?ns) @ [(d, a, ?h)]" using assms(4,5) by (simp add: recover_writes_def Let_def)
  have hb: "head_blocks ?h = []" "sint (rd32 ?h 0) = 0" "length ?h = BSIZE"
    using head_blocks_put_head [OF ok(1), of 0] by simp_all
  have aA: "a \<in> log_area r" using log_start_area(1) [OF assms(1)] assms(5) by simp
  have notA: "x \<in> log_area r \<Longrightarrow> apply_writes (?W j) (disk r) d x = disk r d x" if "j \<le> length ?ns" for j x
    by (rule apply_indexed_out) (use ok(4) that in auto)
  have home: "apply_writes (?W (length ?ns)) (disk r) d b = recovered d a (disk r) b"
  proof (cases "b \<in> set ?ns")
    case True
    then obtain i where i: "i < length ?ns" "b = ?ns ! i" by (metis in_set_conv_nth)
    have "apply_writes (?W (length ?ns)) (disk r) d (?ns ! i) = disk r d (slot r i)"
      by (rule apply_indexed_in [OF i(1)]) (use ok(3) i(1) in \<open>simp add: nth_eq_iff_index_eq\<close>)
    then show ?thesis using recovered_in [of "disk r" d a i] ok(3) i assms(5) by (simp add: slot_def)
  next
    case False
    then have "apply_writes (?W (length ?ns)) (disk r) d b = disk r d b"
      by (intro apply_indexed_out) auto
    then show ?thesis using recovered_out [of b "disk r" d a] False by simp
  qed
  show fin: "D d b = recovered d a (disk r) b \<and> head_blocks (D d a) = []" if "length (recover_writes r) \<le> k"
  proof -
    have "b \<noteq> a" using assms(3) aA by auto
    then show ?thesis using assms(6) that home hb(1) by (simp add: W)
  qed
  show "recovered d a D b = recovered d a (disk r) b"
  proof (cases "k \<le> length ?ns")
    case True
    then have D: "D = apply_writes (?W k) (disk r)" using assms(6) by (simp add: W take_map)
    have hd: "D d a = ?v" using notA [OF True aA] D by simp
    show ?thesis
    proof (cases "b \<in> set ?ns")
      case True2: True
      then obtain i where i: "i < length ?ns" "b = ?ns ! i" by (metis in_set_conv_nth)
      have "slot r i \<in> log_area r" using slot_facts(3) [OF assms(1), of i] ok(2) i(1) by simp
      then have "D d (a + of_nat i + 1) = disk r d (a + of_nat i + 1)"
        using notA [OF True] D assms(5) by (simp add: slot_def)
      then show ?thesis using recovered_in [of "disk r" d a i] recovered_in [of D d a i] hd ok(3) i by simp
    next
      case False
      then have "D d b = disk r d b" unfolding D by (intro apply_indexed_out) (use True in auto)
      then show ?thesis using recovered_out [of b "disk r" d a] recovered_out [of b D d a] False hd by simp
    qed
  next
    case False
    then have "length (recover_writes r) \<le> k" by (simp add: W)
    from fin [OF this] show ?thesis by (subst recovered_out) simp_all
  qed
  have "D d a = ?v \<or> D d a = ?h"
  proof (cases "k \<le> length ?ns")
    case True
    then show ?thesis using notA [OF True aA] assms(6) by (simp add: W take_map)
  next
    case False
    then show ?thesis using assms(6) by (simp add: W)
  qed
  then show "head_ok r D" using assms(1,2,4,5) hb by (auto simp: head_ok_def log_geom_def Let_def)
qed

text \<open>A machine restarted on the disk \<open>dk\<close>: an empty cache, the same log.\<close>

definition rebooted :: "'z log_state_scheme \<Rightarrow> store \<Rightarrow> 'z log_state_scheme \<Rightarrow> bool" where
  "rebooted s dk r \<longleftrightarrow> bio_ok r \<and> quiet r \<and> nobusy r \<and> pinned r = {} \<and> disk r = dk \<and> log_dev r = log_dev s \<and>
     log_start r = log_start s \<and> log_size r = log_size s \<and> havedisk1 r = havedisk1 s"

lemma rebooted_head_ok: "rebooted s dk r \<Longrightarrow> head_ok r = head_ok s \<and> log_area r = log_area s \<and> log_geom r = log_geom s"
  by (simp add: rebooted_def head_ok_def log_area_def log_geom_def fun_eq_iff)

text \<open>A machine about to commit a transaction that changed block 100.\<close>

definition demo_log :: log_state where
  "demo_log = disk_state.extend
     (boot_disk_state\<lparr>bufs := \<lparr>b_busy = False, b_valid = True, b_dirty = True, b_dev = 1, b_blockno = 100,
        b_data = replicate BSIZE 7\<rparr> # replicate 29 \<lparr>b_busy = False, b_valid = False, b_dirty = False,
        b_dev = - 1, b_blockno = 0, b_data = replicate BSIZE 0\<rparr>, lru := [0..<NBUF]\<rparr>)
     \<lparr>log_start = 2, log_size = 30, log_outstanding = 0, log_committing = True, log_dev = 1,
      lh_n = 1, lh_block = 100 # replicate 29 0\<rparr>"

lemma zero_head: "rd32 (replicate BSIZE 0) 0 = 0" "head_blocks (replicate BSIZE 0) = []"
  by (simp_all add: rd32_def head_blocks_def rd32s_def BSIZE_def)

lemma demo_log_fields:
  "held demo_log = {}" "curproc demo_log = Some 0" "idequeue demo_log = []" "havedisk1 demo_log"
  "lru demo_log = [0..<NBUF]" "length (bufs demo_log) = NBUF" "disk demo_log = (\<lambda>_ _. replicate BSIZE 0)"
  "log_start demo_log = 2" "log_size demo_log = 30" "log_dev demo_log = 1" "lh_n demo_log = 1"
  "lh_block demo_log = 100 # replicate 29 0"
  by (simp_all add: demo_log_def boot_disk_state_def disk_state.defs kmem_state.defs bare_kstate_def NBUF_def)

lemma demo_log_bufs:
  "bufs demo_log ! 0 = \<lparr>b_busy = False, b_valid = True, b_dirty = True, b_dev = 1, b_blockno = 100,
     b_data = replicate BSIZE 7\<rparr>"
  "0 < i \<Longrightarrow> i < NBUF \<Longrightarrow> bufs demo_log ! i = \<lparr>b_busy = False, b_valid = False, b_dirty = False,
     b_dev = - 1, b_blockno = 0, b_data = replicate BSIZE 0\<rparr>"
  by (simp_all add: demo_log_def boot_disk_state_def disk_state.defs kmem_state.defs bare_kstate_def NBUF_def nth_Cons')

lemma demo_log_ready: "commit_ready demo_log"
proof -
  have b: "buf_ok (disk demo_log) (bufs demo_log ! i)" if "i < NBUF" for i
    using that demo_log_bufs by (cases "i = 0") (simp_all add: buf_ok_def FSSIZE_def)
  have u: "i = j" if "i < NBUF" "j < NBUF" "real_dev (b_dev (bufs demo_log ! i))" "blk (bufs demo_log ! i) = blk (bufs demo_log ! j)" for i j
    using that demo_log_bufs by (cases "i = 0"; cases "j = 0") simp_all
  have "bio_ok demo_log" unfolding bio_ok_def using b u by (auto simp: demo_log_fields)
  moreover have nb: "\<not> b_busy (bufs demo_log ! i)" if "i < NBUF" for i
    using that demo_log_bufs by (cases "i = 0") simp_all
  moreover have lb: "lh_blocks demo_log = [100]" by (simp add: lh_blocks_def demo_log_fields)
  moreover have "pinned demo_log = home_pins demo_log"
  proof -
    have "b_dirty (bufs demo_log ! i) \<longleftrightarrow> i = 0" if "i < NBUF" for i
      using that demo_log_bufs by (cases "i = 0") simp_all
    moreover have "blk (bufs demo_log ! 0) = (1, 100)" by (simp add: demo_log_bufs)
    ultimately show ?thesis
      by (auto simp: pinned_def home_pins_def lb demo_log_fields NBUF_def intro!: exI [of _ 0])
  qed
  ultimately show ?thesis
    by (simp add: commit_ready_def log_ready_def quiet_def nobusy_def log_geom_def lh_ok_def log_area_def
        demo_log_fields zero_head LOGSIZE_def MAXOPBLOCKS_def FSSIZE_def)
qed

section \<open>Properties of commit and recovery\<close>

text \<open>C1: Commit is atomic with respect to crashes. A commit returns, having written some
  sequence W of blocks to disk. If the machine stops after any number k of these writes
  and is restarted, recovery returns and leaves on every block outside the log either what
  was on disk before the commit, or, on every block, what the transaction wrote; the
  latter is so once the commit has completed. No transaction is then left in the log.\<close>

theorem commit_crash_atomic:
  assumes "commit_ready s"
  shows "\<exists>t W. commit s = Done () t \<and> dwrites t = dwrites s @ W \<and> disk t = apply_writes W (disk s) \<and>
    lh_n t = 0 \<and> held t = {} \<and>
    (\<forall>k r. rebooted s (apply_writes (take k W) (disk s)) r \<longrightarrow>
      (\<exists>u. recover_from_log r = Done () u \<and> head_blocks (disk u (log_dev s) (log_start s)) = [] \<and>
        ((\<forall>b. b \<notin> log_area s \<longrightarrow> disk u (log_dev s) b = cview s (log_dev s) b) \<or>
         k < length W \<and> (\<forall>b. b \<notin> log_area s \<longrightarrow> disk u (log_dev s) b = disk s (log_dev s) b))))"
proof -
  note c = commit_readyD [OF assms]
  let ?W = "commit_writes s" and ?d = "log_dev s" and ?a = "log_start s"
  obtain t where t: "commit s = Done () t" "logged (s\<lparr>lh_n := 0\<rparr>) t ?W"
    using commit_spec [OF c(1,2,3)] by blast
  have rec: "\<exists>u. recover_from_log r = Done () u \<and> head_blocks (disk u ?d ?a) = [] \<and>
      (\<forall>b. b \<notin> log_area s \<longrightarrow> disk u ?d b = g b)"
    if r: "rebooted s dk r" and ok: "crash_ok s dk g" for dk g r
  proof -
    note e = rebooted_head_ok [OF r]
    have p: "bio_ok r" "quiet r" "nobusy r" "pinned r = {}" "disk r = dk" "log_dev r = ?d" "log_start r = ?a"
      using r by (simp_all add: rebooted_def)
    have hk: "head_ok r (disk r)" "log_geom r" using ok e p(5) log_readyD(4) [OF c(1)] by (simp_all add: crash_ok_def)
    obtain u where u: "recover_from_log r = Done () u" "disk u = apply_writes (recover_writes r) (disk r)"
      using recover_spec [OF p(1-3) hk(2,1) p(4)] by blast
    have "disk u ?d b = g b \<and> head_blocks (disk u ?d ?a) = []" if b: "b \<notin> log_area s" for b
      using recover_prefix(2) [OF hk(2,1) _ p(6,7) [symmetric] refl, of b "length (recover_writes r)"] b e u(2) ok p(5)
      by (simp add: crash_ok_def)
    moreover have "\<exists>b. b \<notin> log_area s"
    proof
      have "unat ?a + nat (log_size s) \<le> 1000" using log_readyD(4) [OF c(1)] by (auto simp: log_geom_def FSSIZE_def)
      then show "- 1 \<notin> log_area s" by (simp add: log_area_def unsigned_minus_1_eq_mask mask_eq_exp_minus_1)
    qed
    ultimately show ?thesis using u(1) by blast
  qed
  have pre: "crash_ok s (apply_writes (take k ?W) (disk s)) (cview s ?d) \<or>
      k < length ?W \<and> crash_ok s (apply_writes (take k ?W) (disk s)) (disk s ?d)" for k
  proof -
    consider (before) j where "j \<le> nat (lh_n s)" "take k ?W = slot_writes s j"
      | (during) j where "j \<le> nat (lh_n s)" "take k ?W =
          slot_writes s (nat (lh_n s)) @ [(?d, ?a, commit_head s)] @ install_writes s j"
      | (after) "take k ?W = ?W"
      by (rule commit_prefix [OF assms, of k])
    then show ?thesis
    proof cases
    case (before j)
    have "length (take k ?W) < length ?W"
      unfolding before(2) using before(1) by (simp add: commit_writes_def slot_writes_def)
    then have "k < length ?W" by simp
    then show ?thesis using crash_before [OF assms before(1)] before(2) by simp
  next
    case (during j)
    then show ?thesis using crash_during [OF assms during(1)] by simp
  next
    case after
    then show ?thesis using crash_after [OF assms] by simp
    qed
  qed
  have "\<forall>k r. rebooted s (apply_writes (take k ?W) (disk s)) r \<longrightarrow>
      (\<exists>u. recover_from_log r = Done () u \<and> head_blocks (disk u ?d ?a) = [] \<and>
        ((\<forall>b. b \<notin> log_area s \<longrightarrow> disk u ?d b = cview s ?d b) \<or>
         k < length ?W \<and> (\<forall>b. b \<notin> log_area s \<longrightarrow> disk u ?d b = disk s ?d b)))"
  proof (intro allI impI)
    fix k r assume r: "rebooted s (apply_writes (take k ?W) (disk s)) r"
    from pre [of k] show "\<exists>u. recover_from_log r = Done () u \<and> head_blocks (disk u ?d ?a) = [] \<and>
        ((\<forall>b. b \<notin> log_area s \<longrightarrow> disk u ?d b = cview s ?d b) \<or>
         k < length ?W \<and> (\<forall>b. b \<notin> log_area s \<longrightarrow> disk u ?d b = disk s ?d b))"
    proof
      assume "crash_ok s (apply_writes (take k ?W) (disk s)) (cview s ?d)"
      from rec [OF r this] show ?thesis by blast
    next
      assume k: "k < length ?W \<and> crash_ok s (apply_writes (take k ?W) (disk s)) (disk s ?d)"
      from rec [OF r conjunct2 [OF k]] k show ?thesis by blast
    qed
  qed
  moreover have "lh_n t = 0" using bio_frame_log(4) [OF loggedD(4) [OF t(2)]] by simp
  moreover have "held t = {}" using loggedD(2) [OF t(2)] by (simp add: quiet_def)
  moreover have "dwrites t = dwrites s @ ?W" "disk t = apply_writes ?W (disk s)" using loggedD(6,7) [OF t(2)] by simp_all
  moreover note t(1)
  ultimately show ?thesis by (intro exI conjI)
qed

theorem commit_crash_atomic_witness:
  "\<exists>t W. commit demo_log = Done () t \<and> dwrites t = dwrites demo_log @ W \<and> lh_n t = 0"
  using commit_crash_atomic [OF demo_log_ready] by blast

text \<open>C7: Recovery can itself be interrupted. From a disk whose log header a commit can
  have written, recovery returns; if the machine stops after any number of recovery's
  own block writes, the disk still has an acceptable header and still stands for the same
  contents, so that running recovery again gives the same result; and when recovery is
  complete the disk holds these contents and the log is empty.\<close>

theorem recovery_idempotent:
  assumes "rebooted r (disk r) r" and "log_geom r" and "head_ok r (disk r)"
  shows "\<exists>t W. recover_from_log r = Done () t \<and> dwrites t = dwrites r @ W \<and> disk t = apply_writes W (disk r) \<and>
    (\<forall>b. b \<notin> log_area r \<longrightarrow> disk t (log_dev r) b = recovered (log_dev r) (log_start r) (disk r) b) \<and>
    (\<forall>k. head_ok r (apply_writes (take k W) (disk r)) \<and>
      (\<forall>b. b \<notin> log_area r \<longrightarrow> recovered (log_dev r) (log_start r) (apply_writes (take k W) (disk r)) b =
        recovered (log_dev r) (log_start r) (disk r) b))"
proof -
  have p: "bio_ok r" "quiet r" "nobusy r" "pinned r = {}" using assms(1) by (simp_all add: rebooted_def)
  obtain t where t: "recover_from_log r = Done () t" "disk t = apply_writes (recover_writes r) (disk r)"
    "dwrites t = dwrites r @ recover_writes r"
    using recover_spec [OF p(1-3) assms(2,3) p(4)] by blast
  have "- 1 \<notin> log_area r"
    using assms(2) by (auto simp: log_area_def log_geom_def FSSIZE_def unsigned_minus_1_eq_mask mask_eq_exp_minus_1)
  then have "head_ok r (apply_writes (take k (recover_writes r)) (disk r))" for k
    by (rule recover_prefix(3) [OF assms(2,3) _ refl refl refl])
  moreover have "disk t (log_dev r) b = recovered (log_dev r) (log_start r) (disk r) b" if "b \<notin> log_area r" for b
    using recover_prefix(2) [OF assms(2,3) that refl refl refl, of "length (recover_writes r)"] t(2) by simp
  ultimately show ?thesis
    using t recover_prefix(1) [OF assms(2,3) _ refl refl refl] by blast
qed


text \<open>A restarted machine whose disk holds a committed transaction for block 100.\<close>

definition demo_reboot :: log_state where
  "demo_reboot = demo_log\<lparr>bufs := replicate NBUF \<lparr>b_busy = False, b_valid = False, b_dirty = False,
      b_dev = - 1, b_blockno = 0, b_data = replicate BSIZE 0\<rparr>,
    disk := put_blk 1 2 (commit_head demo_log) (disk demo_log)\<rparr>"

lemma demo_reboot_ok: "rebooted demo_reboot (disk demo_reboot) demo_reboot" "log_geom demo_reboot"
  "head_ok demo_reboot (disk demo_reboot)"
proof -
  show "rebooted demo_reboot (disk demo_reboot) demo_reboot"
    by (simp add: demo_reboot_def rebooted_def bio_ok_def quiet_def nobusy_def pinned_def buf_ok_def demo_log_fields
        atLeast0LessThan) auto
  show "log_geom demo_reboot"
    by (simp add: demo_reboot_def log_geom_def demo_log_fields LOGSIZE_def MAXOPBLOCKS_def FSSIZE_def)
  have "lh_blocks demo_log = [100]" by (simp add: lh_blocks_def demo_log_fields)
  then show "head_ok demo_reboot (disk demo_reboot)"
    using commit_head_facts(1,2,3) [OF demo_log_ready]
    by (simp add: demo_reboot_def head_ok_def demo_log_fields log_area_def FSSIZE_def)
qed

theorem recovery_idempotent_witness:
  "\<exists>t W. recover_from_log demo_reboot = Done () t \<and> dwrites t = dwrites demo_reboot @ W \<and>
     head_ok demo_reboot (apply_writes (take 1 W) (disk demo_reboot))"
  using recovery_idempotent [OF demo_reboot_ok] by blast

end
