(* ===== verification/Log_Txn.thy ===== *)
theory Log_Txn
  imports Log_Crash
begin

text \<open>
  Transactions from the side of the file system code: the invariant \<open>txn\<close> that holds while
  operations run, \<open>log_write\<close>, \<open>begin_op\<close> and \<open>end_op\<close>.
\<close>

section \<open>Inside a transaction\<close>

text \<open>
  The invariant while file system calls run: exactly the recorded blocks are pinned in the
  cache. Buffers may be in use.
\<close>

definition txn :: "'z log_state_scheme \<Rightarrow> bool" where
  "txn s \<longleftrightarrow> bio_ok s \<and> quiet s \<and> log_geom s \<and> lh_ok s \<and> length (lh_block s) = 30 \<and> pinned s = home_pins s \<and>
     1 \<le> log_outstanding s"

lemma txnD:
  assumes "txn s"
  shows "bio_ok s" "quiet s" "log_geom s" "lh_ok s" "length (lh_block s) = 30" "pinned s = home_pins s"
    "1 \<le> log_outstanding s"
  using assms by (simp_all add: txn_def)

text \<open>What file system code changes: the cache, the disk and the record of the log.\<close>

definition log_frame :: "'z log_state_scheme \<Rightarrow> 'z log_state_scheme \<Rightarrow> bool" where
  "log_frame s t \<longleftrightarrow> (\<exists>ps bs ls dk ws n ns. woken (ptable s) ps \<and>
     t = s\<lparr>ptable := ps, bufs := bs, lru := ls, disk := dk, dwrites := ws, lh_n := n, lh_block := ns\<rparr>)"

lemma log_frameI:
  "woken (ptable s) ps \<Longrightarrow>
    log_frame s (s\<lparr>ptable := ps, bufs := bs, lru := ls, disk := dk, dwrites := ws, lh_n := n, lh_block := ns\<rparr>)"
  unfolding log_frame_def by blast

lemma log_frame_refl [simp]: "log_frame s s"
  using log_frameI [where s = s and ps = "ptable s" and bs = "bufs s" and ls = "lru s" and dk = "disk s"
    and ws = "dwrites s" and n = "lh_n s" and ns = "lh_block s"] by simp

lemma log_frame_bio: "bio_frame s t \<Longrightarrow> log_frame s t"
proof -
  assume "bio_frame s t"
  then obtain ps bs ls dk ws where t: "woken (ptable s) ps"
    "t = s\<lparr>ptable := ps, bufs := bs, lru := ls, disk := dk, dwrites := ws\<rparr>"
    by (auto simp: bio_frame_def)
  have "t = s\<lparr>ptable := ps, bufs := bs, lru := ls, disk := dk, dwrites := ws, lh_n := lh_n s, lh_block := lh_block s\<rparr>"
    unfolding t(2) by (rule log_state.equality) simp_all
  with t(1) show ?thesis by (simp only: log_frameI)
qed

lemma log_frame_trans:
  assumes "log_frame s t" and "log_frame t u"
  shows "log_frame s u"
proof -
  obtain ps bs ls dk ws n ns where t: "woken (ptable s) ps"
    "t = s\<lparr>ptable := ps, bufs := bs, lru := ls, disk := dk, dwrites := ws, lh_n := n, lh_block := ns\<rparr>"
    using assms(1) by (auto simp: log_frame_def)
  obtain ps' bs' ls' dk' ws' n' ns' where u: "woken (ptable t) ps'"
    "u = t\<lparr>ptable := ps', bufs := bs', lru := ls', disk := dk', dwrites := ws', lh_n := n', lh_block := ns'\<rparr>"
    using assms(2) by (auto simp: log_frame_def)
  have "woken (ptable s) ps'" using t u(1) by (auto intro: woken_trans)
  moreover have "u = s\<lparr>ptable := ps', bufs := bs', lru := ls', disk := dk', dwrites := ws', lh_n := n', lh_block := ns'\<rparr>"
    unfolding u(2) t(2) by (rule log_state.equality) simp_all
  ultimately show ?thesis by (simp only: log_frameI)
qed

lemma log_frameD:
  assumes "log_frame s t"
  shows "log_start t = log_start s" "log_size t = log_size s" "log_dev t = log_dev s" "havedisk1 t = havedisk1 s"
    "log_outstanding t = log_outstanding s" "held t = held s" "curproc t = curproc s" "woken (ptable s) (ptable t)"
    "log_area t = log_area s" "log_geom t = log_geom s" "log_state.more t = log_state.more s" "pmem t = pmem s"
    "log_committing t = log_committing s"
  using assms by (auto simp: log_frame_def log_area_def log_geom_def)

section \<open>Logging a block\<close>

lemma log_slot_facts:
  assumes "lh_ok s"
  shows "log_slot b s \<le> nat (lh_n s)"
    "log_slot b s < nat (lh_n s) \<longleftrightarrow> b \<in> set (lh_blocks s)"
    "log_slot b s < nat (lh_n s) \<Longrightarrow> lh_block s ! log_slot b s = b"
proof -
  let ?f = "find (\<lambda>i. lh_block s ! i = b) [0..<nat (lh_n s)]"
  have n: "nat (lh_n s) \<le> length (lh_block s)" using assms by (simp add: lh_ok_def)
  have "log_slot b s \<le> nat (lh_n s) \<and> (log_slot b s < nat (lh_n s) \<longleftrightarrow> b \<in> set (lh_blocks s)) \<and>
    (log_slot b s < nat (lh_n s) \<longrightarrow> lh_block s ! log_slot b s = b)"
  proof (cases ?f)
    case None
    then have "b \<notin> set (lh_blocks s)" using n by (auto simp: find_None_iff lh_blocks_def in_set_conv_nth)
    with None show ?thesis by (simp add: log_slot_def)
  next
    case (Some i)
    then have "i < nat (lh_n s)" "lh_block s ! i = b" using find_SomeD [OF Some] by auto
    moreover from this have "b \<in> set (lh_blocks s)" using lh_blocks_nth(1) [OF assms] by blast
    ultimately show ?thesis using Some by (simp add: log_slot_def)
  qed
  then show "log_slot b s \<le> nat (lh_n s)"
    "log_slot b s < nat (lh_n s) \<longleftrightarrow> b \<in> set (lh_blocks s)"
    "log_slot b s < nat (lh_n s) \<Longrightarrow> lh_block s ! log_slot b s = b" by blast+
qed

text \<open>The record of the log after \<open>log_write\<close>.\<close>

definition lh_record :: "uint \<Rightarrow> 'z log_state_scheme \<Rightarrow> 'z log_state_scheme" where
  "lh_record bno s = (let i = log_slot bno s in s\<lparr>lh_block := (lh_block s)[i := bno],
     lh_n := (if int i = lh_n s then lh_n s + 1 else lh_n s)\<rparr>)"

lemma lh_record_blocks:
  assumes "lh_ok s" and "lh_n s < int (length (lh_block s))"
  shows "lh_blocks (lh_record b s) = (if b \<in> set (lh_blocks s) then lh_blocks s else lh_blocks s @ [b])"
    "lh_n (lh_record b s) = (if b \<in> set (lh_blocks s) then lh_n s else lh_n s + 1)"
proof -
  note f = log_slot_facts [OF assms(1), of b]
  have n: "0 \<le> lh_n s" using assms(1) by (simp add: lh_ok_def)
  show l: "lh_n (lh_record b s) = (if b \<in> set (lh_blocks s) then lh_n s else lh_n s + 1)"
    using f(1,2) n by (auto simp: lh_record_def Let_def)
  show "lh_blocks (lh_record b s) = (if b \<in> set (lh_blocks s) then lh_blocks s else lh_blocks s @ [b])"
  proof (cases "b \<in> set (lh_blocks s)")
    case True
    with f(2,3) have "(lh_block s)[log_slot b s := b] = lh_block s" by (metis list_update_id)
    with True l show ?thesis by (simp add: lh_blocks_def lh_record_def Let_def)
  next
    case False
    with f(1,2) have "log_slot b s = nat (lh_n s)" by simp
    with False l n assms(2) show ?thesis
      by (simp add: lh_blocks_def lh_record_def Let_def nat_add_distrib take_Suc_conv_app_nth)
  qed
qed

lemma lh_record_simps [simp]:
  "bufs (lh_record b s) = bufs s" "disk (lh_record b s) = disk s" "dwrites (lh_record b s) = dwrites s"
  "lru (lh_record b s) = lru s" "quiet (lh_record b s) = quiet s" "log_geom (lh_record b s) = log_geom s"
  "log_area (lh_record b s) = log_area s" "log_dev (lh_record b s) = log_dev s" "log_size (lh_record b s) = log_size s"
  "length (lh_block (lh_record b s)) = length (lh_block s)" "log_outstanding (lh_record b s) = log_outstanding s"
  "bio_ok (lh_record b s) = bio_ok s" "pinned (lh_record b s) = pinned s"
  by (simp_all add: lh_record_def Let_def quiet_def log_geom_def log_area_def bio_ok_def pinned_def)

lemma lh_record_frame: "log_frame s (lh_record b s)"
proof -
  have "lh_record b s = s\<lparr>ptable := ptable s, bufs := bufs s, lru := lru s, disk := disk s, dwrites := dwrites s,
      lh_n := lh_n (lh_record b s), lh_block := lh_block (lh_record b s)\<rparr>"
    unfolding lh_record_def Let_def by (rule log_state.equality) simp_all
  then show ?thesis using log_frameI [of s "ptable s"] by (metis woken_refl)
qed

lemma pinned_set:
  assumes "i < NBUF" and "length (bufs s) = NBUF" and "bufs t = (bufs s)[i := (bufs s ! i)\<lparr>b_dirty := True\<rparr>]"
  shows "pinned t = insert (blk (bufs s ! i)) (pinned s)"
proof -
  have k: "b_dirty (bufs t ! k) \<longleftrightarrow> k = i \<or> b_dirty (bufs s ! k)" "blk (bufs t ! k) = blk (bufs s ! k)" if "k < NBUF" for k
    using that assms by (cases "k = i"; simp)+
  show ?thesis
  proof (intro set_eqI iffI)
    fix x assume "x \<in> pinned t"
    then obtain j where "j < NBUF" "b_dirty (bufs t ! j)" "blk (bufs t ! j) = x" by (rule pinned_obtain)
    then show "x \<in> insert (blk (bufs s ! i)) (pinned s)" using k [of j] by (auto simp: pinned_def)
  next
    fix x assume "x \<in> insert (blk (bufs s ! i)) (pinned s)"
    then consider "x = blk (bufs s ! i)" | "x \<in> pinned s" by auto
    then show "x \<in> pinned t"
    proof cases
      case 1
      then show ?thesis using k [OF assms(1)] assms(1) by (auto simp: pinned_def intro!: exI [of _ i])
    next
      case 2
      then obtain j where "j < NBUF" "b_dirty (bufs s ! j)" "blk (bufs s ! j) = x" by (rule pinned_obtain)
      then show ?thesis using k [of j] by (auto simp: pinned_def intro!: exI [of _ j])
    qed
  qed
qed

lemma log_write_spec:
  assumes "txn s" and "owns s i (log_dev s) b v" and "lh_n s < log_size s - 1" and "b \<notin> log_area s"
  shows "\<exists>t. log_write i s = Done () t \<and> txn t \<and> log_frame s t \<and>
    bufs t = (bufs s)[i := (bufs s ! i)\<lparr>b_dirty := True\<rparr>] \<and> cview t = cview s \<and> disk t = disk s \<and>
    dwrites t = dwrites s \<and>
    lh_blocks t = (if b \<in> set (lh_blocks s) then lh_blocks s else lh_blocks s @ [b]) \<and>
    lh_n t = (if b \<in> set (lh_blocks s) then lh_n s else lh_n s + 1)"
proof -
  note x = txnD [OF assms(1)]
  have i: "i < NBUF" "blk (bufs s ! i) = (log_dev s, b)" "b_busy (bufs s ! i)" "b_valid (bufs s ! i)"
    using assms(2) by (simp_all add: owns_def)
  have fs: "b < FSSIZE" using busy_real(2) [OF x(1) i(1,3)] i(2) by simp
  have size: "log_size s \<le> 30" using x(3) by (simp add: log_geom_def LOGSIZE_def MAXOPBLOCKS_def)
  let ?r = "lh_record b s"
  define t where "t = upd_buf i (\<lambda>x. x\<lparr>b_dirty := True\<rparr>) ?r"
  have n: "lh_n s < int (length (lh_block s))" using assms(3) size x(5) by simp
  note rb = lh_record_blocks [OF x(4) n, of b]
  have lb: "b_blockno (bufs s ! i) = b" using i(2) by simp
  have ls: "log_slot b (s\<lparr>held := h\<rparr>) = log_slot b s" for h by (simp add: log_slot_def split: option.split)
  have "held s = {}" using x(2) by (simp add: quiet_def)
  moreover have "(lh_record b (s\<lparr>held := {LkLog}\<rparr>)) = (lh_record b s)\<lparr>held := {LkLog}\<rparr>"
    unfolding lh_record_def Let_def ls by (rule log_state.equality) simp_all
  moreover have "held t = {}" "t\<lparr>held := {}\<rparr> = t"
    using \<open>held s = {}\<close> by (simp_all add: t_def upd_buf_def lh_record_def Let_def)
  ultimately have ex: "log_write i s = Done () t"
    using assms(3) size x(7) lb
    by (simp add: log_write_def LOGSIZE_def MAXOPBLOCKS_def lh_record_def Let_def ls t_def upd_buf_def)
  have t: "bufs t = (bufs s)[i := (bufs s ! i)\<lparr>b_dirty := True\<rparr>]" "disk t = disk s" "dwrites t = dwrites s"
    "lru t = lru s" "quiet t" by (simp_all add: t_def x(2))
  have fr: "log_frame s t"
    unfolding t_def by (rule log_frame_trans [OF lh_record_frame log_frame_bio [OF bio_frame_upd_buf]])
  note len = bio_ok_length [OF x(1)]
  have ok: "bio_ok t"
  proof (rule bio_ok_upd [OF x(1) t(1)])
    show "blk (bufs s ! j) \<noteq> blk ((bufs s ! i)\<lparr>b_dirty := True\<rparr>)" if "j < NBUF" "j \<noteq> i" for j
      using that x(1) i(1) busy_real(1) [OF x(1) i(1,3)] by (intro blk_neq [of s i]) simp_all
    show "buf_ok (disk t) ((bufs s ! i)\<lparr>b_dirty := True\<rparr>)"
      using bio_ok_D(4) [OF x(1) i(1)] i(3,4) t(2) by (auto simp: buf_ok_def split: if_splits)
  qed (use bio_ok_D [OF x(1)] t in simp_all)
  have cv: "cview t = cview s"
    by (rule cview_cong) (use t i(1) len in \<open>auto simp: nth_list_update\<close>)
  have blocks: "lh_blocks t = (if b \<in> set (lh_blocks s) then lh_blocks s else lh_blocks s @ [b])"
    "lh_n t = (if b \<in> set (lh_blocks s) then lh_n s else lh_n s + 1)"
    using rb by (simp_all add: t_def upd_buf_def lh_blocks_def)
  have lok: "lh_ok t"
    using x(4) blocks assms(3,4) fs n log_frameD(2,9) [OF fr] x(5) unfolding lh_ok_def
    by (auto simp: t_def upd_buf_def)
  have "pinned t = insert (log_dev s, b) (pinned s)" using pinned_set [OF i(1) len t(1)] i(2) by simp
  then have "pinned t = home_pins t"
    using x(6) blocks(1) log_frameD(3) [OF fr] by (auto simp: home_pins_def)
  then have "txn t"
    using ok t(5) lok x(3,5,7) log_frameD [OF fr] by (simp add: txn_def) (simp add: t_def upd_buf_def)
  with ex fr t cv blocks show ?thesis by (intro exI conjI)
qed

section \<open>Starting and ending operations\<close>

lemma op_fields [simp]:
  "bio_ok (s\<lparr>log_outstanding := k, log_committing := c\<rparr>) = bio_ok s"
  "quiet (s\<lparr>log_outstanding := k, log_committing := c\<rparr>) = quiet s"
  "nobusy (s\<lparr>log_outstanding := k, log_committing := c\<rparr>) = nobusy s"
  "pinned (s\<lparr>log_outstanding := k, log_committing := c\<rparr>) = pinned s"
  "log_geom (s\<lparr>log_outstanding := k, log_committing := c\<rparr>) = log_geom s"
  "log_area (s\<lparr>log_outstanding := k, log_committing := c\<rparr>) = log_area s"
  "lh_blocks (s\<lparr>log_outstanding := k, log_committing := c\<rparr>) = lh_blocks s"
  "home_pins (s\<lparr>log_outstanding := k, log_committing := c\<rparr>) = home_pins s"
  "cview (s\<lparr>log_outstanding := k, log_committing := c\<rparr>) = cview s"
  by (simp_all add: bio_ok_def quiet_def nobusy_def pinned_def log_geom_def log_area_def lh_blocks_def home_pins_def)
    (rule cview_cong; simp)

lemma commit_ready_op [simp]: "commit_ready (s\<lparr>log_outstanding := k, log_committing := c\<rparr>) = commit_ready s"
  by (simp add: commit_ready_def log_ready_def lh_ok_def)

text \<open>Admission to the log. When no commit is running and the space already used plus
  ten blocks for every running operation and for the new one fits the log, begin_op
  returns at once with the operation counted and all locks released, so that the
  reservation of ten blocks per operation still fits. Otherwise the process goes to
  sleep on the log, having changed nothing of it, and with only the table lock held.\<close>

theorem begin_op_admission:
  assumes "held s = {}" and "curproc s = Some i" and "i < length (ptable s)"
  shows "if \<not> log_committing s \<and> lh_n s + (log_outstanding s + 1) * MAXOPBLOCKS \<le> LOGSIZE
    then begin_op s = Done () (s\<lparr>log_outstanding := log_outstanding s + 1\<rparr>)
    else \<exists>t. begin_op s = Swtch t \<and> held t = {LkPtable} \<and> p_state (ptable t ! i) = SLEEPING \<and>
      p_chan (ptable t ! i) = Some ChLog \<and> log_outstanding t = log_outstanding s \<and> lh_n t = lh_n s \<and>
      log_committing t = log_committing s"
proof (cases "\<not> log_committing s \<and> lh_n s + (log_outstanding s + 1) * MAXOPBLOCKS \<le> LOGSIZE")
  case True
  then show ?thesis
    using assms(1) by (simp add: begin_op_def begin_op_loop_def not_less)
next
  case False
  define t where "t = upd_proc i (\<lambda>p. p\<lparr>p_chan := Some ChLog, p_state := SLEEPING\<rparr>) (s\<lparr>held := {LkPtable}\<rparr>)"
  have sl: "sleep ChLog LkLog (s\<lparr>held := {LkLog}\<rparr>) = Swtch t"
    using assms by (simp add: sleep_def sched_def t_def cur_def insert_Diff_if upd_proc_def)
  have "begin_op s = Swtch t"
    using False assms(1) sl by (auto simp: begin_op_def begin_op_loop_def not_le)
  moreover have "held t = {LkPtable}" "p_state (ptable t ! i) = SLEEPING" "p_chan (ptable t ! i) = Some ChLog"
    "log_outstanding t = log_outstanding s" "lh_n t = lh_n s" "log_committing t = log_committing s"
    using assms(3) by (simp_all add: t_def upd_proc_def)
  ultimately show ?thesis using False by auto
qed

theorem begin_op_admission_witness:
  "begin_op (demo_log\<lparr>log_committing := False\<rparr>) = Done () (demo_log\<lparr>log_committing := False, log_outstanding := 1\<rparr>)"
proof -
  have "log_outstanding demo_log = 0" "0 < length (ptable demo_log)"
    by (simp_all add: demo_log_def boot_disk_state_def disk_state.defs kmem_state.defs bare_kstate_def NPROC_def)
  then show ?thesis
    using begin_op_admission [of "demo_log\<lparr>log_committing := False\<rparr>" 0] demo_log_fields
    by (simp add: LOGSIZE_def MAXOPBLOCKS_def)
qed

text \<open>C6: The last operation commits. When the only running operation ends, end_op returns
  with no operation running, no commit in progress, no lock held and the recorded
  transaction on disk: every block outside the log has the contents the operation left in
  the cache, and nothing is pinned any more.\<close>

theorem end_op_commits:
  assumes "commit_ready s" and "log_outstanding s = 1" and "\<not> log_committing s"
  shows "\<exists>t. end_op s = Done () t \<and> log_outstanding t = 0 \<and> \<not> log_committing t \<and> held t = {} \<and>
    pinned t = {} \<and> lh_n t = 0 \<and>
    (\<forall>b. b \<notin> log_area s \<longrightarrow> disk t (log_dev s) b = cview s (log_dev s) b)"
proof -
  have h: "held s = {}" using log_readyD(2) [OF commit_readyD(1) [OF assms(1)]] by (simp add: quiet_def)
  let ?s = "s\<lparr>log_outstanding := 0, log_committing := True\<rparr>"
  have r: "commit_ready ?s" using assms(1) by simp
  note c = commit_readyD [OF r]
  obtain t where t: "commit ?s = Done () t" "logged (?s\<lparr>lh_n := 0\<rparr>) t (commit_writes ?s)" "pinned t = {}"
    using commit_spec [OF c(1-3)] by blast
  note l = loggedD [OF t(2)] and f = bio_frame_log [OF loggedD(4) [OF t(2)]]
  have ht: "held t = {}" using l(2) by (simp add: quiet_def)
  let ?u = "t\<lparr>log_committing := False, ptable := map (wake_proc ChLog) (ptable t)\<rparr>"
  have e1: "s\<lparr>log_outstanding := 0, log_committing := True, held := {}\<rparr> = ?s"
    using h by (intro log_state.equality) simp_all
  have e2: "t\<lparr>log_committing := False, ptable := map (wake_proc ChLog) (ptable t), held := {}\<rparr> = ?u"
    using ht by (intro log_state.equality) simp_all
  have e: "end_op s = Done () ?u"
    using t(1) ht h assms(2,3) by (simp add: end_op_def e1 e2)
  have ar: "log_area ?s = log_area s" "log_dev ?s = log_dev s" by simp_all
  have D: "disk t (log_dev s) b = cview s (log_dev s) b" if b: "b \<notin> log_area s" for b
  proof -
    have hd: "head_blocks (disk t (log_dev s) (log_start s)) = []"
      using l(6) commit_head_facts(6) [OF r, of "lh_block s"] by (simp add: commit_writes_def)
    have "recovered (log_dev s) (log_start s) (disk t) b = cview s (log_dev s) b"
      using crash_after [OF r] l(6) b by (simp add: crash_ok_def)
    then show ?thesis using recovered_out [of b "disk t" "log_dev s" "log_start s"] hd by simp
  qed
  have "pinned ?u = {}" using t(3) by (simp add: pinned_def)
  moreover have "log_outstanding ?u = 0" "\<not> log_committing ?u" "held ?u = {}" "lh_n ?u = 0"
    using f ht by simp_all
  moreover have "\<forall>b. b \<notin> log_area s \<longrightarrow> disk ?u (log_dev s) b = cview s (log_dev s) b" using D by simp
  moreover note e
  ultimately show ?thesis by (intro exI conjI)
qed

theorem end_op_commits_witness:
  "\<exists>t. end_op (demo_log\<lparr>log_outstanding := 1, log_committing := False\<rparr>) = Done () t \<and> log_outstanding t = 0"
  using end_op_commits [of "demo_log\<lparr>log_outstanding := 1, log_committing := False\<rparr>"] demo_log_ready
  by auto



end
