(* ===== verification/Ulib.thy ===== *)
theory Ulib
  imports Cstring
begin

text \<open>
  The C library of user programs (\<^verbatim>\<open>src/ulib.c\<close>). Functions that only read a C string take
  the characters before its terminating NUL; functions that write take the byte-addressed
  memory of the process, or the buffer they fill.
\<close>

abbreviation NUL :: char where
  "NUL \<equiv> CHR 0x00"

section \<open>Strings\<close>

partial_function (option) strcpy :: "mem \<Rightarrow> uint \<Rightarrow> uint \<Rightarrow> mem option" where
  "strcpy m s t =
     (let c = m t; m' = m(s := c)
      in if c \<noteq> 0 then strcpy m' (s + 1) (t + 1) else Some m')"

fun strcmp :: "string \<Rightarrow> string \<Rightarrow> int" where
  "strcmp [] [] = 0"
| "strcmp (p # ps) [] = of_char p"
| "strcmp [] (q # qs) = - of_char q"
| "strcmp (p # ps) (q # qs) = (if p = q then strcmp ps qs else of_char p - of_char q)"

fun u_strlen :: "string \<Rightarrow> nat" where
  "u_strlen [] = 0"
| "u_strlen (c # cs) = Suc (u_strlen cs)"

definition u_memset :: "mem \<Rightarrow> uint \<Rightarrow> uint \<Rightarrow> uint \<Rightarrow> mem" where
  "u_memset m dst c n = stosb m dst (ucast c) (unat n)"

text \<open>The offset of the first \<open>c\<close>; no pointer is returned for the terminating NUL.\<close>

fun strchr :: "string \<Rightarrow> char \<Rightarrow> nat option" where
  "strchr [] c = None"
| "strchr (x # s) c = (if x = c then Some 0 else map_option Suc (strchr s c))"

definition u_memmove :: "mem \<Rightarrow> uint \<Rightarrow> uint \<Rightarrow> int \<Rightarrow> mem" where
  "u_memmove m vdst vsrc n = copy_fwd m vdst vsrc (nat n)"

section \<open>Input\<close>

text \<open>
  \<open>gets\<close> reads characters one by one: the standard input is the list of the characters
  still to come, a read at its end returns 0. \<open>gets_loop k\<close> runs while \<open>i + 1 < max\<close>, with
  \<open>k = max - 1 - i\<close>; it gives the characters read and the input left.
\<close>

fun gets_loop :: "nat \<Rightarrow> string \<Rightarrow> string \<times> string" where
  "gets_loop 0 inp = ([], inp)"
| "gets_loop (Suc k) [] = ([], [])"
| "gets_loop (Suc k) (c # inp) =
     (if c = CHR 0x0A \<or> c = CHR 0x0D then ([c], inp)
      else let (cs, rest) = gets_loop k inp in (c # cs, rest))"

definition gets :: "string \<Rightarrow> int \<Rightarrow> string \<Rightarrow> string \<times> string" where
  "gets buf mx inp =
     (let (cs, rest) = gets_loop (nat (mx - 1)) inp
      in (cs @ NUL # drop (length cs + 1) buf, rest))"

text \<open>\<open>n = n*10 + *s++ - '0'\<close> on 32-bit integers that wrap.\<close>

fun atoi_loop :: "uint \<Rightarrow> string \<Rightarrow> uint" where
  "atoi_loop n [] = n"
| "atoi_loop n (c # s) =
     (if 48 \<le> (of_char c :: nat) \<and> (of_char c :: nat) \<le> 57
      then atoi_loop (n * 10 + of_char c - 48) s else n)"

definition atoi :: "string \<Rightarrow> uint" where
  "atoi s = atoi_loop 0 s"

section \<open>Lemmas\<close>

lemma strchr_None_iff [simp]: "strchr s c = None \<longleftrightarrow> c \<notin> set s"
  by (induction s) auto

lemma strchr_SomeD: "strchr s c = Some i \<Longrightarrow> i < length s \<and> s ! i = c \<and> c \<notin> set (take i s)"
  by (induction s arbitrary: i) (auto split: if_splits)

lemma of_char_zero_iff: "of_char c = (0 :: int) \<longleftrightarrow> c = NUL"
proof
  assume "of_char c = (0 :: int)"
  then have "of_char c = (of_char NUL :: int)" by simp
  then show "c = NUL" by (simp only: of_char_eq_iff)
qed simp

lemma strcmp_zero_iff: "NUL \<notin> set p \<Longrightarrow> NUL \<notin> set q \<Longrightarrow> strcmp p q = 0 \<longleftrightarrow> p = q"
  by (induction p q rule: strcmp.induct) (auto simp: of_char_zero_iff)

lemma gets_loop_split: "gets_loop k inp = (cs, rest) \<Longrightarrow> inp = cs @ rest \<and> length cs \<le> k"
  by (induction k inp arbitrary: cs rest rule: gets_loop.induct)
    (auto split: if_splits prod.splits)

end
