(* ===== verification/Sh_Parse.thy ===== *)
theory Sh_Parse
  imports Ulib
begin

text \<open>
  The command parser of the shell (\<^verbatim>\<open>src/sh.c\<close>): the recursive-descent parser over the
  input line, from \<open>gettoken\<close> to \<open>parsecmd\<close>, with \<open>nulterminate\<close>. The line is a list of
  characters that ends with a NUL, a pointer into it is an index, and \<open>es\<close> is the index of
  the NUL. The parser's loops and recursive calls take fuel; \<open>parsecmd\<close> gives four units
  per character and four more, which is shown to be enough for every line.
\<close>

section \<open>Commands\<close>

text \<open>
  A parsed command over the type of its words: the parser makes pairs of the start and the
  end of a word in the line. The argument vector of \<open>EXEC\<close> is the list of the entries
  before its null pointer.
\<close>

datatype 'w cmd =
    EXEC "'w list"
  | REDIR "'w cmd" 'w int int
  | PIPE "'w cmd" "'w cmd"
  | LIST "'w cmd" "'w cmd"
  | BACK "'w cmd"

definition MAXARGS :: nat where "MAXARGS = 10"

definition O_RDONLY :: int where "O_RDONLY = 0"
definition O_WRONLY :: int where "O_WRONLY = 1"
definition O_RDWR :: int where "O_RDWR = 2"
definition O_CREATE :: int where "O_CREATE = 0x200"

definition execcmd :: "'w cmd" where
  "execcmd = EXEC []"

definition redircmd :: "'w cmd \<Rightarrow> 'w \<Rightarrow> int \<Rightarrow> int \<Rightarrow> 'w cmd" where
  "redircmd subcmd file mode fd = REDIR subcmd file mode fd"

definition pipecmd :: "'w cmd \<Rightarrow> 'w cmd \<Rightarrow> 'w cmd" where
  "pipecmd left right = PIPE left right"

definition listcmd :: "'w cmd \<Rightarrow> 'w cmd \<Rightarrow> 'w cmd" where
  "listcmd left right = LIST left right"

definition backcmd :: "'w cmd \<Rightarrow> 'w cmd" where
  "backcmd subcmd = BACK subcmd"

text \<open>
  \<open>parseexec\<close> keeps a pointer to the \<open>execcmd\<close> it made while it wraps redirections around
  it; storing the next argument through that pointer changes the innermost command.
\<close>

fun add_arg :: "'w \<Rightarrow> 'w cmd \<Rightarrow> 'w cmd" where
  "add_arg w (EXEC ws) = EXEC (ws @ [w])"
| "add_arg w (REDIR c f m d) = REDIR (add_arg w c) f m d"
| "add_arg w c = c"

section \<open>Tokens\<close>

definition whitespace :: string where
  "whitespace = [CHR '' '', CHR 0x09, CHR 0x0D, CHR 0x0A, CHR 0x0B]"

definition symbols :: string where
  "symbols = ''<|>&;()''"

function skip_ws :: "string \<Rightarrow> nat \<Rightarrow> nat \<Rightarrow> nat" where
  "skip_ws buf es s =
     (if s < es \<and> strchr whitespace (buf ! s) \<noteq> None then skip_ws buf es (Suc s) else s)"
  by auto
termination by (relation "measure (\<lambda>(_, es, s). es - s)") auto

function skip_word :: "string \<Rightarrow> nat \<Rightarrow> nat \<Rightarrow> nat" where
  "skip_word buf es s =
     (if s < es \<and> strchr whitespace (buf ! s) = None \<and> strchr symbols (buf ! s) = None
      then skip_word buf es (Suc s) else s)"
  by auto
termination by (relation "measure (\<lambda>(_, es, s). es - s)") auto

declare skip_ws.simps [simp del] skip_word.simps [simp del]

text \<open>\<open>gettoken\<close> gives the token's kind, its start and end and the new position.\<close>

definition gettoken :: "string \<Rightarrow> nat \<Rightarrow> nat \<Rightarrow> char \<times> nat \<times> nat \<times> nat" where
  "gettoken buf es s0 =
     (let s = skip_ws buf es s0; q = s; c = buf ! s;
          (ret, s) =
            (if c = NUL then (c, s)
             else if c \<in> set ''|();&<'' then (c, s + 1)
             else if c = CHR ''>'' then
               (if buf ! (s + 1) = CHR ''>'' then (CHR ''+'', s + 2) else (c, s + 1))
             else (CHR ''a'', skip_word buf es s))
      in (ret, q, s, skip_ws buf es s))"

definition peek :: "string \<Rightarrow> nat \<Rightarrow> nat \<Rightarrow> string \<Rightarrow> nat \<times> bool" where
  "peek buf es s0 toks =
     (let s = skip_ws buf es s0
      in (s, buf ! s \<noteq> NUL \<and> strchr toks (buf ! s) \<noteq> None))"

section \<open>Parser\<close>

text \<open>A parse gives a result and the new position, calls \<open>panic\<close>, or runs out of fuel.\<close>

datatype 'a presult = POk 'a nat | PPanic string | PFuel

definition pbind :: "'a presult \<Rightarrow> ('a \<Rightarrow> nat \<Rightarrow> 'b presult) \<Rightarrow> 'b presult" where
  "pbind r f = (case r of POk x s \<Rightarrow> f x s | PPanic msg \<Rightarrow> PPanic msg | PFuel \<Rightarrow> PFuel)"

type_synonym span = "nat \<times> nat"

fun parseredirs :: "nat \<Rightarrow> string \<Rightarrow> nat \<Rightarrow> span cmd \<Rightarrow> nat \<Rightarrow> span cmd presult" where
  "parseredirs 0 buf es cmd s = PFuel"
| "parseredirs (Suc n) buf es cmd s =
     (let (s, more) = peek buf es s ''<>''
      in if \<not> more then POk cmd s
         else let (tok, _, _, s) = gettoken buf es s;
                  (w, q, eq, s) = gettoken buf es s
              in if w \<noteq> CHR ''a'' then PPanic ''missing file for redirection''
                 else parseredirs n buf es
                   (if tok = CHR ''<'' then redircmd cmd (q, eq) O_RDONLY 0
                    else if tok = CHR ''>'' then redircmd cmd (q, eq) (O_WRONLY OR O_CREATE) 1
                    else if tok = CHR ''+'' then redircmd cmd (q, eq) (O_WRONLY OR O_CREATE) 1
                    else cmd) s)"

text \<open>The loop of \<open>parseexec\<close> over the arguments.\<close>

fun parseargs :: "nat \<Rightarrow> string \<Rightarrow> nat \<Rightarrow> nat \<Rightarrow> span cmd \<Rightarrow> nat \<Rightarrow> span cmd presult" where
  "parseargs 0 buf es argc ret s = PFuel"
| "parseargs (Suc n) buf es argc ret s =
     (let (s, stop) = peek buf es s ''|)&;''
      in if stop then POk ret s
         else let (tok, q, eq, s) = gettoken buf es s
              in if tok = NUL then POk ret s
                 else if tok \<noteq> CHR ''a'' then PPanic ''syntax''
                 else if argc + 1 \<ge> MAXARGS then PPanic ''too many args''
                 else pbind (parseredirs n buf es (add_arg (q, eq) ret) s)
                        (parseargs n buf es (argc + 1)))"

text \<open>The loop of \<open>parseline\<close> over the ampersands.\<close>

fun parsebacks :: "nat \<Rightarrow> string \<Rightarrow> nat \<Rightarrow> span cmd \<Rightarrow> nat \<Rightarrow> span cmd presult" where
  "parsebacks 0 buf es cmd s = PFuel"
| "parsebacks (Suc n) buf es cmd s =
     (let (s, more) = peek buf es s ''&''
      in if more then let (_, _, _, s) = gettoken buf es s in parsebacks n buf es (backcmd cmd) s
         else POk cmd s)"

function (sequential) parseline :: "nat \<Rightarrow> string \<Rightarrow> nat \<Rightarrow> nat \<Rightarrow> span cmd presult"
  and parsepipe :: "nat \<Rightarrow> string \<Rightarrow> nat \<Rightarrow> nat \<Rightarrow> span cmd presult"
  and parseexec :: "nat \<Rightarrow> string \<Rightarrow> nat \<Rightarrow> nat \<Rightarrow> span cmd presult"
  and parseblock :: "nat \<Rightarrow> string \<Rightarrow> nat \<Rightarrow> nat \<Rightarrow> span cmd presult"
where
  "parseline 0 buf es s = PFuel"
| "parseline (Suc n) buf es s =
     pbind (parsepipe n buf es s) (\<lambda>cmd s.
     pbind (parsebacks n buf es cmd s) (\<lambda>cmd s.
       let (s, more) = peek buf es s '';''
       in if more
          then let (_, _, _, s) = gettoken buf es s
               in pbind (parseline n buf es s) (\<lambda>right s. POk (listcmd cmd right) s)
          else POk cmd s))"
| "parsepipe 0 buf es s = PFuel"
| "parsepipe (Suc n) buf es s =
     pbind (parseexec n buf es s) (\<lambda>cmd s.
       let (s, more) = peek buf es s ''|''
       in if more
          then let (_, _, _, s) = gettoken buf es s
               in pbind (parsepipe n buf es s) (\<lambda>right s. POk (pipecmd cmd right) s)
          else POk cmd s)"
| "parseexec 0 buf es s = PFuel"
| "parseexec (Suc n) buf es s =
     (let (s, block) = peek buf es s ''(''
      in if block then parseblock n buf es s
         else pbind (parseredirs n buf es execcmd s) (parseargs n buf es 0))"
| "parseblock 0 buf es s = PFuel"
| "parseblock (Suc n) buf es s =
     (let (s, open) = peek buf es s ''(''
      in if \<not> open then PPanic ''parseblock''
         else let (_, _, _, s) = gettoken buf es s
              in pbind (parseline n buf es s) (\<lambda>cmd s.
                   let (s, close) = peek buf es s '')''
                   in if \<not> close then PPanic ''syntax - missing )''
                      else let (_, _, _, s) = gettoken buf es s
                           in parseredirs n buf es cmd s))"
  by pat_completeness auto
termination
  by (relation "measure (case_sum (case_sum fst fst) (case_sum fst fst))") simp_all

text \<open>\<open>*eargv[i] = 0\<close> and \<open>*efile = 0\<close>.\<close>

fun nulterminate :: "span cmd \<Rightarrow> string \<Rightarrow> string" where
  "nulterminate (EXEC ws) buf = fold (\<lambda>(q, eq) b. b[eq := NUL]) ws buf"
| "nulterminate (REDIR c (q, eq) m d) buf = (nulterminate c buf)[eq := NUL]"
| "nulterminate (PIPE l r) buf = nulterminate r (nulterminate l buf)"
| "nulterminate (LIST l r) buf = nulterminate r (nulterminate l buf)"
| "nulterminate (BACK c) buf = nulterminate c buf"

text \<open>
  \<open>parsecmd\<close> gives the command and the line with its words terminated; the message printed
  for leftovers goes to the terminal and is left out.
\<close>

definition line_end :: "string \<Rightarrow> nat" where
  "line_end buf = length (takeWhile (\<lambda>c. c \<noteq> NUL) buf)"

definition parse_fuel :: "nat \<Rightarrow> nat" where
  "parse_fuel es = 4 * es + 4"

definition parsecmd :: "string \<Rightarrow> (span cmd \<times> string) presult" where
  "parsecmd buf =
     (let es = line_end buf
      in pbind (parseline (parse_fuel es) buf es 0) (\<lambda>cmd s.
           let (s, _) = peek buf es s ''''
           in if s \<noteq> es then PPanic ''syntax'' else POk (cmd, nulterminate cmd buf) s))"

text \<open>The C string at a position, and the command with the strings its words point to.\<close>

definition cstr_at :: "string \<Rightarrow> nat \<Rightarrow> string" where
  "cstr_at buf q = takeWhile (\<lambda>c. c \<noteq> NUL) (drop q buf)"

definition cmd_strings :: "string \<Rightarrow> span cmd \<Rightarrow> string cmd" where
  "cmd_strings buf c = map_cmd (\<lambda>(q, eq). cstr_at buf q) c"

section \<open>Tokens lie in the line\<close>

definition nul_end :: "string \<Rightarrow> nat \<Rightarrow> bool" where
  "nul_end buf es \<longleftrightarrow> es < length buf \<and> buf ! es = NUL \<and> (\<forall>i < es. buf ! i \<noteq> NUL)"

definition wordch :: "char \<Rightarrow> bool" where
  "wordch c \<longleftrightarrow> c \<noteq> NUL \<and> c \<notin> set whitespace \<and> c \<notin> set symbols"

text \<open>A word of the line: word characters, up to a character that is none.\<close>

definition tok_ok :: "string \<Rightarrow> nat \<Rightarrow> span \<Rightarrow> bool" where
  "tok_ok buf es w \<longleftrightarrow> fst w < snd w \<and> snd w \<le> es \<and>
     (\<forall>i. fst w \<le> i \<and> i < snd w \<longrightarrow> wordch (buf ! i)) \<and> \<not> wordch (buf ! snd w)"

lemma skip_ws_facts:
  assumes "s \<le> es"
  shows "s \<le> skip_ws buf es s" "skip_ws buf es s \<le> es"
    "skip_ws buf es s < es \<Longrightarrow> buf ! skip_ws buf es s \<notin> set whitespace"
proof -
  have "s \<le> skip_ws buf es s \<and> skip_ws buf es s \<le> es \<and>
    (skip_ws buf es s < es \<longrightarrow> buf ! skip_ws buf es s \<notin> set whitespace)"
    using assms
  proof (induction buf es s rule: skip_ws.induct)
    case (1 buf es s)
    then show ?case by (subst (1 2 3 4) skip_ws.simps) (auto simp del: not_None_eq)
  qed
  then show "s \<le> skip_ws buf es s" "skip_ws buf es s \<le> es"
    "skip_ws buf es s < es \<Longrightarrow> buf ! skip_ws buf es s \<notin> set whitespace" by blast+
qed

lemma skip_word_facts:
  assumes "s \<le> es" and "nul_end buf es"
  shows "s \<le> skip_word buf es s \<and> skip_word buf es s \<le> es \<and>
    (\<forall>i. s \<le> i \<and> i < skip_word buf es s \<longrightarrow> wordch (buf ! i)) \<and> \<not> wordch (buf ! skip_word buf es s)"
  using assms
proof (induction buf es s rule: skip_word.induct)
  case (1 buf es s)
  show ?case
  proof (cases "s < es \<and> strchr whitespace (buf ! s) = None \<and> strchr symbols (buf ! s) = None")
    case True
    have w: "skip_word buf es s = skip_word buf es (Suc s)"
      by (subst skip_word.simps) (use True in simp)
    have "wordch (buf ! s)" using True 1(3) by (simp add: wordch_def nul_end_def)
    then show ?thesis using 1(1) [OF True] True 1(3) unfolding w
      by (metis Suc_leI Suc_leD le_antisym not_less_eq_eq)
  next
    case False
    have w: "skip_word buf es s = s" by (subst skip_word.simps) (use False in auto)
    have "\<not> wordch (buf ! s)" using False 1(2,3) by (auto simp: wordch_def nul_end_def)
    then show ?thesis using 1(2) unfolding w by auto
  qed
qed

lemma gettoken_facts:
  assumes "s \<le> es" and "nul_end buf es" and g: "gettoken buf es s = (t, q, e, s')"
  shows "s \<le> q" "q \<le> e" "e \<le> s'" "s' \<le> es" "t \<noteq> NUL \<Longrightarrow> q < e"
    "t = CHR ''a'' \<Longrightarrow> tok_ok buf es (q, e)" "t = NUL \<longleftrightarrow> q = es"
proof -
  define r where "r = skip_ws buf es s"
  have r: "s \<le> r" "r \<le> es" "r < es \<Longrightarrow> buf ! r \<notin> set whitespace"
    using skip_ws_facts [OF assms(1), of buf] by (simp_all add: r_def)
  have q: "q = r" and s': "s' = skip_ws buf es e"
    using g by (auto simp: gettoken_def r_def Let_def split: if_splits)
  have z: "buf ! r = NUL \<longleftrightarrow> r = es" using assms(2) r(2) unfolding nul_end_def by (metis le_neq_implies_less)
  have w: "wordch (buf ! r)" if "buf ! r \<noteq> NUL" "buf ! r \<notin> set ''|();&<''" "buf ! r \<noteq> CHR ''>''"
    using that r z by (auto simp: wordch_def symbols_def)
  have two: "r + 2 \<le> es" if "r < es" "buf ! (r + 1) = CHR ''>''"
    using that assms(2) by (cases "r + 1 = es") (auto simp: nul_end_def)
  have sw: "r < skip_word buf es r" if "wordch (buf ! r)"
    using skip_word_facts [OF r(2) assms(2)] that le_neq_implies_less by metis
  have e: "q \<le> e" "e \<le> es" "t \<noteq> NUL \<Longrightarrow> q < e" "t = NUL \<longleftrightarrow> q = es"
    "t = CHR ''a'' \<Longrightarrow> tok_ok buf es (q, e)"
    using g r(2) z w two sw skip_word_facts [OF r(2) assms(2)]
    by (auto simp: gettoken_def r_def [symmetric] Let_def tok_ok_def split: if_splits)
  then show "s \<le> q" "q \<le> e" "e \<le> s'" "s' \<le> es" "t \<noteq> NUL \<Longrightarrow> q < e" "t = NUL \<longleftrightarrow> q = es"
    "t = CHR ''a'' \<Longrightarrow> tok_ok buf es (q, e)"
    using r q skip_ws_facts [OF e(2), of buf] unfolding s' by simp_all
qed

lemma peek_facts:
  assumes "s \<le> es" and "nul_end buf es" and "peek buf es s toks = (s', b)"
  shows "s \<le> s'" "s' \<le> es" "b \<Longrightarrow> s' < es"
  using assms skip_ws_facts [OF assms(1), of buf]
  by (auto simp: peek_def Let_def nul_end_def intro: le_neq_implies_less)

lemma gettoken_advance:
  assumes "s < es" "nul_end buf es" "peek buf es s0 toks = (s, b)" "s0 \<le> es"
    "gettoken buf es s = (t, q, e, s')"
  shows "s < s'"
proof -
  have "skip_ws buf es s0 = s" using assms(3) by (simp add: peek_def Let_def)
  then have "buf ! s \<notin> set whitespace" using skip_ws_facts(3) [OF assms(4), of buf] assms(1) by simp
  then have "skip_ws buf es s = s" by (subst skip_ws.simps) simp
  then have "q = s" using assms(5) by (simp add: gettoken_def Let_def split: if_splits)
  then show ?thesis using gettoken_facts [OF less_imp_le [OF assms(1)] assms(2,5)] assms(1) by auto
qed

section \<open>The parser always ends\<close>

text \<open>
  A parse from \<open>s\<close> is good if it has not run out of fuel and, when it gives a command, has
  moved forward within the line and made a command of words of the line.
\<close>

definition good :: "string \<Rightarrow> nat \<Rightarrow> nat \<Rightarrow> span cmd presult \<Rightarrow> bool" where
  "good buf es s r \<longleftrightarrow> (case r of PFuel \<Rightarrow> False | PPanic msg \<Rightarrow> True
     | POk c s' \<Rightarrow> s \<le> s' \<and> s' \<le> es \<and> (\<forall>w \<in> set_cmd c. tok_ok buf es w))"

lemma good_simps [simp]:
  "good buf es s (POk c s') \<longleftrightarrow> s \<le> s' \<and> s' \<le> es \<and> (\<forall>w \<in> set_cmd c. tok_ok buf es w)"
  "good buf es s (PPanic msg)" "\<not> good buf es s PFuel"
  by (simp_all add: good_def)

lemma pbind_simps [simp]:
  "pbind (POk x s) f = f x s" "pbind (PPanic msg) f = PPanic msg" "pbind PFuel f = PFuel"
  by (simp_all add: pbind_def)

lemma good_pbind:
  assumes "good buf es s r"
    and "\<And>c s'. s \<le> s' \<Longrightarrow> s' \<le> es \<Longrightarrow> \<forall>w \<in> set_cmd c. tok_ok buf es w \<Longrightarrow> good buf es s' (f c s')"
  shows "good buf es s (pbind r f)"
proof (cases r)
  case (POk c s')
  then have "good buf es s' (f c s')" "s \<le> s'" using assms by auto
  then show ?thesis using POk by (cases "f c s'") (auto simp: good_def)
qed (use assms in auto)

lemma if_neg: "(if \<not> b then x else y) = (if b then y else x)"
  by simp

lemma good_mono: "good buf es s' r \<Longrightarrow> s \<le> s' \<Longrightarrow> good buf es s r"
  by (cases r) auto

lemma set_add_arg: "set_cmd (add_arg w c) \<subseteq> insert w (set_cmd c)"
  by (induction w c rule: add_arg.induct) auto

lemma parseredirs_good:
  assumes "nul_end buf es" "s \<le> es" "es - s < n" "\<forall>w \<in> set_cmd c. tok_ok buf es w"
  shows "good buf es s (parseredirs n buf es c s)"
  using assms(2-4)
proof (induction n arbitrary: c s)
  case (Suc n)
  obtain s1 b where p: "peek buf es s ''<>'' = (s1, b)" by fastforce
  obtain t q e s2 where g1: "gettoken buf es s1 = (t, q, e, s2)" by (metis surj_pair)
  obtain t' q' e' s3 where g2: "gettoken buf es s2 = (t', q', e', s3)" by (metis surj_pair)
  note pf = peek_facts [OF Suc.prems(1) assms(1) p]
  note f1 = gettoken_facts [OF pf(2) assms(1) g1]
  note f2 = gettoken_facts [OF f1(4) assms(1) g2]
  show ?case
  proof (cases "b \<and> t' = CHR ''a''")
    case True
    then have adv: "s1 < s2" using gettoken_advance [OF pf(3) assms(1) p Suc.prems(1) g1] by simp
    have *: "s3 \<le> es" "es - s3 < n" "s \<le> s3" using f1 f2 pf adv Suc.prems(1,2) by auto
    have "good buf es s3 (parseredirs n buf es c' s3)" if "set_cmd c' \<subseteq> insert (q', e') (set_cmd c)" for c'
      using Suc.IH [OF *(1,2), of c'] that f2(6) True Suc.prems(3) by blast
    then have "good buf es s (parseredirs n buf es c' s3)" if "set_cmd c' \<subseteq> insert (q', e') (set_cmd c)" for c'
      using that *(3) by (blast intro: good_mono)
    then show ?thesis using True by (auto simp: p g1 g2 Let_def redircmd_def)
  next
    case False
    then show ?thesis using pf Suc.prems(3) by (auto simp: p g1 g2 Let_def)
  qed
qed simp

lemma parseargs_good:
  assumes "nul_end buf es" "s \<le> es" "es - s < n" "\<forall>w \<in> set_cmd c. tok_ok buf es w"
  shows "good buf es s (parseargs n buf es argc c s)"
  using assms(2-4)
proof (induction n arbitrary: argc c s)
  case (Suc n)
  obtain s1 b where p: "peek buf es s ''|)&;'' = (s1, b)" by fastforce
  obtain t q e s2 where g1: "gettoken buf es s1 = (t, q, e, s2)" by (metis surj_pair)
  note pf = peek_facts [OF Suc.prems(1) assms(1) p]
  note f1 = gettoken_facts [OF pf(2) assms(1) g1]
  show ?case
  proof (cases "\<not> b \<and> t = CHR ''a'' \<and> argc + 1 < MAXARGS")
    case True
    have adv: "s < s2" "es - s2 < n" using f1 pf True Suc.prems(1,2) by auto
    have ok: "\<forall>w \<in> set_cmd (add_arg (q, e) c). tok_ok buf es w"
      using set_add_arg [of "(q, e)" c] f1(6) True Suc.prems(3) by blast
    have "good buf es s2 (pbind (parseredirs n buf es (add_arg (q, e) c) s2) (parseargs n buf es (argc + 1)))"
      using adv parseredirs_good [OF assms(1) f1(4) adv(2) ok]
      by (intro good_pbind Suc.IH) auto
    then show ?thesis using True adv by (auto simp: p g1 Let_def intro: good_mono)
  next
    case False
    then show ?thesis using pf f1 Suc.prems(3) by (auto simp: p g1 Let_def)
  qed
qed simp

text \<open>\<open>if(peek(ps, es, toks)) { gettoken(ps, es, 0, 0); ... }\<close>\<close>

lemma good_peek:
  assumes "nul_end buf es" "s \<le> es"
    and "\<And>s'. s < s' \<Longrightarrow> s' \<le> es \<Longrightarrow> good buf es s' (K s')"
    and "\<And>s'. s \<le> s' \<Longrightarrow> s' \<le> es \<Longrightarrow> good buf es s' (E s')"
  shows "good buf es s (let (s1, more) = peek buf es s toks in if more
           then let (_, _, _, s2) = gettoken buf es s1 in K s2 else E s1)"
proof -
  obtain s1 b where p: "peek buf es s toks = (s1, b)" by fastforce
  obtain t q e s2 where g: "gettoken buf es s1 = (t, q, e, s2)" by (metis surj_pair)
  note pf = peek_facts [OF assms(2) assms(1) p]
  have "good buf es s (K s2)" if b
    using gettoken_advance [OF pf(3) assms(1) p assms(2) g] gettoken_facts [OF pf(2) assms(1) g] pf that
    by (intro good_mono [OF assms(3)]) auto
  moreover have "good buf es s (E s1)" using pf by (intro good_mono [OF assms(4)]) auto
  ultimately show ?thesis by (simp add: p g)
qed

lemma parsebacks_good:
  assumes "nul_end buf es" "s \<le> es" "es - s < n" "\<forall>w \<in> set_cmd c. tok_ok buf es w"
  shows "good buf es s (parsebacks n buf es c s)"
  using assms(2-4)
proof (induction n arbitrary: c s)
  case (Suc n)
  show ?case unfolding parsebacks.simps
    using Suc.prems by (intro good_peek assms(1) Suc.IH) (auto simp: backcmd_def)
qed simp

lemma good_right:
  assumes "good buf es s r" "\<forall>w \<in> set_cmd c. tok_ok buf es w"
    and "\<And>d. set_cmd (mk c d) = set_cmd c \<union> set_cmd d"
  shows "good buf es s (pbind r (\<lambda>d s. POk (mk c d) s))"
  using assms(1) by (rule good_pbind) (use assms(2,3) in auto)

lemma parser_good:
  assumes "nul_end buf es"
  shows "s \<le> es \<Longrightarrow> 4 * (es - s) + 3 < n \<Longrightarrow> good buf es s (parseline n buf es s)"
    and "s \<le> es \<Longrightarrow> 4 * (es - s) + 2 < n \<Longrightarrow> good buf es s (parsepipe n buf es s)"
    and "s \<le> es \<Longrightarrow> 4 * (es - s) + 1 < n \<Longrightarrow> good buf es s (parseexec n buf es s)"
    and "s \<le> es \<Longrightarrow> 4 * (es - s) < n \<Longrightarrow> good buf es s (parseblock n buf es s)"
proof (induction n arbitrary: s)
  case (Suc n)
  { case 1
    then show ?case unfolding parseline.simps
      by (intro good_pbind good_peek good_right Suc.IH parsebacks_good assms) (auto simp: listcmd_def) }
  { case 2
    then show ?case unfolding parsepipe.simps
      by (intro good_pbind good_peek good_right Suc.IH assms) (auto simp: pipecmd_def) }
  { case 3
    obtain s1 b where p: "peek buf es s ''('' = (s1, b)" by fastforce
    note pf = peek_facts [OF 3(1) assms p]
    have "good buf es s1 (parseblock n buf es s1)" using 3 pf by (intro Suc.IH) auto
    moreover have "good buf es s1 (pbind (parseredirs n buf es execcmd s1) (parseargs n buf es 0))"
      using 3 pf by (intro good_pbind parseredirs_good parseargs_good assms) (auto simp: execcmd_def)
    ultimately show ?case using pf by (auto simp: p intro: good_mono) }
  { case 4
    then show ?case unfolding parseblock.simps if_neg
      by (intro good_pbind good_peek Suc.IH parseredirs_good assms) auto }
qed simp_all

section \<open>Terminating the words\<close>

lemma fold_update_nth:
  "(\<forall>w \<in> set ws. snd w < length b) \<Longrightarrow> length (fold (\<lambda>(q, eq) b. b[eq := x]) ws b) = length b \<and>
   (\<forall>i < length b. fold (\<lambda>(q, eq) b. b[eq := x]) ws b ! i = (if i \<in> snd ` set ws then x else b ! i))"
  by (induction ws arbitrary: b) (auto simp: nth_list_update split: prod.splits)

lemma nulterminate_nth:
  "(\<forall>w \<in> set_cmd c. snd w < length b) \<Longrightarrow> length (nulterminate c b) = length b \<and>
   (\<forall>i < length b. nulterminate c b ! i = (if i \<in> snd ` set_cmd c then NUL else b ! i))"
proof (induction c arbitrary: b)
  case (EXEC ws)
  then show ?case using fold_update_nth [of ws b NUL] by simp
next
  case (REDIR c w m d)
  obtain q e where "w = (q, e)" by fastforce
  then show ?case using REDIR by (auto simp: nth_list_update)
qed auto

definition sub_words :: "string \<Rightarrow> span cmd \<Rightarrow> string cmd" where
  "sub_words buf c = map_cmd (\<lambda>(q, e). take (e - q) (drop q buf)) c"

lemma takeWhile_eqI:
  assumes "n < length xs" "\<not> P (xs ! n)" "\<And>i. i < n \<Longrightarrow> P (xs ! i)"
  shows "takeWhile P xs = take n xs"
  using assms by (intro takeWhile_eq_take_P_nth) auto

lemma nulterminate_word:
  assumes "es < length buf" and ok: "\<forall>w \<in> set_cmd c. tok_ok buf es w" and w: "(q, e) \<in> set_cmd c"
  shows "cstr_at (nulterminate c buf) q = take (e - q) (drop q buf)"
proof -
  define b where "b = nulterminate c buf"
  have "\<forall>w \<in> set_cmd c. snd w < length buf" using ok assms(1) by (auto simp: tok_ok_def)
  note nt = nulterminate_nth [OF this, folded b_def]
  have t: "q < e" "e \<le> es" "\<And>i. q \<le> i \<Longrightarrow> i < e \<Longrightarrow> wordch (buf ! i)"
    using bspec [OF ok w] by (auto simp: tok_ok_def)
  have same: "b ! i = buf ! i" if "q \<le> i" "i < e" for i
  proof -
    have "i \<notin> snd ` set_cmd c" using ok t(3) [OF that] by (auto simp: tok_ok_def)
    then show ?thesis using nt that t assms(1) by simp
  qed
  have "takeWhile (\<lambda>c. c \<noteq> NUL) (drop q b) = take (e - q) (drop q b)"
  proof (rule takeWhile_eqI)
    show "e - q < length (drop q b)" using nt t assms(1) by simp
    have "e \<in> snd ` set_cmd c" using w by force
    then show "\<not> drop q b ! (e - q) \<noteq> NUL" using nt t assms(1) by simp
    fix i assume "i < e - q"
    then have "drop q b ! i = buf ! (q + i)" using nt t assms(1) same by simp
    moreover have "wordch (buf ! (q + i))" using t(3) \<open>i < e - q\<close> by simp
    ultimately show "drop q b ! i \<noteq> NUL" by (simp add: wordch_def)
  qed
  moreover have "take (e - q) (drop q b) = take (e - q) (drop q buf)"
    using nt t assms(1) same by (intro nth_equalityI) auto
  ultimately show ?thesis by (simp add: cstr_at_def b_def)
qed

lemma cmd_strings_nulterminate:
  assumes "es < length buf" and "\<forall>w \<in> set_cmd c. tok_ok buf es w"
  shows "cmd_strings (nulterminate c buf) c = sub_words buf c"
  unfolding cmd_strings_def sub_words_def
  using nulterminate_word [OF assms] by (intro cmd.map_cong0) auto

lemma line_end_nul:
  assumes "NUL \<in> set buf"
  shows "nul_end buf (line_end buf)"
proof -
  have "takeWhile (\<lambda>c. c \<noteq> NUL) buf \<noteq> buf" using assms by (simp add: takeWhile_eq_all_conv)
  then have l: "line_end buf < length buf" unfolding line_end_def
    by (metis length_takeWhile_le le_neq_implies_less takeWhile_eq_take take_all_iff order_refl)
  have "buf ! line_end buf = NUL" using nth_length_takeWhile [OF l [unfolded line_end_def]] by (simp add: line_end_def)
  moreover have "buf ! i \<noteq> NUL" if "i < line_end buf" for i
    using nth_mem [of i "takeWhile (\<lambda>c. c \<noteq> NUL) buf"] that set_takeWhileD takeWhile_nth
    unfolding line_end_def by metis
  ultimately show ?thesis using l by (simp add: nul_end_def)
qed

text \<open>C21: the parser ends on every line, within its fuel: it panics or gives a command
  whose words are non-empty and lie in the line; after \<open>nulterminate\<close>, which only writes
  into the line, each of its words, read as a C string, is the word as it stood in the
  line: no terminator falls into another word.\<close>

theorem parsecmd_total:
  assumes "NUL \<in> set buf"
  shows "(\<exists>msg. parsecmd buf = PPanic msg) \<or>
    (\<exists>c buf'. parsecmd buf = POk (c, buf') (line_end buf) \<and> length buf' = length buf \<and>
       (\<forall>(q, e) \<in> set_cmd c. q < e \<and> e \<le> line_end buf) \<and>
       cmd_strings buf' c = map_cmd (\<lambda>(q, e). take (e - q) (drop q buf)) c)"
proof -
  define es where "es = line_end buf"
  have ne: "nul_end buf es" using line_end_nul [OF assms] by (simp add: es_def)
  have g: "good buf es 0 (parseline (parse_fuel es) buf es 0)"
    by (rule parser_good(1) [OF ne]) (simp_all add: parse_fuel_def)
  show ?thesis
  proof (cases "parseline (parse_fuel es) buf es 0")
    case (POk c s)
    then have ok: "\<forall>w \<in> set_cmd c. tok_ok buf es w" using g by simp
    have len: "es < length buf" using ne by (simp add: nul_end_def)
    have "length (nulterminate c buf) = length buf"
      using nulterminate_nth [of c buf] ok len by (force simp: tok_ok_def)
    moreover have "\<forall>(q, e) \<in> set_cmd c. q < e \<and> e \<le> es" using ok by (auto simp: tok_ok_def)
    ultimately show ?thesis
      using POk cmd_strings_nulterminate [OF len ok]
      by (auto simp: parsecmd_def es_def [symmetric] peek_def sub_words_def)
  qed (use g in \<open>auto simp: parsecmd_def es_def [symmetric]\<close>)
qed

lemma parse_ls:
  "parsecmd (''ls>f'' @ [NUL]) = POk (REDIR (EXEC [(0, 2)]) (3, 4) 0x201 1, (''ls'' @ NUL # ''f'' @ [NUL])) 4"
  by code_simp

theorem parsecmd_total_witness:
  "cmd_strings (''ls'' @ NUL # ''f'' @ [NUL]) (REDIR (EXEC [(0, 2)]) (3, 4) 0x201 1) = REDIR (EXEC [''ls'']) ''f'' 0x201 1"
  using parsecmd_total [of "''ls>f'' @ [NUL]"] by (simp add: parse_ls [simplified])

end
