(* ===== verification/Sh_Print.thy ===== *)
theory Sh_Print
  imports Sh_Parse
begin

text \<open>
  The grammar the shell's parser accepts, as a printer of commands: every command tree of
  words can be written so that \<open>parsecmd\<close> reads it back. The printer has the parser's four
  levels, line, background, pipeline and command, and puts parentheses where a command
  stands at a level below its own.
\<close>

section \<open>Printer\<close>

definition show_words :: "string list \<Rightarrow> string" where
  "show_words ws = concat (map (\<lambda>w. w @ '' '') ws)"

definition show_redir :: "string \<Rightarrow> int \<Rightarrow> string" where
  "show_redir f fd = (if fd = 0 then ''< '' else ''> '') @ f @ '' ''"

definition parens :: "bool \<Rightarrow> string \<Rightarrow> string" where
  "parens b t = (if b then ''( '' @ t @ '') '' else t)"

fun show_cmd :: "nat \<Rightarrow> string cmd \<Rightarrow> string" where
  "show_cmd k (EXEC ws) = show_words ws"
| "show_cmd k (REDIR c f m fd) = show_cmd 3 c @ show_redir f fd"
| "show_cmd k (PIPE l r) = parens (k > 2) (show_cmd 3 l @ ''| '' @ show_cmd 2 r)"
| "show_cmd k (BACK c) = parens (k > 1) (show_cmd 1 c @ ''& '')"
| "show_cmd k (LIST l r) = parens (k > 0) (show_cmd 1 l @ ''; '' @ show_cmd 0 r)"

definition wordy :: "string \<Rightarrow> bool" where
  "wordy w \<longleftrightarrow> w \<noteq> [] \<and> (\<forall>c \<in> set w. wordch c)"

definition redir_ok :: "int \<Rightarrow> int \<Rightarrow> bool" where
  "redir_ok m fd \<longleftrightarrow> m = O_RDONLY \<and> fd = 0 \<or> m = O_WRONLY OR O_CREATE \<and> fd = 1"

text \<open>The commands of the shell: words of word characters, fewer than \<open>MAXARGS\<close> arguments
  and the two redirections.\<close>

fun wf_cmd :: "string cmd \<Rightarrow> bool" where
  "wf_cmd (EXEC ws) \<longleftrightarrow> length ws < MAXARGS \<and> (\<forall>w \<in> set ws. wordy w)"
| "wf_cmd (REDIR c f m fd) \<longleftrightarrow> wf_cmd c \<and> wordy f \<and> redir_ok m fd"
| "wf_cmd (PIPE l r) \<longleftrightarrow> wf_cmd l \<and> wf_cmd r"
| "wf_cmd (LIST l r) \<longleftrightarrow> wf_cmd l \<and> wf_cmd r"
| "wf_cmd (BACK c) \<longleftrightarrow> wf_cmd c"

section \<open>Tokens of printed text\<close>

text \<open>The characters of the line from a position on are \<open>xs\<close>, up to the NUL at \<open>es\<close>.\<close>

fun text_at :: "string \<Rightarrow> nat \<Rightarrow> nat \<Rightarrow> string \<Rightarrow> bool" where
  "text_at buf es p [] \<longleftrightarrow> p = es \<and> buf ! es = NUL"
| "text_at buf es p (x # xs) \<longleftrightarrow> buf ! p = x \<and> text_at buf es (Suc p) xs"

lemma text_at_append: "text_at buf es p (xs @ ys) \<Longrightarrow> text_at buf es (p + length xs) ys"
  by (induction xs arbitrary: p) fastforce+

lemma text_at_end: "text_at buf es p xs \<Longrightarrow> es = p + length xs"
  by (induction xs arbitrary: p) fastforce+

lemma text_at_nth: "text_at buf es p xs \<Longrightarrow> i < length xs \<Longrightarrow> buf ! (p + i) = xs ! i"
proof (induction xs arbitrary: p i)
  case (Cons x xs)
  then show ?case using Cons.IH [of "Suc p" "i - 1"] by (cases i) auto
qed simp

lemma text_at_word:
  assumes "text_at buf es p (w @ xs)" "es < length buf"
  shows "take (length w) (drop p buf) = w"
proof (rule nth_equalityI)
  show len: "length (take (length w) (drop p buf)) = length w"
    using text_at_end [OF assms(1)] assms(2) by simp
  show "take (length w) (drop p buf) ! i = w ! i" if "i < length (take (length w) (drop p buf))" for i
    using text_at_nth [OF assms(1), of i] that len text_at_end [OF assms(1)] assms(2)
    by (simp add: nth_append)
qed

definition clean :: "string \<Rightarrow> bool" where
  "clean xs \<longleftrightarrow> (xs = [] \<or> hd xs \<notin> set whitespace)"

lemma clean_simps [simp]: "clean []" "clean (x # xs) \<longleftrightarrow> x \<notin> set whitespace"
  by (simp_all add: clean_def)

lemma skip_ws_clean: "text_at buf es p xs \<Longrightarrow> clean xs \<Longrightarrow> skip_ws buf es p = p"
  by (subst skip_ws.simps) (cases xs; simp)

lemma skip_ws_space:
  assumes "text_at buf es p (CHR '' '' # xs)" "clean xs"
  shows "skip_ws buf es p = Suc p"
proof -
  have "p < es" using text_at_end [OF assms(1)] by simp
  then have "skip_ws buf es p = skip_ws buf es (Suc p)"
    using assms(1) by (subst skip_ws.simps) (simp add: whitespace_def del: not_None_eq)
  then show ?thesis using skip_ws_clean [of buf es "Suc p" xs] assms by simp
qed

lemma skip_word_at:
  assumes "text_at buf es p (w @ CHR '' '' # xs)" "\<forall>c \<in> set w. wordch c"
  shows "skip_word buf es p = p + length w"
  using assms
proof (induction w arbitrary: p)
  case Nil
  then show ?case by (subst skip_word.simps) (simp add: whitespace_def)
next
  case (Cons c w)
  have "p < es" using text_at_end [OF Cons.prems(1)] by simp
  then have "skip_word buf es p = skip_word buf es (Suc p)"
    using Cons.prems by (subst skip_word.simps) (simp add: wordch_def)
  then show ?case using Cons.IH [of "Suc p"] Cons.prems by simp
qed

lemma peek_at:
  assumes "text_at buf es p xs" "clean xs" "NUL \<notin> set toks"
  shows "peek buf es p toks = (p, xs \<noteq> [] \<and> hd xs \<in> set toks)"
  using assms skip_ws_clean [OF assms(1,2)]
  by (cases xs) (auto simp: peek_def simp del: not_None_eq)

lemma gettoken_end: "text_at buf es p [] \<Longrightarrow> gettoken buf es p = (NUL, p, p, p)"
  using skip_ws_clean [of buf es p "[]"] by (auto simp: gettoken_def)

lemma gettoken_symbol:
  assumes "text_at buf es p (c # CHR '' '' # xs)" "c \<in> set symbols" "clean xs"
  shows "gettoken buf es p = (c, p, p + 1, p + 2)"
proof -
  have "skip_ws buf es p = p" using assms by (intro skip_ws_clean [of _ _ _ "c # CHR '' '' # xs"]) (auto simp: symbols_def whitespace_def)
  moreover have "skip_ws buf es (Suc p) = p + 2" using assms skip_ws_space [of buf es "Suc p" xs] by simp
  ultimately show ?thesis using assms(1,2) by (auto simp: gettoken_def symbols_def)
qed

lemma gettoken_word:
  assumes "text_at buf es p (w @ CHR '' '' # xs)" "wordy w" "clean xs"
  shows "gettoken buf es p = (CHR ''a'', p, p + length w, p + length w + 1)"
proof -
  obtain c w' where w: "w = c # w'" "wordch c" using assms(2) by (cases w) (auto simp: wordy_def)
  have "skip_ws buf es p = p" using assms(1) w
    by (intro skip_ws_clean [of _ _ _ "w @ CHR '' '' # xs"]) (auto simp: wordch_def)
  moreover have "skip_word buf es p = p + length w"
    using skip_word_at [OF assms(1)] assms(2) by (simp add: wordy_def)
  moreover have "skip_ws buf es (p + length w) = p + length w + 1"
    using skip_ws_space [OF text_at_append [OF assms(1)] assms(3)] by simp
  moreover have "buf ! p = c" using assms(1) w by simp
  ultimately show ?thesis using w(2) by (simp add: gettoken_def wordch_def symbols_def)
qed

section \<open>Reading back\<close>

definition follow :: "string \<Rightarrow> string \<Rightarrow> bool" where
  "follow F xs \<longleftrightarrow> (xs = [] \<or> hd xs \<in> set F)"

text \<open>\<open>f\<close> reads the text \<open>t\<close> as the command \<open>c\<close>, before a character of \<open>F\<close> or the end.\<close>

definition reads :: "(nat \<Rightarrow> string \<Rightarrow> nat \<Rightarrow> nat \<Rightarrow> span cmd presult) \<Rightarrow> nat \<Rightarrow> string \<Rightarrow> string \<Rightarrow>
    string cmd \<Rightarrow> bool" where
  "reads f k F t c \<longleftrightarrow> (\<forall>buf es p xs n. es < length buf \<longrightarrow> text_at buf es p (t @ xs) \<longrightarrow>
     follow F xs \<longrightarrow> 4 * (es - p) + k < n \<longrightarrow>
     (\<exists>c'. f n buf es p = POk c' (p + length t) \<and> sub_words buf c' = c))"

lemma readsI:
  assumes "\<And>buf es p xs n. es < length buf \<Longrightarrow> text_at buf es p (t @ xs) \<Longrightarrow> follow F xs \<Longrightarrow>
     4 * (es - p) + k < n \<Longrightarrow> \<exists>c'. f n buf es p = POk c' (p + length t) \<and> sub_words buf c' = c"
  shows "reads f k F t c"
  using assms unfolding reads_def by blast

lemma readsE:
  assumes "reads f k F t c" "es < length buf" "text_at buf es p (t @ xs)" "follow F xs" "4 * (es - p) + k < n"
  obtains c' where "f n buf es p = POk c' (p + length t)" "sub_words buf c' = c"
  using assms unfolding reads_def by blast

definition wrap :: "string cmd \<Rightarrow> (string \<times> int \<times> int) list \<Rightarrow> string cmd" where
  "wrap c rs = foldl (\<lambda>c (f, m, fd). REDIR c f m fd) c rs"

definition show_redirs :: "(string \<times> int \<times> int) list \<Rightarrow> string" where
  "show_redirs rs = concat (map (\<lambda>(f, m, fd). show_redir f fd) rs)"

definition redirs_ok :: "(string \<times> int \<times> int) list \<Rightarrow> bool" where
  "redirs_ok rs \<longleftrightarrow> (\<forall>(f, m, fd) \<in> set rs. wordy f \<and> redir_ok m fd)"

lemma redirs_simps [simp]:
  "wrap c [] = c" "wrap c ((f, m, fd) # rs) = wrap (REDIR c f m fd) rs"
  "show_redirs [] = []" "show_redirs ((f, m, fd) # rs) = show_redir f fd @ show_redirs rs"
  "redirs_ok []" "redirs_ok ((f, m, fd) # rs) \<longleftrightarrow> wordy f \<and> redir_ok m fd \<and> redirs_ok rs"
  by (simp_all add: wrap_def show_redirs_def redirs_ok_def)

lemma follow_clean: "follow F xs \<Longrightarrow> set F \<inter> set whitespace = {} \<Longrightarrow> clean xs"
  by (auto simp: follow_def clean_def)

lemma clean_redirs: "clean xs \<Longrightarrow> clean (show_redirs rs @ xs)"
  by (cases rs) (auto simp: show_redir_def whitespace_def)

lemma wordy_hd: "wordy w \<Longrightarrow> wordch (hd (w @ xs)) \<and> w @ xs \<noteq> []"
  by (cases w) (auto simp: wordy_def)

lemma wordch_clean: "xs \<noteq> [] \<Longrightarrow> wordch (hd xs) \<Longrightarrow> clean xs"
  by (simp add: clean_def wordch_def)

lemma redirs_none:
  assumes "text_at buf es p xs" "clean xs" "xs = [] \<or> hd xs \<notin> set ''<>''" "0 < n"
  shows "parseredirs n buf es c p = POk c p"
  using assms peek_at [OF assms(1,2), of "''<>''"] by (cases n) auto

lemma redirs_run:
  assumes "es < length buf" "text_at buf es p (show_redirs rs @ xs)" "clean xs"
    "xs = [] \<or> hd xs \<notin> set ''<>''" "redirs_ok rs" "es - p < n"
  shows "\<exists>c'. parseredirs n buf es c p = POk c' (p + length (show_redirs rs)) \<and>
    sub_words buf c' = wrap (sub_words buf c) rs"
  using assms(2,5,6)
proof (induction rs arbitrary: c p n)
  case Nil
  then show ?case using redirs_none [of buf es p xs n c] assms(3,4) by simp
next
  case (Cons r rs)
  obtain f m fd where r: "r = (f, m, fd)" by (cases r)
  define t where "t = (if fd = 0 then CHR ''<'' else CHR ''>'')"
  have ta: "text_at buf es p (t # CHR '' '' # f @ CHR '' '' # show_redirs rs @ xs)"
    using Cons.prems(1) by (simp add: r show_redir_def t_def split: if_splits)
  have f: "wordy f" "redir_ok m fd" "redirs_ok rs" using Cons.prems(2) by (simp_all add: r)
  have clean: "clean (f @ CHR '' '' # show_redirs rs @ xs)"
    using wordy_hd [OF f(1)] by (blast intro: wordch_clean)
  have "peek buf es p ''<>'' = (p, True)"
    by (subst peek_at [OF ta]) (simp_all add: t_def whitespace_def)
  moreover have "gettoken buf es p = (t, p, p + 1, p + 2)"
    by (rule gettoken_symbol [OF ta _ clean]) (simp add: t_def symbols_def)
  moreover have ta2: "text_at buf es (p + 2) (f @ CHR '' '' # show_redirs rs @ xs)" using ta by simp
  moreover have "gettoken buf es (p + 2) = (CHR ''a'', p + 2, p + 2 + length f, p + 2 + length f + 1)"
    using ta2 f(1) clean_redirs [OF assms(3)] by (rule gettoken_word)
  moreover have ta3: "text_at buf es (p + 2 + length f + 1) (show_redirs rs @ xs)"
    using text_at_append [of buf es "p + 2" "f @ '' ''" "show_redirs rs @ xs"] ta2 by (simp add: add.commute)
  moreover have "take (length f) (drop (p + 2) buf) = f" by (rule text_at_word [OF ta2 assms(1)])
  moreover obtain n' where n: "n = Suc n'" using Cons.prems(3) by (cases n) auto
  moreover have "es - (p + 2 + length f + 1) < n'"
    using Cons.prems(3) text_at_end [OF ta] by (simp add: n)
  moreover note Cons.IH [OF ta3 f(3) \<open>es - (p + 2 + length f + 1) < n'\<close>,
      of "REDIR c (p + 2, p + 2 + length f) m fd"]
  ultimately show ?case
    using f(2) by (auto simp: r n t_def redir_ok_def redircmd_def sub_words_def show_redir_def add_ac)
qed

lemma args_stop:
  assumes "text_at buf es p xs" "follow ''|)&;'' xs" "0 < n"
  shows "parseargs n buf es argc c p = POk c p"
proof -
  have cl: "clean xs" using assms(2) by (rule follow_clean) (simp add: whitespace_def)
  obtain m where n: "n = Suc m" using assms(3) by (cases n) auto
  show ?thesis
  proof (cases xs)
    case Nil
    then have "text_at buf es p []" using assms(1) by simp
    then show ?thesis using peek_at [OF assms(1) cl, of "''|)&;''"] gettoken_end [of buf es p] Nil
      by (simp add: n)
  next
    case (Cons x ys)
    then show ?thesis using peek_at [OF assms(1) cl, of "''|)&;''"] assms(2) by (simp add: n follow_def)
  qed
qed

lemma args_run:
  assumes "es < length buf" "follow ''|)&;'' xs" "redirs_ok rs"
    and "ws \<noteq> []" "text_at buf es p (show_words ws @ show_redirs rs @ xs)" "\<forall>w \<in> set ws. wordy w"
    "argc + length ws < MAXARGS" "es - p + 1 < n"
  shows "\<exists>c'. parseargs n buf es argc (EXEC acc) p = POk c' (p + length (show_words ws) + length (show_redirs rs)) \<and>
    sub_words buf c' = wrap (EXEC (map (\<lambda>(q, e). take (e - q) (drop q buf)) acc @ ws)) rs"
  using assms(4-)
proof (induction ws arbitrary: acc argc p n)
  case (Cons w ws)
  define ys where "ys = show_words ws @ show_redirs rs @ xs"
  define a where "a = (p, p + length w)"
  have w: "wordy w" using Cons.prems by simp
  have ta: "text_at buf es p (w @ CHR '' '' # ys)" using Cons.prems(2) by (simp add: show_words_def ys_def)
  have "clean xs" using assms(2) by (rule follow_clean) (simp add: whitespace_def)
  then have cys: "clean ys"
    using Cons.prems(3) wordy_hd [of "hd ws"] clean_redirs [of xs rs]
    by (cases ws) (auto simp: ys_def show_words_def intro: wordch_clean)
  have "peek buf es p ''|)&;'' = (p, False)"
    using wordy_hd [OF w, of "CHR '' '' # ys"]
    by (subst peek_at [OF ta]) (auto simp: wordch_def symbols_def intro: wordch_clean)
  moreover have "gettoken buf es p = (CHR ''a'', p, p + length w, p + length w + 1)"
    using ta w cys by (rule gettoken_word)
  moreover have ta2: "text_at buf es (p + length w + 1) ys"
    using text_at_append [of buf es p "w @ '' ''" ys] ta by simp
  moreover have word: "take (length w) (drop p buf) = w" by (rule text_at_word [OF ta assms(1)])
  moreover obtain n' where n: "n = Suc n'" using Cons.prems(5) by (cases n) auto
  moreover have fuel: "es - (p + length w + 1) + 1 < n'"
    using Cons.prems(5) text_at_end [OF ta] w by (cases w) (auto simp: n wordy_def)
  ultimately have step: "parseargs n buf es argc (EXEC acc) p =
    pbind (parseredirs n' buf es (EXEC (acc @ [a])) (p + length w + 1)) (parseargs n' buf es (argc + 1))"
    using Cons.prems(4) by (simp add: a_def)
  show ?case
  proof (cases "ws = []")
    case True
    have "\<exists>c'. parseredirs n' buf es (EXEC (acc @ [a])) (p + length w + 1) =
        POk c' (p + length w + 1 + length (show_redirs rs)) \<and>
      sub_words buf c' = wrap (sub_words buf (EXEC (acc @ [a]))) rs"
      using ta2 fuel assms(1-3) \<open>clean xs\<close> True
      by (intro redirs_run) (auto simp: ys_def show_words_def follow_def)
    moreover have "text_at buf es (p + length w + 1 + length (show_redirs rs)) xs"
      using text_at_append [of buf es "Suc (p + length w)" "show_redirs rs" xs] ta2 True by (simp add: ys_def show_words_def)
    ultimately show ?thesis
      using args_stop [OF _ assms(2), of buf es _ n'] fuel word True unfolding step
      by (fastforce simp: sub_words_def a_def show_words_def)
  next
    case False
    have "ys \<noteq> []" "wordch (hd ys)"
      using False Cons.prems(3) wordy_hd [of "hd ws"] by (cases ws; simp add: ys_def show_words_def)+
    then have "parseredirs n' buf es (EXEC (acc @ [a])) (p + length w + 1) = POk (EXEC (acc @ [a])) (p + length w + 1)"
      using ta2 cys fuel by (intro redirs_none) (auto simp: wordch_def symbols_def)
    then show ?thesis
      using Cons.IH [OF False, of "p + length w + 1" "argc + 1" n' "acc @ [a]"] Cons.prems(3,4) ta2 fuel word
      unfolding step by (simp add: ys_def a_def show_words_def add_ac)
  qed
qed simp

lemma symbol_run:
  assumes "text_at buf es p (c # CHR '' '' # xs)" "c \<in> set symbols" "clean xs"
  shows "peek buf es p [c] = (p, True)" "gettoken buf es p = (c, p, p + 1, p + 2)" "text_at buf es (p + 2) xs"
proof -
  have "clean (c # CHR '' '' # xs)" "NUL \<notin> set [c]" using assms(2) by (auto simp: symbols_def whitespace_def)
  then show "peek buf es p [c] = (p, True)" using peek_at [OF assms(1)] by simp
  show "gettoken buf es p = (c, p, p + 1, p + 2)" by (rule gettoken_symbol [OF assms])
  show "text_at buf es (p + 2) xs" using assms(1) by simp
qed

lemma symbols_mem:
  "CHR ''('' \<in> set symbols" "CHR '')'' \<in> set symbols" "CHR ''|'' \<in> set symbols"
  "CHR '';'' \<in> set symbols" "CHR ''&'' \<in> set symbols"
  by (simp_all add: symbols_def)

lemma peek_not:
  assumes "text_at buf es p xs" "follow F xs" "c \<notin> set F" "set F \<inter> set whitespace = {}" "c \<noteq> NUL"
  shows "peek buf es p [c] = (p, False)"
  using peek_at [OF assms(1) follow_clean [OF assms(2,4)], of "[c]"] assms(2,3,5) by (auto simp: follow_def)

lemma clean_show:
  assumes "wf_cmd c" "clean xs"
  shows "clean (show_cmd k c @ xs)"
  using assms
proof (induction c arbitrary: k xs)
  case (EXEC ws)
  then show ?case using wordy_hd [of "hd ws"]
    by (cases ws) (auto simp: show_words_def intro: wordch_clean)
qed (auto simp: parens_def show_redir_def whitespace_def)

text \<open>Commands with redirections, at the level of \<open>parseexec\<close>.\<close>

abbreviation "reads_exec c \<equiv> reads parseexec 1 ''|)&;'' (show_cmd 3 c) c"
abbreviation "reads_pipe c \<equiv> reads parsepipe 2 '')&;'' (show_cmd 2 c) c"
abbreviation "reads_line c \<equiv> reads parseline 3 '')'' (show_cmd 0 c) c"

lemma show_wrap: "show_cmd 3 (wrap c rs) = show_cmd 3 c @ show_redirs rs"
  by (induction rs arbitrary: c) auto

lemma exec_head:
  assumes "\<forall>w \<in> set ws. wordy w" "follow ''|)&;'' xs"
  shows "show_words ws @ show_redirs rs @ xs = [] \<or> hd (show_words ws @ show_redirs rs @ xs) \<noteq> CHR ''(''"
proof (cases ws)
  case Nil
  show ?thesis
  proof (cases rs)
    case (Cons r rs')
    then show ?thesis using Nil by (cases r) (simp add: show_words_def show_redir_def)
  qed (use Nil assms(2) in \<open>auto simp: show_words_def follow_def\<close>)
next
  case (Cons w ws')
  then have "wordch (hd (show_words ws @ show_redirs rs @ xs))"
    using assms(1) wordy_hd [of w] by (simp add: show_words_def)
  then show ?thesis by (auto simp: wordch_def symbols_def)
qed

lemma exec_reads:
  assumes "wf_cmd (EXEC ws)" "redirs_ok rs"
  shows "reads_exec (wrap (EXEC ws) rs)"
proof (rule readsI)
  fix buf es p xs n
  assume a: "es < length buf" "text_at buf es p (show_cmd 3 (wrap (EXEC ws) rs) @ xs)"
    "follow ''|)&;'' xs" "4 * (es - p) + 1 < n"
  obtain m where n: "n = Suc m" using a(4) by (cases n) auto
  have w: "length ws < MAXARGS" "\<forall>w \<in> set ws. wordy w" using assms(1) by simp_all
  have cl: "clean xs" using a(3) by (rule follow_clean) (simp add: whitespace_def)
  have ta: "text_at buf es p (show_words ws @ show_redirs rs @ xs)" using a(2) by (simp add: show_wrap)
  have "clean (show_words ws @ show_redirs rs @ xs)"
    using clean_show [OF assms(1) clean_redirs [OF cl], of 3] by simp
  moreover have "show_words ws @ show_redirs rs @ xs = [] \<or> hd (show_words ws @ show_redirs rs @ xs) \<noteq> CHR ''(''"
    using w(2) a(3) by (rule exec_head)
  ultimately have pk: "peek buf es p ''('' = (p, False)" using peek_at [OF ta, of "''(''"] by auto
  show "\<exists>c'. parseexec n buf es p = POk c' (p + length (show_cmd 3 (wrap (EXEC ws) rs))) \<and>
    sub_words buf c' = wrap (EXEC ws) rs"
  proof (cases "ws = []")
    case True
    then have t: "text_at buf es p (show_redirs rs @ xs)" using ta by (simp add: show_words_def)
    obtain c' where c: "parseredirs m buf es execcmd p = POk c' (p + length (show_redirs rs))"
      "sub_words buf c' = wrap (sub_words buf execcmd) rs"
      using redirs_run [OF a(1) t cl _ assms(2), of m execcmd] a(3,4) by (auto simp: n follow_def)
    have "parseargs m buf es 0 c' (p + length (show_redirs rs)) = POk c' (p + length (show_redirs rs))"
      using text_at_append [OF t] a(3,4) by (intro args_stop) (auto simp: n)
    then show ?thesis using c True
      by (simp add: n pk show_wrap show_words_def execcmd_def sub_words_def)
  next
    case False
    have "wordch (hd (show_words ws @ show_redirs rs @ xs))"
      using False w(2) wordy_hd [of "hd ws"] by (cases ws) (auto simp: show_words_def)
    then have "parseredirs m buf es execcmd p = POk execcmd p"
      using ta \<open>clean (show_words ws @ show_redirs rs @ xs)\<close> a(4)
      by (intro redirs_none) (auto simp: n wordch_def symbols_def)
    moreover have "0 < length (show_words ws)" using False by (cases ws) (auto simp: show_words_def)
    then have fuel: "es - p + 1 < m" using a(4) text_at_end [OF ta] unfolding n length_append by linarith
    have "\<exists>c'. parseargs m buf es 0 (EXEC []) p = POk c' (p + length (show_words ws) + length (show_redirs rs)) \<and>
      sub_words buf c' = wrap (EXEC (map (\<lambda>(q, e). take (e - q) (drop q buf)) [] @ ws)) rs"
      using a(1,3) assms(2) False ta w(2) _ fuel by (rule args_run) (use w(1) in simp)
    ultimately show ?thesis by (auto simp: n pk execcmd_def show_wrap add_ac)
  qed
qed

lemma block_reads:
  assumes "reads_line c" "wf_cmd c" "show_cmd 3 c = ''( '' @ show_cmd 0 c @ '') ''" "redirs_ok rs"
  shows "reads_exec (wrap c rs)"
proof (rule readsI)
  fix buf es p xs n
  assume a: "es < length buf" "text_at buf es p (show_cmd 3 (wrap c rs) @ xs)"
    "follow ''|)&;'' xs" "4 * (es - p) + 1 < n"
  have cl: "clean xs" using a(3) by (rule follow_clean) (simp add: whitespace_def)
  define ys where "ys = show_cmd 0 c @ CHR '')'' # CHR '' '' # show_redirs rs @ xs"
  have ta: "text_at buf es p (CHR ''('' # CHR '' '' # ys)"
    using a(2) by (simp add: show_wrap assms(3) ys_def)
  have "clean ys" unfolding ys_def by (rule clean_show [OF assms(2)]) (simp add: whitespace_def)
  note op = symbol_run [OF ta symbols_mem(1) this]
  obtain m where n: "n = Suc (Suc m)" "4 * (es - p) < Suc m" using a(4) by (cases n; cases "n - 1") auto
  have "4 * (es - (p + 2)) + 3 < m" using n(2) text_at_end [OF ta] by simp
  then obtain c' where c': "parseline m buf es (p + 2) = POk c' (p + 2 + length (show_cmd 0 c))" "sub_words buf c' = c"
    using readsE [OF assms(1) a(1) op(3) [unfolded ys_def]] by (auto simp: follow_def)
  have tb: "text_at buf es (p + 2 + length (show_cmd 0 c)) (CHR '')'' # CHR '' '' # show_redirs rs @ xs)"
    using text_at_append [OF op(3) [unfolded ys_def]] by simp
  note cp = symbol_run [OF tb symbols_mem(2) clean_redirs [OF cl]]
  have nr: "xs = [] \<or> hd xs \<notin> set ''<>''" using a(3) by (auto simp: follow_def)
  have fuel: "es - (p + 2 + length (show_cmd 0 c) + 2) < m" using n(2) text_at_end [OF ta] by simp
  obtain c'' where "parseredirs m buf es c' (p + 2 + length (show_cmd 0 c) + 2) =
      POk c'' (p + 2 + length (show_cmd 0 c) + 2 + length (show_redirs rs))"
    "sub_words buf c'' = wrap c rs"
    using redirs_run [OF a(1) cp(3) cl nr assms(4) fuel, of c'] unfolding c'(2) by blast
  then show "\<exists>c'. parseexec n buf es p = POk c' (p + length (show_cmd 3 (wrap c rs))) \<and> sub_words buf c' = wrap c rs"
    using op(1,2) cp(1,2) c'(1) by (simp add: n(1) show_wrap assms(3) add_ac)
qed

text \<open>Pipelines, background commands and lines.\<close>

lemma pipe_of_exec:
  assumes "reads_exec c" "show_cmd 2 c = show_cmd 3 c"
  shows "reads_pipe c"
proof (rule readsI)
  fix buf es p xs n
  assume a: "es < length buf" "text_at buf es p (show_cmd 2 c @ xs)" "follow '')&;'' xs" "4 * (es - p) + 2 < n"
  obtain m where n: "n = Suc m" using a(4) by (cases n) auto
  have F: "follow ''|)&;'' xs" using a(3) by (auto simp: follow_def)
  obtain c' where c': "parseexec m buf es p = POk c' (p + length (show_cmd 3 c))" "sub_words buf c' = c"
    using a(4) by (auto intro: readsE [OF assms(1) a(1) a(2) [unfolded assms(2)] F, of m] simp: n)
  have "peek buf es (p + length (show_cmd 3 c)) ''|'' = (p + length (show_cmd 3 c), False)"
    using text_at_append [OF a(2)] a(3) by (intro peek_not) (auto simp: whitespace_def assms(2))
  then show "\<exists>c'. parsepipe n buf es p = POk c' (p + length (show_cmd 2 c)) \<and> sub_words buf c' = c"
    using c' by (simp add: n assms(2))
qed

lemma pipe_reads:
  assumes "reads_exec l" "reads_pipe r" "wf_cmd r"
  shows "reads_pipe (PIPE l r)"
proof (rule readsI)
  fix buf es p xs n
  assume a: "es < length buf" "text_at buf es p (show_cmd 2 (PIPE l r) @ xs)" "follow '')&;'' xs" "4 * (es - p) + 2 < n"
  obtain m where n: "n = Suc m" using a(4) by (cases n) auto
  define ys where "ys = CHR ''|'' # CHR '' '' # show_cmd 2 r @ xs"
  have ta: "text_at buf es p (show_cmd 3 l @ ys)" using a(2) by (simp add: ys_def parens_def)
  have "follow ''|)&;'' ys" by (simp add: ys_def follow_def)
  then obtain l' where l': "parseexec m buf es p = POk l' (p + length (show_cmd 3 l))" "sub_words buf l' = l"
    using a(4) by (auto intro: readsE [OF assms(1) a(1) ta, of m] simp: n)
  have "clean (show_cmd 2 r @ xs)"
    using a(3) by (intro clean_show [OF assms(3)] follow_clean) (auto simp: whitespace_def)
  note bar = symbol_run [OF text_at_append [OF ta, unfolded ys_def] symbols_mem(3) this]
  have "4 * (es - (p + length (show_cmd 3 l) + 2)) + 2 < m" using a(4) text_at_end [OF ta] by (simp add: n ys_def)
  then obtain r' where r': "parsepipe m buf es (p + length (show_cmd 3 l) + 2) =
      POk r' (p + length (show_cmd 3 l) + 2 + length (show_cmd 2 r))" "sub_words buf r' = r"
    by (rule readsE [OF assms(2) a(1) bar(3) a(3)])
  show "\<exists>c'. parsepipe n buf es p = POk c' (p + length (show_cmd 2 (PIPE l r))) \<and> sub_words buf c' = PIPE l r"
    using l' r' bar(1,2) by (auto simp: n pipecmd_def sub_words_def parens_def add_ac)
qed

fun backs :: "nat \<Rightarrow> 'w cmd \<Rightarrow> 'w cmd" where
  "backs 0 c = c"
| "backs (Suc m) c = backs m (BACK c)"

definition show_backs :: "nat \<Rightarrow> string" where
  "show_backs m = concat (replicate m ''& '')"

lemma backs_run:
  assumes "follow '');'' xs" "text_at buf es p (show_backs m @ xs)" "es - p < n"
  shows "\<exists>c'. parsebacks n buf es c p = POk c' (p + length (show_backs m)) \<and> sub_words buf c' = backs m (sub_words buf c)"
  using assms(2-)
proof (induction m arbitrary: c p n)
  case 0
  then have "peek buf es p ''&'' = (p, False)"
    using assms(1) by (intro peek_not [of _ _ _ xs "'');''"]) (auto simp: show_backs_def whitespace_def)
  then show ?case using 0 by (cases n) (auto simp: show_backs_def)
next
  case (Suc m)
  have ta: "text_at buf es p (CHR ''&'' # CHR '' '' # show_backs m @ xs)" using Suc.prems(1) by (simp add: show_backs_def)
  have "clean (show_backs m @ xs)"
    using follow_clean [OF assms(1)] by (cases m) (auto simp: show_backs_def whitespace_def)
  note amp = symbol_run [OF ta symbols_mem(5) this]
  obtain k where n: "n = Suc k" using Suc.prems(2) by (cases n) auto
  have "es - (p + 2) < k" using Suc.prems(2) text_at_end [OF ta] by (simp add: n)
  from Suc.IH [OF amp(3) this, of "BACK c"] show ?case
    using amp(1,2) by (auto simp: n backcmd_def show_backs_def sub_words_def)
qed

lemma backs_snoc: "backs (Suc m) c = BACK (backs m c)"
  by (induction m arbitrary: c) auto

lemma backs_cases: "\<exists>m d. c = backs m d \<and> (\<forall>e. d \<noteq> BACK e) \<and> size d + m = size c \<and> wf_cmd d = wf_cmd c"
proof (induction c)
  case (BACK c)
  then obtain m d where "c = backs m d" "\<forall>e. d \<noteq> BACK e" "size d + m = size c" "wf_cmd d = wf_cmd c" by blast
  then show ?case using backs_snoc [of m d] by (intro exI [of _ "Suc m"] exI [of _ d]) simp
qed (rule exI [of _ 0], simp)+

lemma show_backs_cmd: "(\<forall>e. d \<noteq> BACK e) \<Longrightarrow> show_cmd 1 (backs m d) = show_cmd 2 d @ show_backs m"
proof (induction m)
  case 0
  then show ?case by (cases d) (auto simp: show_backs_def parens_def)
next
  case (Suc m)
  have "show_backs (Suc m) = show_backs m @ ''& ''"
    by (simp add: show_backs_def replicate_append_same [symmetric] del: replicate_append_same replicate_Suc)
      (metis concat.simps(1,2) concat_append replicate_Suc replicate_append_same append_Nil2)
  then show ?case using Suc by (simp add: backs_snoc parens_def del: backs.simps)
qed

lemma back_reads:
  assumes "reads_pipe d" "\<forall>e. d \<noteq> BACK e" "es < length buf" "follow '');'' xs"
    "text_at buf es p (show_cmd 1 (backs m d) @ xs)" "4 * (es - p) + 2 < n"
  shows "\<exists>d' c'. parsepipe n buf es p = POk d' (p + length (show_cmd 2 d)) \<and>
    parsebacks n buf es d' (p + length (show_cmd 2 d)) = POk c' (p + length (show_cmd 1 (backs m d))) \<and>
    sub_words buf c' = backs m d"
proof -
  have ta: "text_at buf es p (show_cmd 2 d @ show_backs m @ xs)"
    using assms(5) show_backs_cmd [OF assms(2), of m] by simp
  have "follow '')&;'' (show_backs m @ xs)" using assms(4) by (cases m) (auto simp: follow_def show_backs_def)
  then obtain d' where d': "parsepipe n buf es p = POk d' (p + length (show_cmd 2 d))" "sub_words buf d' = d"
    using readsE [OF assms(1) assms(3) ta _ assms(6)] by blast
  moreover have "es - (p + length (show_cmd 2 d)) < n" using assms(6) text_at_end [OF ta] by simp
  ultimately show ?thesis
    using backs_run [OF assms(4) text_at_append [OF ta], of n d'] show_backs_cmd [OF assms(2), of m]
    by (auto simp: add_ac)
qed

lemma line_of_back:
  assumes "reads_pipe d" "\<forall>e. d \<noteq> BACK e" "show_cmd 0 (backs m d) = show_cmd 1 (backs m d)"
  shows "reads_line (backs m d)"
proof (rule readsI)
  fix buf es p xs n
  assume a: "es < length buf" "text_at buf es p (show_cmd 0 (backs m d) @ xs)" "follow '')'' xs" "4 * (es - p) + 3 < n"
  obtain k where n: "n = Suc k" "4 * (es - p) + 2 < k" using a(4) by (cases n) auto
  have F: "follow '');'' xs" using a(3) by (auto simp: follow_def)
  obtain d' c' where "parsepipe k buf es p = POk d' (p + length (show_cmd 2 d))"
    "parsebacks k buf es d' (p + length (show_cmd 2 d)) = POk c' (p + length (show_cmd 1 (backs m d)))"
    "sub_words buf c' = backs m d"
    using back_reads [OF assms(1,2) a(1) F a(2) [unfolded assms(3)] n(2)] by blast
  moreover have "peek buf es (p + length (show_cmd 1 (backs m d))) '';'' = (p + length (show_cmd 1 (backs m d)), False)"
    using text_at_append [OF a(2)] a(3) by (intro peek_not) (auto simp: whitespace_def assms(3))
  ultimately show "\<exists>c'. parseline n buf es p = POk c' (p + length (show_cmd 0 (backs m d))) \<and> sub_words buf c' = backs m d"
    by (simp add: n(1) assms(3))
qed

lemma line_reads:
  assumes "reads_pipe d" "\<forall>e. d \<noteq> BACK e" "reads_line r" "wf_cmd r"
  shows "reads_line (LIST (backs m d) r)"
proof (rule readsI)
  fix buf es p xs n
  define l where "l = backs m d"
  assume a: "es < length buf" "text_at buf es p (show_cmd 0 (LIST (backs m d) r) @ xs)" "follow '')'' xs" "4 * (es - p) + 3 < n"
  obtain k where n: "n = Suc k" "4 * (es - p) + 2 < k" using a(4) by (cases n) auto
  define ys where "ys = CHR '';'' # CHR '' '' # show_cmd 0 r @ xs"
  have ta: "text_at buf es p (show_cmd 1 l @ ys)" using a(2) by (simp add: ys_def parens_def l_def)
  have "follow '');'' ys" by (simp add: ys_def follow_def)
  then obtain d' c' where d': "parsepipe k buf es p = POk d' (p + length (show_cmd 2 d))"
    "parsebacks k buf es d' (p + length (show_cmd 2 d)) = POk c' (p + length (show_cmd 1 l))"
    "sub_words buf c' = l"
    using back_reads [OF assms(1,2) a(1) _ ta [unfolded l_def] n(2)] unfolding l_def by blast
  have "clean (show_cmd 0 r @ xs)"
    using a(3) by (intro clean_show [OF assms(4)] follow_clean) (auto simp: whitespace_def)
  note semi = symbol_run [OF text_at_append [OF ta, unfolded ys_def] symbols_mem(4) this]
  have "4 * (es - (p + length (show_cmd 1 l) + 2)) + 3 < k" using n(2) text_at_end [OF ta] by (simp add: ys_def)
  then obtain r' where "parseline k buf es (p + length (show_cmd 1 l) + 2) =
      POk r' (p + length (show_cmd 1 l) + 2 + length (show_cmd 0 r))" "sub_words buf r' = r"
    by (rule readsE [OF assms(3) a(1) semi(3) a(3)])
  then show "\<exists>c'. parseline n buf es p = POk c' (p + length (show_cmd 0 (LIST (backs m d) r))) \<and>
      sub_words buf c' = LIST (backs m d) r"
    using d' semi(1,2) by (auto simp: n(1) listcmd_def sub_words_def parens_def l_def [symmetric] add_ac)
qed

lemma wrap_snoc: "wrap c (rs @ [(f, m, fd)]) = REDIR (wrap c rs) f m fd"
  by (simp add: wrap_def)

lemma wrap_cases:
  assumes "wf_cmd c"
  shows "\<exists>d rs. c = wrap d rs \<and> (\<forall>e f m fd. d \<noteq> REDIR e f m fd) \<and> size d + length rs \<le> size c \<and> wf_cmd d \<and> redirs_ok rs"
  using assms
proof (induction c)
  case (REDIR c f m fd)
  then obtain d rs where d: "c = wrap d rs" "\<forall>e f m fd. d \<noteq> REDIR e f m fd" "size d + length rs \<le> size c" "wf_cmd d" "redirs_ok rs"
    by auto
  then have "redirs_ok (rs @ [(f, m, fd)])" using REDIR.prems by (auto simp: redirs_ok_def)
  then show ?case using d by (intro exI [of _ d] exI [of _ "rs @ [(f, m, fd)]"]) (simp add: wrap_snoc)
qed (fastforce intro: exI [of _ "[]"])+

lemma show_block: "(\<forall>ws. c \<noteq> EXEC ws) \<Longrightarrow> (\<forall>e f m fd. c \<noteq> REDIR e f m fd) \<Longrightarrow>
    show_cmd 3 c = ''( '' @ show_cmd 0 c @ '') ''"
  by (cases c) (auto simp: parens_def)

lemma show_reads:
  "wf_cmd c \<Longrightarrow> reads_exec c \<and> reads_pipe c \<and> reads_line c"
proof (induction "size c" arbitrary: c rule: less_induct)
  case less
  have block: "reads_exec d" if "reads_line d" "wf_cmd d" "\<forall>ws. d \<noteq> EXEC ws" "\<forall>e f m fd. d \<noteq> REDIR e f m fd" for d
    using block_reads [OF that(1,2) show_block [OF that(3,4)], of "[]"] by simp
  have line0: "reads_line c" if "reads_pipe c" "show_cmd 0 c = show_cmd 1 c" "\<forall>e. c \<noteq> BACK e"
    using line_of_back [of c 0] that by simp
  show ?case
  proof (cases c)
    case (EXEC ws)
    then have "reads_exec c" using exec_reads [of ws "[]"] less.prems by simp
    moreover have "reads_pipe c" using pipe_of_exec [OF calculation] EXEC by simp
    ultimately show ?thesis using line0 EXEC by simp
  next
    case (REDIR c0 f m fd)
    obtain d rs where d: "c = wrap d rs" "\<forall>e f m fd. d \<noteq> REDIR e f m fd" "size d + length rs \<le> size c" "wf_cmd d" "redirs_ok rs"
      using wrap_cases [OF less.prems] by blast
    then have "rs \<noteq> []" using REDIR by (cases rs) auto
    then have "reads_line d" using less.hyps [of d] d by (cases rs) auto
    then have "reads_exec c"
      using block_reads [OF _ d(4) _ d(5)] exec_reads [OF _ d(5)] show_block [of d] d by (cases d) auto
    moreover have "reads_pipe c" using pipe_of_exec [OF calculation] REDIR by simp
    ultimately show ?thesis using line0 REDIR by simp
  next
    case (PIPE l r)
    then have "reads_pipe c" using pipe_reads less.hyps [of l] less.hyps [of r] less.prems by simp
    moreover have "reads_line c" using line0 [OF calculation] PIPE by (simp add: parens_def)
    moreover have "reads_exec c" using block [OF calculation(2) less.prems] PIPE by simp
    ultimately show ?thesis by blast
  next
    case (LIST l r)
    obtain m d where d: "l = backs m d" "\<forall>e. d \<noteq> BACK e" "size d + m = size l" "wf_cmd d = wf_cmd l"
      using backs_cases by blast
    then have "reads_pipe d" "reads_line r" using less.hyps [of d] less.hyps [of r] less.prems LIST by auto
    then have "reads_line c" using line_reads [of d r m] d LIST less.prems by simp
    moreover have "reads_exec c" using block [OF calculation less.prems] LIST by simp
    ultimately show ?thesis using pipe_of_exec [of c] LIST by (simp add: parens_def)
  next
    case (BACK c0)
    obtain m d where d: "c = backs m d" "\<forall>e. d \<noteq> BACK e" "size d + m = size c" "wf_cmd d = wf_cmd c"
      using backs_cases by blast
    then have "m \<noteq> 0" using BACK by (cases m) auto
    then have "reads_pipe d" using less.hyps [of d] d less.prems by simp
    moreover have "show_cmd 0 c = show_cmd 1 c" using BACK by (simp add: parens_def)
    ultimately have "reads_line c" using line_of_back [of d m] d(2) unfolding d(1) by blast
    moreover have "reads_exec c" using block [OF calculation less.prems] BACK by simp
    ultimately show ?thesis using pipe_of_exec [of c] BACK by (simp add: parens_def)
  qed
qed

lemma text_at_refl: "text_at (pre @ xs @ NUL # junk) (length pre + length xs) (length pre) xs"
proof (induction xs arbitrary: pre)
  case (Cons x xs)
  then show ?case using Cons.IH [of "pre @ [x]"] by simp
qed simp

lemma show_no_nul: "wf_cmd c \<Longrightarrow> NUL \<notin> set (show_cmd k c)"
proof (induction c arbitrary: k)
  case (EXEC ws)
  then show ?case by (auto simp: show_words_def wordy_def wordch_def)
next
  case (REDIR c f m fd)
  then show ?case by (auto simp: show_redir_def wordy_def wordch_def)
qed (auto simp: parens_def)

text \<open>C20: every command tree of the shell, written out with the parentheses its shape
  needs, is read back as itself by \<open>parsecmd\<close>, which terminates its words so that the
  strings the command's pointers lead to are the original words.\<close>

theorem parse_print_roundtrip:
  assumes "wf_cmd c"
  shows "\<exists>c' buf' s. parsecmd (show_cmd 0 c @ [NUL]) = POk (c', buf') s \<and> cmd_strings buf' c' = c"
proof -
  define buf where "buf = show_cmd 0 c @ [NUL]"
  define es where "es = length (show_cmd 0 c)"
  have "NUL \<notin> set (show_cmd 0 c)" using assms by (rule show_no_nul)
  then have "takeWhile (\<lambda>c. c \<noteq> NUL) buf = show_cmd 0 c"
    unfolding buf_def by (subst takeWhile_append2) auto
  then have le: "line_end buf = es" by (simp add: line_end_def es_def)
  have ta: "text_at buf es 0 (show_cmd 0 c @ [])"
    using text_at_refl [of "[]" "show_cmd 0 c" "[]"] by (simp add: buf_def es_def)
  have len: "es < length buf" by (simp add: buf_def es_def)
  have fuel: "4 * (es - 0) + 3 < parse_fuel es" by (simp add: parse_fuel_def)
  have rl: "reads_line c" and F: "follow '')'' []" using show_reads [OF assms] by (simp_all add: follow_def)
  obtain c' where c': "parseline (parse_fuel es) buf es 0 = POk c' (0 + length (show_cmd 0 c))" "sub_words buf c' = c"
    by (rule readsE [OF rl len ta F fuel])
  have "nul_end buf es" using line_end_nul [of buf] by (simp add: le) (simp add: buf_def)
  then have "good buf es 0 (parseline (parse_fuel es) buf es 0)"
    using fuel by (intro parser_good(1)) simp_all
  then have "cmd_strings (nulterminate c' buf) c' = c"
    using cmd_strings_nulterminate [OF len] c' by simp
  moreover have "peek buf es es '''' = (es, False)"
    using text_at_append [OF ta] by (subst peek_at [of _ _ _ "[]"]) (simp_all add: es_def)
  ultimately show ?thesis
    using c'(1) by (simp add: parsecmd_def buf_def [symmetric] le) (simp add: es_def)
qed

theorem parse_print_roundtrip_witness:
  "\<exists>c' buf' s. parsecmd (''( ls ; cat < f ) > g '' @ [NUL]) = POk (c', buf') s \<and>
     cmd_strings buf' c' = REDIR (LIST (EXEC [''ls'']) (REDIR (EXEC [''cat'']) ''f'' 0 0)) ''g'' 0x201 1"
proof -
  have w: "wf_cmd (REDIR (LIST (EXEC [''ls'']) (REDIR (EXEC [''cat'']) ''f'' 0 0)) ''g'' 0x201 1)" by code_simp
  show ?thesis using parse_print_roundtrip [OF w]
    by (simp add: show_words_def show_redir_def parens_def)
qed

end
