(* ===== verification/Sh_Run.thy ===== *)
theory Sh_Run
  imports Sh_Parse
begin

text \<open>
  The shell's command loop and \<open>runcmd\<close> (\<^verbatim>\<open>src/sh.c\<close>), on file descriptor tables. A system
  call acts on the table of the process that makes it: \<open>open\<close>, \<open>dup\<close> and \<open>pipe\<close> take the
  lowest free descriptors, \<open>fork\<close> copies the table and \<open>exec\<close> hands it to the program. Which
  calls succeed is the environment's choice. What the commands do is the list of the
  programs they start, each with its arguments and its descriptor table, in the order in
  which a child runs before its parent goes on.
\<close>

section \<open>Descriptors\<close>

datatype fobj = FConsole | FPath string int | FPipeR nat | FPipeW nat

type_synonym fdtab = "nat \<Rightarrow> fobj option"

definition fd_lowest :: "fdtab \<Rightarrow> nat option" where
  "fd_lowest fds = find (\<lambda>i. fds i = None) [0..<16]"

definition sh_close :: "nat \<Rightarrow> fdtab \<Rightarrow> fdtab" where
  "sh_close fd fds = fds(fd := None)"

definition sh_alloc :: "fobj \<Rightarrow> fdtab \<Rightarrow> (nat \<times> fdtab) option" where
  "sh_alloc ob fds = (case fd_lowest fds of None \<Rightarrow> None | Some k \<Rightarrow> Some (k, fds(k \<mapsto> ob)))"

text \<open>\<open>dup(fd)\<close>, whose result the shell ignores.\<close>

definition sh_dup :: "nat \<Rightarrow> fdtab \<Rightarrow> fdtab" where
  "sh_dup fd fds =
     (case fds fd of None \<Rightarrow> fds
      | Some ob \<Rightarrow> (case sh_alloc ob fds of None \<Rightarrow> fds | Some (k, fds') \<Rightarrow> fds'))"

definition sh_pipe :: "nat \<Rightarrow> fdtab \<Rightarrow> (nat \<times> nat \<times> fdtab) option" where
  "sh_pipe k fds =
     (case sh_alloc (FPipeR k) fds of None \<Rightarrow> None
      | Some (r, fds1) \<Rightarrow>
         (case sh_alloc (FPipeW k) fds1 of None \<Rightarrow> None | Some (w, fds2) \<Rightarrow> Some (r, w, fds2)))"

section \<open>Running a command\<close>

datatype event = Ran "string list" fdtab | Say string | Chdir string

record env =
  can_open :: "string \<Rightarrow> int \<Rightarrow> bool"
  can_exec :: "string \<Rightarrow> bool"
  can_chdir :: "string \<Rightarrow> bool"
  fork_ok :: "nat \<Rightarrow> bool"     \<comment> \<open>the outcome of each fork, by its number\<close>
  pipe_ok :: "nat \<Rightarrow> bool"

record world =
  nfork :: nat
  npipe :: nat
  events :: "event list"

definition emit :: "event \<Rightarrow> world \<Rightarrow> world" where
  "emit e w = w\<lparr>events := events w @ [e]\<rparr>"

text \<open>\<open>fork1\<close>: None when \<open>fork\<close> fails; the caller then panics.\<close>

definition fork1 :: "env \<Rightarrow> world \<Rightarrow> world option" where
  "fork1 env w = (if fork_ok env (nfork w) then Some (w\<lparr>nfork := nfork w + 1\<rparr>) else None)"

definition sh_panic :: "string \<Rightarrow> world \<Rightarrow> world" where
  "sh_panic msg w = emit (Say (msg @ [CHR 0x0A])) w"

fun runcmd :: "env \<Rightarrow> string cmd \<Rightarrow> fdtab \<Rightarrow> world \<Rightarrow> world" where
  "runcmd env (EXEC argv) fds w =
     (if argv = [] then w
      else if can_exec env (hd argv) then emit (Ran argv fds) w
      else emit (Say (''exec '' @ hd argv @ '' failed'' @ [CHR 0x0A])) w)"
| "runcmd env (REDIR c file mode fd) fds w =
     (let fds = sh_close (nat fd) fds
      in case (if can_open env file mode then sh_alloc (FPath file mode) fds else None) of
           None \<Rightarrow> emit (Say (''open '' @ file @ '' failed'' @ [CHR 0x0A])) w
         | Some (_, fds) \<Rightarrow> runcmd env c fds w)"
| "runcmd env (LIST l r) fds w =
     (case fork1 env w of None \<Rightarrow> sh_panic ''fork'' w
      | Some w \<Rightarrow> runcmd env r fds (runcmd env l fds w))"
| "runcmd env (PIPE l r) fds w =
     (case (if pipe_ok env (npipe w) then sh_pipe (npipe w) fds else None) of
        None \<Rightarrow> sh_panic ''pipe'' w
      | Some (p0, p1, fds) \<Rightarrow>
         (let w = w\<lparr>npipe := npipe w + 1\<rparr> in case fork1 env w of None \<Rightarrow> sh_panic ''fork'' w
          | Some w \<Rightarrow>
             (let w = runcmd env l (sh_close p1 (sh_close p0 (sh_dup p1 (sh_close 1 fds)))) w
              in case fork1 env w of None \<Rightarrow> sh_panic ''fork'' w
                 | Some w \<Rightarrow>
                    runcmd env r (sh_close p1 (sh_close p0 (sh_dup p0 (sh_close 0 fds)))) w)))"
| "runcmd env (BACK c) fds w =
     (case fork1 env w of None \<Rightarrow> sh_panic ''fork'' w | Some w \<Rightarrow> runcmd env c fds w)"

section \<open>The command loop\<close>

text \<open>\<open>while((fd = open("console", O_RDWR)) >= 0) if(fd >= 3) { close(fd); break; }\<close>;
  a table has 16 entries, so 17 rounds are enough.\<close>

fun open_std :: "nat \<Rightarrow> env \<Rightarrow> fdtab \<Rightarrow> fdtab" where
  "open_std 0 env fds = fds"
| "open_std (Suc n) env fds =
     (case (if can_open env ''console'' O_RDWR then sh_alloc FConsole fds else None) of
        None \<Rightarrow> fds
      | Some (fd, fds') \<Rightarrow> if fd \<ge> 3 then sh_close fd fds' else open_std n env fds')"

definition getcmd :: "nat \<Rightarrow> string \<Rightarrow> (string \<times> string) option" where
  "getcmd nbuf inp =
     (let (buf, rest) = gets (replicate nbuf NUL) (int nbuf) inp
      in if buf ! 0 = NUL then None else Some (buf, rest))"

text \<open>One line: \<open>cd\<close> is run by the shell itself, anything else in a child. None when the
  shell panics because it cannot fork.\<close>

definition sh_line :: "env \<Rightarrow> fdtab \<Rightarrow> string \<Rightarrow> world \<Rightarrow> world \<times> bool" where
  "sh_line env fds buf w =
     (if buf ! 0 = CHR ''c'' \<and> buf ! 1 = CHR ''d'' \<and> buf ! 2 = CHR '' ''
      then let buf = buf[line_end buf - 1 := NUL]; dir = cstr_at buf 3
           in (if can_chdir env dir then emit (Chdir dir) w
               else emit (Say (''cannot cd '' @ dir @ [CHR 0x0A])) w, True)
      else case fork1 env w of None \<Rightarrow> (sh_panic ''fork'' w, False)
           | Some w \<Rightarrow>
              (case parsecmd buf of
                 POk (c, buf) _ \<Rightarrow> runcmd env (cmd_strings buf c) fds w
               | PPanic msg \<Rightarrow> sh_panic msg w
               | PFuel \<Rightarrow> w, True))"

lemma getcmd_rest: "getcmd n inp = Some (buf, rest) \<Longrightarrow> length rest < length inp"
proof -
  assume g: "getcmd n inp = Some (buf, rest)"
  obtain cs r where l: "gets_loop (nat (int n - 1)) inp = (cs, r)" by fastforce
  have "cs \<noteq> []" "r = rest" using g by (auto simp: getcmd_def gets_def l split: if_splits)
  then show ?thesis using gets_loop_split [OF l] by auto
qed

function sh_loop :: "env \<Rightarrow> fdtab \<Rightarrow> string \<Rightarrow> world \<Rightarrow> world" where
  "sh_loop env fds inp w =
     (case getcmd 100 inp of None \<Rightarrow> emit (Say ''$ '') w
      | Some (buf, rest) \<Rightarrow>
         (let (w, go) = sh_line env fds buf (emit (Say ''$ '') w)
          in if go then sh_loop env fds rest w else w))"
  by auto
termination
  by (relation "measure (\<lambda>(_, _, inp, _). length inp)") (auto dest: getcmd_rest)

definition sh_main :: "env \<Rightarrow> fdtab \<Rightarrow> string \<Rightarrow> world \<Rightarrow> world" where
  "sh_main env fds inp w = sh_loop env (open_std 17 env fds) inp w"

section \<open>Pipelines\<close>

fun pipeline :: "string list \<Rightarrow> string list list \<Rightarrow> string cmd" where
  "pipeline a [] = EXEC a"
| "pipeline a (b # bs) = PIPE (EXEC a) (pipeline b bs)"

text \<open>A table with exactly the three standard descriptors.\<close>

definition std_fds :: "fobj \<Rightarrow> fobj \<Rightarrow> fobj \<Rightarrow> fdtab" where
  "std_fds i o' e = [0 \<mapsto> i, 1 \<mapsto> o', 2 \<mapsto> e]"

fun stages :: "nat \<Rightarrow> fobj \<Rightarrow> fobj \<Rightarrow> fobj \<Rightarrow> string list \<Rightarrow> string list list \<Rightarrow> event list" where
  "stages k i o' e a [] = [Ran a (std_fds i o' e)]"
| "stages k i o' e a (b # bs) =
     Ran a (std_fds i (FPipeW k) e) # stages (k + 1) (FPipeR k) o' e b bs"

lemma upt16: "[0..<16] = [0, 1, 2, 3, 4, 5, 6, 7, 8, 9, 10, 11, 12, 13, 14, 15]"
  by (simp add: upt_rec numeral_eq_Suc)

lemma pipe_std:
  assumes "sh_pipe k (std_fds i o' e) = Some (p0, p1, fds)"
  shows "sh_close p1 (sh_close p0 (sh_dup p1 (sh_close 1 fds))) = std_fds i (FPipeW k) e"
    and "sh_close p1 (sh_close p0 (sh_dup p0 (sh_close 0 fds))) = std_fds (FPipeR k) o' e"
proof -
  have "p0 = 3" "p1 = 4" "fds = (std_fds i o' e)(3 \<mapsto> FPipeR k, 4 \<mapsto> FPipeW k)"
    using assms by (auto simp: sh_pipe_def sh_alloc_def fd_lowest_def upt16 std_fds_def)
  then show "sh_close p1 (sh_close p0 (sh_dup p1 (sh_close 1 fds))) = std_fds i (FPipeW k) e"
    and "sh_close p1 (sh_close p0 (sh_dup p0 (sh_close 0 fds))) = std_fds (FPipeR k) o' e"
    by (auto simp: sh_close_def sh_dup_def sh_alloc_def fd_lowest_def upt16 std_fds_def fun_upd_def)
qed

lemma sh_pipe_std: "\<exists>r. sh_pipe k (std_fds i o' e) = Some r"
  by (simp add: sh_pipe_def sh_alloc_def fd_lowest_def upt16 std_fds_def)

text \<open>C22: a pipeline started with only the three standard descriptors open runs its
  programs with exactly three open descriptors each: the standard input of a program is
  the read end of the pipe whose write end is the standard output of the program before
  it, the first one's input and the last one's output are the shell's, and no program
  holds a pipe end besides, so that every reader sees end of file once its writer ends.\<close>

theorem runcmd_pipeline:
  assumes "\<forall>x \<in> set (a # bs). x \<noteq> [] \<and> can_exec env (hd x)"
    and "\<forall>k. fork_ok env k" and "\<forall>k. pipe_ok env k"
  shows "events (runcmd env (pipeline a bs) (std_fds i o' e) w) = events w @ stages (npipe w) i o' e a bs"
  using assms(1)
proof (induction bs arbitrary: a i w)
  case Nil
  then show ?case by (simp add: emit_def)
next
  case (Cons b bs)
  obtain p0 p1 fds where p: "sh_pipe (npipe w) (std_fds i o' e) = Some (p0, p1, fds)"
    using sh_pipe_std by (metis surj_pair)
  show ?case
    using Cons.prems assms(2,3) by (simp add: p pipe_std [OF p] pipe_std [OF p, simplified] fork1_def Cons.IH emit_def)
qed

theorem runcmd_pipeline_witness:
  "events (runcmd \<lparr>can_open = (\<lambda>_ _. True), can_exec = (\<lambda>_. True), can_chdir = (\<lambda>_. True),
       fork_ok = (\<lambda>_. True), pipe_ok = (\<lambda>_. True)\<rparr>
     (PIPE (EXEC [''ls'']) (EXEC [''wc''])) (std_fds FConsole FConsole FConsole)
     \<lparr>nfork = 0, npipe = 0, events = []\<rparr>) =
   [Ran [''ls''] (std_fds FConsole (FPipeW 0) FConsole),
    Ran [''wc''] (std_fds (FPipeR 0) FConsole FConsole)]"
  using runcmd_pipeline [of "[''ls'']" "[[''wc'']]" "\<lparr>can_open = (\<lambda>_ _. True), can_exec = (\<lambda>_. True),
    can_chdir = (\<lambda>_. True), fork_ok = (\<lambda>_. True), pipe_ok = (\<lambda>_. True)\<rparr>" FConsole FConsole FConsole
    "\<lparr>nfork = 0, npipe = 0, events = []\<rparr>"] by simp

end
