(* ===== verification/Printf.thy ===== *)
theory Printf
  imports Ulib
begin

text \<open>
  Formatted output of user programs (\<^verbatim>\<open>src/printf.c\<close>). The output is the list of the
  characters written, one \<open>write\<close> each. \<open>printint\<close> collects digits in a buffer of 16
  characters: None is a write past its end.
\<close>

section \<open>Definitions\<close>

definition pdigits :: string where
  "pdigits = ''0123456789ABCDEF''"

text \<open>\<open>do buf[i++] = digits[x % base]; while((x /= base) != 0)\<close>, with the room left in \<open>buf\<close>.\<close>

fun printint_loop :: "nat \<Rightarrow> uint \<Rightarrow> uint \<Rightarrow> string option" where
  "printint_loop 0 x base = None"
| "printint_loop (Suc room) x base =
     (let d = pdigits ! unat (x mod base); x' = x div base
      in if x' = 0 then Some [d] else map_option ((#) d) (printint_loop room x' base))"

definition printint :: "uint \<Rightarrow> uint \<Rightarrow> bool \<Rightarrow> string option" where
  "printint xx base sg =
     (let neg = (sg \<and> sint xx < 0); x = (if neg then - xx else xx)
      in case printint_loop 16 x base of
           None \<Rightarrow> None
         | Some buf \<Rightarrow>
             if neg then (if length buf < 16 then Some (rev (buf @ ''-'')) else None)
             else Some (rev buf))"

definition printlong :: "64 word \<Rightarrow> string option" where
  "printlong xx =
     (let upper = (ucast (drop_bit 32 xx) :: uint); lower = (ucast xx :: uint)
      in case (if upper \<noteq> 0 then printint upper 16 False else Some []) of
           None \<Rightarrow> None
         | Some a \<Rightarrow> map_option ((@) a) (printint lower 16 False))"

text \<open>
  \<open>printf\<close>: \<open>ap\<close> gives the words on the stack after the format, \<open>str\<close> the C string at an
  address; \<open>pct\<close> is the loop's \<open>state\<close>, set after a percent sign.
\<close>

fun printf_loop :: "(uint \<Rightarrow> string) \<Rightarrow> (nat \<Rightarrow> uint) \<Rightarrow> nat \<Rightarrow> bool \<Rightarrow> string \<Rightarrow> string option" where
  "printf_loop str ap k pct [] = Some []"
| "printf_loop str ap k pct (c # fmt) =
     (let out = (\<lambda>r k'. case r of None \<Rightarrow> None
                  | Some a \<Rightarrow> map_option ((@) a) (printf_loop str ap k' False fmt))
      in if \<not> pct then
           (if c = CHR ''%'' then printf_loop str ap k True fmt else out (Some [c]) k)
         else if c = CHR ''d'' then out (printint (ap k) 10 True) (k + 1)
         else if c = CHR ''l'' then
           out (printlong (push_bit 32 (ucast (ap (k + 1))) OR ucast (ap k))) (k + 2)
         else if c = CHR ''x'' \<or> c = CHR ''p'' then out (printint (ap k) 16 False) (k + 1)
         else if c = CHR ''s'' then
           out (Some (if ap k = 0 then ''(null)'' else str (ap k))) (k + 1)
         else if c = CHR ''c'' then out (Some [char_of (unat (ap k))]) (k + 1)
         else if c = CHR ''%'' then out (Some [c]) k
         else out (Some [CHR ''%'', c]) k)"

definition printf :: "(uint \<Rightarrow> string) \<Rightarrow> (nat \<Rightarrow> uint) \<Rightarrow> string \<Rightarrow> string option" where
  "printf str ap fmt = printf_loop str ap 0 False fmt"

section \<open>Decimal output\<close>

lemma digit_char:
  assumes "k < 10"
  shows "of_char (pdigits ! k) = (48 + k :: nat)" "of_char (pdigits ! k) = (48 + of_nat k :: uint)"
proof -
  have "k = 0 \<or> k = 1 \<or> k = 2 \<or> k = 3 \<or> k = 4 \<or> k = 5 \<or> k = 6 \<or> k = 7 \<or> k = 8 \<or> k = 9"
    using assms by arith
  then show "of_char (pdigits ! k) = (48 + k :: nat)" "of_char (pdigits ! k) = (48 + of_nat k :: uint)"
    by (auto simp: pdigits_def)
qed

lemma unat_10: "unat (10 :: uint) = 10"
  by simp

lemma printint_loop_Some:
  assumes "unat x < 10 ^ room" "0 < room"
  shows "\<exists>ds. printint_loop room x 10 = Some ds \<and> ds \<noteq> [] \<and> length ds \<le> room \<and>
    (\<forall>d \<in> set ds. 48 \<le> (of_char d :: nat) \<and> (of_char d :: nat) \<le> 57) \<and>
    (\<forall>n t. atoi_loop n (rev ds @ t) = atoi_loop (n * 10 ^ length ds + x) t) \<and>
    (last ds = CHR ''0'' \<longrightarrow> x = 0)"
  using assms
proof (induction room arbitrary: x)
  case (Suc room)
  define d where "d = pdigits ! unat (x mod 10)"
  have lt: "unat (x mod 10) < 10" by (simp add: unat_mod)
  have dn: "of_char d = (48 + unat (x mod 10) :: nat)" and
    dw: "of_char d = (48 + of_nat (unat (x mod 10)) :: uint)"
    unfolding d_def by (rule digit_char [OF lt])+
  have dr: "48 \<le> (of_char d :: nat) \<and> (of_char d :: nat) \<le> 57" using dn lt by simp
  have dw': "of_char d - 48 = x mod 10" using dw by simp
  have x: "x = x div 10 * 10 + x mod 10" by (rule div_mult_mod_eq [symmetric])
  show ?case
  proof (cases "x div 10 = 0")
    case True
    then have m: "x mod 10 = x" using x by simp
    have "printint_loop (Suc room) x 10 = Some [d]" using True by (simp add: d_def)
    moreover have "atoi_loop n (rev [d] @ t) = atoi_loop (n * 10 ^ length [d] + x) t" for n t
      using dr dw' m by (simp add: add_diff_eq [symmetric])
    moreover have "x = 0" if "last [d] = CHR ''0''" using dw' m that by simp
    ultimately show ?thesis using dr by (intro exI [of _ "[d]"]) simp
  next
    case False
    have "room \<noteq> 0"
    proof
      assume "room = 0"
      then have "unat x div 10 = 0" using Suc.prems by simp
      then show False using False by (metis unat_div unat_eq_zero unat_10)
    qed
    moreover have "unat (x div 10) < 10 ^ room" using Suc.prems(1) by (simp add: unat_div)
    ultimately obtain ds where ds: "printint_loop room (x div 10) 10 = Some ds" "ds \<noteq> []" "length ds \<le> room"
      "\<forall>d \<in> set ds. 48 \<le> (of_char d :: nat) \<and> (of_char d :: nat) \<le> 57"
      "\<forall>n t. atoi_loop n (rev ds @ t) = atoi_loop (n * 10 ^ length ds + x div 10) t"
      "last ds = CHR ''0'' \<longrightarrow> x div 10 = 0"
      using Suc.IH [of "x div 10"] by auto
    have "atoi_loop n (rev (d # ds) @ t) = atoi_loop (n * 10 ^ length (d # ds) + x) t" for n t
    proof -
      have "(n * 10 ^ length ds + x div 10) * 10 + of_char d - 48 = n * 10 ^ length (d # ds) + (x div 10 * 10 + x mod 10)"
        using dw' by (simp add: algebra_simps)
      then have e: "(n * 10 ^ length ds + x div 10) * 10 + of_char d - 48 = n * 10 ^ length (d # ds) + x"
        by (simp only: x [symmetric])
      have "atoi_loop n (rev (d # ds) @ t) = atoi_loop (n * 10 ^ length ds + x div 10) (d # t)"
        using ds(5) by simp
      also have "\<dots> = atoi_loop ((n * 10 ^ length ds + x div 10) * 10 + of_char d - 48) t"
        using dr by (simp only: atoi_loop.simps if_True simp_thms)
      finally show ?thesis by (simp only: e)
    qed
    moreover have "printint_loop (Suc room) x 10 = Some (d # ds)" using False ds(1) by (simp add: d_def)
    ultimately show ?thesis using ds False dr by (intro exI [of _ "d # ds"]) simp
  qed
qed simp

lemma printint_loop_more: "printint_loop n x b = Some ds \<Longrightarrow> printint_loop (n + k) x b = Some ds"
  by (induction n arbitrary: x ds) (auto simp: Let_def split: if_splits)

text \<open>C33: \<open>%d\<close> prints every 32-bit integer, the most negative one included, within its
  buffer: a minus sign exactly for the negative ones, then decimal digits without a
  leading zero, which \<open>atoi\<close> reads back as the magnitude.\<close>

theorem printint_atoi_roundtrip:
  "\<exists>ds. printint x 10 True = Some (if sint x < 0 then CHR ''-'' # ds else ds) \<and> ds \<noteq> [] \<and>
     (\<forall>d \<in> set ds. 48 \<le> (of_char d :: nat) \<and> (of_char d :: nat) \<le> 57) \<and>
     (hd ds = CHR ''0'' \<longrightarrow> x = 0) \<and> atoi ds = (if sint x < 0 then - x else x)"
proof -
  define y where "y = (if sint x < 0 then - x else x)"
  have "unat y < 10 ^ 10" using unsigned_less [of y] by (rule less_trans) simp
  then obtain ds where ds: "printint_loop 10 y 10 = Some ds" "ds \<noteq> []" "length ds \<le> 10"
    "\<forall>d \<in> set ds. 48 \<le> (of_char d :: nat) \<and> (of_char d :: nat) \<le> 57"
    "\<forall>n t. atoi_loop n (rev ds @ t) = atoi_loop (n * 10 ^ length ds + y) t"
    "last ds = CHR ''0'' \<longrightarrow> y = 0"
    using printint_loop_Some [of y 10] by auto
  have "printint_loop 16 y 10 = Some ds" using printint_loop_more [OF ds(1), of 6] by simp
  then have "printint x 10 True = Some (if sint x < 0 then CHR ''-'' # rev ds else rev ds)"
    using ds(3) by (simp add: printint_def y_def [symmetric] Let_def)
  moreover have "atoi (rev ds) = y" using ds(5) [rule_format, of 0 "[]"] by (simp add: atoi_def)
  moreover have "hd (rev ds) = CHR ''0'' \<longrightarrow> x = 0"
    using ds(2,6) by (auto simp: hd_rev y_def split: if_splits)
  ultimately show ?thesis using ds(2,4) by (intro exI [of _ "rev ds"]) (simp add: y_def)
qed

theorem printint_atoi_roundtrip_witness:
  "\<exists>ds. printint 0x80000000 10 True = Some (CHR ''-'' # ds) \<and> atoi ds = 0x80000000"
proof -
  have "sint (0x80000000 :: uint) < 0" by code_simp
  then show ?thesis using printint_atoi_roundtrip [of "0x80000000"] by auto
qed

text \<open>\<open>%l\<close> loses information: the low half of a 64-bit number is printed without its
  leading zeros, so that different numbers print alike.\<close>

theorem printlong_ambiguous:
  "printlong 0x100000001 = Some ''11'' \<and> printlong 0x11 = Some ''11''"
  by code_simp

end
