(* ===== verification/Textutils.thy ===== *)
theory Textutils
  imports Ulib
begin

text \<open>
  The text utilities: the pattern matcher and the line filter of \<^verbatim>\<open>src/grep.c\<close>, the
  counter of \<^verbatim>\<open>src/wc.c\<close>, and \<^verbatim>\<open>src/cat.c\<close> and \<^verbatim>\<open>src/echo.c\<close>. A file is read in the pieces
  the kernel hands out: an input is the list of the pieces to come, a \<open>read\<close> of \<open>n\<close> bytes
  gives at most \<open>n\<close> bytes of the next piece, and at the end of the list end of file or, with
  the flag set, an error.
\<close>

record input =
  pieces :: "string list"
  rd_error :: bool

definition read_in :: "nat \<Rightarrow> input \<Rightarrow> string option \<times> input" where
  "read_in n inp =
     (case pieces inp of
        [] \<Rightarrow> (if rd_error inp then None else Some [], inp)
      | p # ps \<Rightarrow> (Some (take n p), inp\<lparr>pieces := (if length p \<le> n then ps else drop n p # ps)\<rparr>))"

lemma read_in_rest:
  "read_in n inp = (Some got, inp') \<Longrightarrow> got \<noteq> [] \<Longrightarrow>
    concat (pieces inp) = got @ concat (pieces inp') \<and> length got \<le> n \<and> rd_error inp' = rd_error inp"
  by (auto simp: read_in_def split: list.splits if_splits)

lemma read_in_less:
  assumes "(Some got, inp') = read_in n inp" "got \<noteq> []"
  shows "length (concat (pieces inp')) < length (concat (pieces inp))"
  using read_in_rest [OF assms(1) [symmetric] assms(2)] assms(2) by simp

section \<open>grep: patterns\<close>

function matchhere :: "string \<Rightarrow> string \<Rightarrow> bool"
  and matchstar :: "char \<Rightarrow> string \<Rightarrow> string \<Rightarrow> bool"
where
  "matchhere re txt' =
     (if re = [] then True
      else if length re \<ge> 2 \<and> re ! 1 = CHR ''*'' then matchstar (re ! 0) (drop 2 re) txt'
      else if re ! 0 = CHR ''$'' \<and> length re = 1 then txt' = []
      else if txt' \<noteq> [] \<and> (re ! 0 = CHR ''.'' \<or> re ! 0 = txt' ! 0)
      then matchhere (drop 1 re) (drop 1 txt')
      else False)"
| "matchstar c re txt' =
     (if matchhere re txt' then True
      else if txt' \<noteq> [] \<and> (txt' ! 0 = c \<or> c = CHR ''.'') then matchstar c re (drop 1 txt')
      else False)"
  by pat_completeness auto
termination
  by (relation "measures [case_sum (\<lambda>(re, t). length re) (\<lambda>(c, re, t). length re),
        case_sum (\<lambda>(re, t). length t) (\<lambda>(c, re, t). length t), case_sum (\<lambda>_. 0) (\<lambda>_. 1)]") auto

declare matchhere.simps [simp del] matchstar.simps [simp del]

text \<open>The \<open>do\<close> loop of \<open>match\<close> looks at every suffix of the text, the empty one included.\<close>

fun match_from :: "string \<Rightarrow> string \<Rightarrow> bool" where
  "match_from re [] = matchhere re []"
| "match_from re (c # t) = (matchhere re (c # t) \<or> match_from re t)"

definition match :: "string \<Rightarrow> string \<Rightarrow> bool" where
  "match re t =
     (if re \<noteq> [] \<and> re ! 0 = CHR ''^'' then matchhere (drop 1 re) t else match_from re t)"

section \<open>grep: lines\<close>

text \<open>The loop over the lines of the buffer gives the output and what is left at \<open>p\<close>.\<close>

function grep_lines :: "string \<Rightarrow> string \<Rightarrow> string \<times> string" where
  "grep_lines pat p =
     (case strchr (takeWhile (\<lambda>c. c \<noteq> NUL) p) (CHR 0x0A) of
        None \<Rightarrow> ([], p)
      | Some k \<Rightarrow>
          (let l = take k p; (out, rest) = grep_lines pat (drop (k + 1) p)
           in ((if match pat l then l @ [CHR 0x0A] else []) @ out, rest)))"
  by auto
termination
proof (relation "measure (\<lambda>(pat, p). length p)")
  fix pat p :: string and k
  assume "strchr (takeWhile (\<lambda>c. c \<noteq> NUL) p) (CHR 0x0A) = Some k"
  then have "k < length p" using strchr_SomeD length_takeWhile_le less_le_trans by blast
  then show "((pat, drop (k + 1) p), pat, p) \<in> measure (\<lambda>(pat, p). length p)" by simp
qed simp

declare grep_lines.simps [simp del]

text \<open>\<open>kept\<close> holds the \<open>m\<close> bytes at the start of \<open>buf\<close>; \<open>p == buf\<close> when no line was found.\<close>

function grep :: "string \<Rightarrow> string \<Rightarrow> input \<Rightarrow> string" where
  "grep pat kept inp =
     (case read_in (1024 - length kept - 1) inp of
        (None, _) \<Rightarrow> []
      | (Some got, inp') \<Rightarrow>
          if got = [] then []
          else let buf = kept @ got; (out, rest) = grep_lines pat buf
               in out @ grep pat (if length rest = length buf then [] else rest) inp')"
  by auto
termination
  by (relation "measure (\<lambda>(pat, kept, inp). length (concat (pieces inp)))") (auto dest: read_in_less)

section \<open>wc, cat and echo\<close>

record counts =
  wc_l :: int
  wc_w :: int
  wc_c :: int
  inword :: bool

definition wc_char :: "char \<Rightarrow> counts \<Rightarrow> counts" where
  "wc_char b s =
     (let s = s\<lparr>wc_c := wc_c s + 1\<rparr>;
          s = (if b = CHR 0x0A then s\<lparr>wc_l := wc_l s + 1\<rparr> else s)
      in if strchr [CHR '' '', CHR 0x0D, CHR 0x09, CHR 0x0A, CHR 0x0B] b \<noteq> None then s\<lparr>inword := False\<rparr>
         else if \<not> inword s then s\<lparr>wc_w := wc_w s + 1, inword := True\<rparr>
         else s)"

text \<open>None: the read error that ends the program.\<close>

function wc_loop :: "counts \<Rightarrow> input \<Rightarrow> counts option" where
  "wc_loop s inp =
     (case read_in 512 inp of
        (None, _) \<Rightarrow> None
      | (Some buf, inp') \<Rightarrow> if buf = [] then Some s else wc_loop (fold wc_char buf s) inp')"
  by auto
termination
  by (relation "measure (\<lambda>(s, inp). length (concat (pieces inp)))") (auto dest: read_in_less)

definition wc :: "input \<Rightarrow> (int \<times> int \<times> int) option" where
  "wc inp = map_option (\<lambda>s. (wc_l s, wc_w s, wc_c s))
     (wc_loop \<lparr>wc_l = 0, wc_w = 0, wc_c = 0, inword = False\<rparr> inp)"

text \<open>\<open>cat\<close> gives what it wrote and whether it ended without a read error.\<close>

function cat :: "input \<Rightarrow> string \<times> bool" where
  "cat inp =
     (case read_in 512 inp of
        (None, _) \<Rightarrow> ([], False)
      | (Some buf, inp') \<Rightarrow>
          if buf = [] then ([], True) else let (out, ok) = cat inp' in (buf @ out, ok))"
  by auto
termination
  by (relation "measure (\<lambda>inp. length (concat (pieces inp)))") (auto dest: read_in_less)

fun echo_args :: "string list \<Rightarrow> string" where
  "echo_args [] = []"
| "echo_args [a] = a @ [CHR 0x0A]"
| "echo_args (a # as) = a @ '' '' @ echo_args as"

declare grep.simps [simp del] wc_loop.simps [simp del] cat.simps [simp del]

section \<open>The language of a pattern\<close>

datatype item = One char | Star char

definition sel :: "char \<Rightarrow> char \<Rightarrow> bool" where
  "sel c x \<longleftrightarrow> c = CHR ''.'' \<or> c = x"

text \<open>The items of a pattern, and whether it ends with a dollar sign of its own.\<close>

fun items :: "string \<Rightarrow> item list \<times> bool" where
  "items [] = ([], False)"
| "items [c] = (if c = CHR ''$'' then ([], True) else ([One c], False))"
| "items (c # d # re) =
     (if d = CHR ''*'' then apfst ((#) (Star c)) (items re)
      else apfst ((#) (One c)) (items (d # re)))"

fun lang :: "item list \<Rightarrow> string set" where
  "lang [] = {[]}"
| "lang (One c # is) = {x # u |x u. sel c x \<and> u \<in> lang is}"
| "lang (Star c # is) = {us @ v |us v. (\<forall>x \<in> set us. sel c x) \<and> v \<in> lang is}"

text \<open>The text has a prefix in the language of the pattern, all of it if the pattern ends
  with a dollar sign.\<close>

definition prefix_in :: "item list \<times> bool \<Rightarrow> string \<Rightarrow> bool" where
  "prefix_in re t \<longleftrightarrow> (\<exists>u v. t = u @ v \<and> u \<in> lang (fst re) \<and> (snd re \<longrightarrow> v = []))"

lemma lang_starI: "\<forall>x \<in> set us. sel c x \<Longrightarrow> v \<in> lang is \<Longrightarrow> us @ v \<in> lang (Star c # is)"
  by (simp only: lang.simps) blast

lemma lang_starE:
  assumes "u \<in> lang (Star c # is)"
  obtains us v where "u = us @ v" "\<forall>x \<in> set us. sel c x" "v \<in> lang is"
  using assms by (simp only: lang.simps) blast

lemma prefix_in_star:
  "prefix_in (Star c # is, e) t \<longleftrightarrow>
     prefix_in (is, e) t \<or> (\<exists>x s. t = x # s \<and> sel c x \<and> prefix_in (Star c # is, e) s)"
proof
  assume "prefix_in (Star c # is, e) t"
  then obtain u w where u: "t = u @ w" "u \<in> lang (Star c # is)" and w: "e \<longrightarrow> w = []"
    by (auto simp: prefix_in_def simp del: lang.simps)
  obtain us v where uv: "u = us @ v" and us: "\<forall>x \<in> set us. sel c x" and v: "v \<in> lang is"
    by (rule lang_starE [OF u(2)])
  have t: "t = (us @ v) @ w" by (simp add: u(1) uv)
  show "prefix_in (is, e) t \<or> (\<exists>x s. t = x # s \<and> sel c x \<and> prefix_in (Star c # is, e) s)"
  proof (cases us)
    case Nil
    then show ?thesis using t v w by (auto simp: prefix_in_def)
  next
    case (Cons x us')
    have "us' @ v \<in> lang (Star c # is)" using us v Cons by (intro lang_starI) auto
    then have "prefix_in (Star c # is, e) (us' @ v @ w)" using w unfolding prefix_in_def
      by (intro exI [of _ "us' @ v"] exI [of _ w]) simp
    then show ?thesis using t us Cons by simp
  qed
next
  assume "prefix_in (is, e) t \<or> (\<exists>x s. t = x # s \<and> sel c x \<and> prefix_in (Star c # is, e) s)"
  then show "prefix_in (Star c # is, e) t"
  proof
    assume "prefix_in (is, e) t"
    then obtain u v where "t = u @ v" "u \<in> lang is" "e \<longrightarrow> v = []" by (auto simp: prefix_in_def)
    moreover have "u \<in> lang (Star c # is)" using lang_starI [of "[]" c u "is"] \<open>u \<in> lang is\<close> by simp
    ultimately show ?thesis by (auto simp: prefix_in_def simp del: lang.simps)
  next
    assume "\<exists>x s. t = x # s \<and> sel c x \<and> prefix_in (Star c # is, e) s"
    then obtain x u w where u: "t = x # u @ w" "sel c x" "u \<in> lang (Star c # is)" "e \<longrightarrow> w = []"
      by (auto simp: prefix_in_def simp del: lang.simps)
    obtain us v where uv: "u = us @ v" "\<forall>x \<in> set us. sel c x" "v \<in> lang is"
      by (rule lang_starE [OF u(3)])
    then have "(x # us) @ v \<in> lang (Star c # is)" using u(2) by (intro lang_starI) auto
    then show ?thesis using u(1,4) uv(1) unfolding prefix_in_def
      by (intro exI [of _ "(x # us) @ v"] exI [of _ w]) simp
  qed
qed

lemma prefix_in_one:
  "prefix_in (One c # is, e) t \<longleftrightarrow> (\<exists>x s. t = x # s \<and> sel c x \<and> prefix_in (is, e) s)"
proof
  assume "prefix_in (One c # is, e) t"
  then obtain u v where "t = u @ v" "u \<in> lang (One c # is)" "e \<longrightarrow> v = []" by (auto simp: prefix_in_def simp del: lang.simps)
  moreover from this obtain x w where "u = x # w" "sel c x" "w \<in> lang is" by auto
  ultimately show "\<exists>x s. t = x # s \<and> sel c x \<and> prefix_in (is, e) s" unfolding prefix_in_def
    by (intro exI [of _ x] exI [of _ "w @ v"] conjI exI [of _ w] exI [of _ v]) simp_all
next
  assume "\<exists>x s. t = x # s \<and> sel c x \<and> prefix_in (is, e) s"
  then obtain x u v where t: "t = x # u @ v" "sel c x" "u \<in> lang is" "e \<longrightarrow> v = []" by (auto simp: prefix_in_def)
  then show "prefix_in (One c # is, e) t" unfolding prefix_in_def
    by (intro exI [of _ "x # u"] exI [of _ v]) simp
qed

lemma match_correct:
  "matchhere re t = prefix_in (items re) t"
  "matchstar c re t = prefix_in (apfst ((#) (Star c)) (items re)) t"
proof (induction re t and c re t rule: matchhere_matchstar.induct)
  case (1 re t)
  obtain "is" e where it: "items (drop 1 re) = (is, e)" by fastforce
  consider "re = []" | c where "re = [c]" | c d r where "re = c # d # r" by (cases re rule: items.cases) auto
  then show ?case
  proof cases
    case 1 then show ?thesis by (simp add: matchhere.simps prefix_in_def)
  next
    case 2
    have [simp]: "matchhere [] s" for s by (simp add: matchhere.simps)
    have [simp]: "prefix_in ([], False) s" "prefix_in ([], True) s \<longleftrightarrow> s = []" for s
      by (auto simp: prefix_in_def)
    show ?thesis using 2 by (subst matchhere.simps) (cases t; auto simp: prefix_in_one sel_def)
  next
    case 3
    show ?thesis
    proof (cases "d = CHR ''*''")
      case True
      then show ?thesis using "1.IH"(1) 3 by (subst matchhere.simps) simp
    next
      case False
      have "matchhere re t \<longleftrightarrow> (\<exists>x s. t = x # s \<and> sel c x \<and> matchhere (d # r) s)"
        using 3 False by (subst matchhere.simps) (cases t; auto simp: sel_def)
      moreover have "matchhere (d # r) s = prefix_in (is, e) s" if "t = x # s" "sel c x" for x s
        using "1.IH"(2) 3 False that it by (auto simp: sel_def)
      ultimately show ?thesis using 3 False it by (auto simp: prefix_in_one)
    qed
  qed
next
  case (2 c re t)
  obtain "is" e where it: "items re = (is, e)" by fastforce
  have m: "matchhere re t = prefix_in (is, e) t" using "2.IH"(1) by (simp add: it)
  have s: "matchstar c re s = prefix_in (Star c # is, e) s" if "\<not> matchhere re t" "t = x # s" "sel c x" for x s
    using "2.IH"(2) that by (auto simp: it sel_def)
  have "matchstar c re t \<longleftrightarrow> matchhere re t \<or> (\<exists>x s. t = x # s \<and> sel c x \<and> matchstar c re s)"
    by (subst matchstar.simps) (cases t; auto simp: sel_def)
  then show ?case using m s prefix_in_star [of c "is" e t] by (auto simp: it)
qed

lemma match_from_iff: "match_from re t \<longleftrightarrow> (\<exists>a s. t = a @ s \<and> matchhere re s)"
proof (induction t)
  case (Cons c t)
  then show ?case by (auto simp: Cons_eq_append_conv)
qed simp

text \<open>C34: \<open>match\<close> decides the language of the pattern: it accepts a text exactly if
  some part of it, a prefix when the pattern starts with a caret and a suffix when it ends
  with a dollar sign, is a word of the language the remaining pattern denotes, where a
  period stands for any character and a starred character for any number of it.\<close>

theorem match_language:
  "match re t \<longleftrightarrow>
     (let anchored = (re \<noteq> [] \<and> hd re = CHR ''^''); (is, ends) = items (if anchored then tl re else re)
      in \<exists>a u v. t = a @ u @ v \<and> u \<in> lang is \<and> \<not> (anchored \<and> a \<noteq> []) \<and> \<not> (ends \<and> v \<noteq> []))"
proof -
  have p: "prefix_in r s \<longleftrightarrow> (\<exists>u v. s = u @ v \<and> u \<in> lang (fst r) \<and> \<not> (snd r \<and> v \<noteq> []))" for r s
    by (auto simp: prefix_in_def)
  show ?thesis
  proof (cases "re \<noteq> [] \<and> re ! 0 = CHR ''^''")
    case True
    then have "hd re = CHR ''^''" "drop 1 re = tl re" by (auto simp: hd_conv_nth drop_Suc)
    then show ?thesis using True by (auto simp: match_def match_correct p split: prod.splits)
  next
    case False
    then have "\<not> (re \<noteq> [] \<and> hd re = CHR ''^'')" by (auto simp: hd_conv_nth)
    then show ?thesis using False
      by (auto simp: match_def match_from_iff match_correct p split: prod.splits)
  qed
qed

section \<open>What wc counts\<close>

definition wc_space :: "char \<Rightarrow> bool" where
  "wc_space b \<longleftrightarrow> b \<in> set [CHR '' '', CHR 0x0D, CHR 0x09, CHR 0x0A, CHR 0x0B]"

text \<open>The positions at which a word starts.\<close>

definition word_starts :: "string \<Rightarrow> nat set" where
  "word_starts s = {i. i < length s \<and> \<not> wc_space (s ! i) \<and> (i = 0 \<or> wc_space (s ! (i - 1)))}"

lemma word_starts_snoc:
  "word_starts (s @ [b]) =
     (if \<not> wc_space b \<and> (s = [] \<or> wc_space (last s)) then insert (length s) (word_starts s) else word_starts s)"
proof -
  have "i \<in> word_starts (s @ [b]) \<longleftrightarrow> i \<in> word_starts s \<or>
      i = length s \<and> \<not> wc_space b \<and> (s = [] \<or> wc_space (last s))" for i
    by (cases "s = []") (auto simp: word_starts_def nth_append last_conv_nth less_Suc_eq)
  then show ?thesis by auto
qed

lemma word_starts_list:
  "word_starts s = set (filter (\<lambda>i. \<not> wc_space (s ! i) \<and> (i = 0 \<or> wc_space (s ! (i - 1)))) [0..<length s])"
  by (auto simp: word_starts_def)

lemma word_starts_finite: "finite (word_starts s)" "length s \<notin> word_starts s"
  by (auto simp: word_starts_def)

abbreviation "wc_zero \<equiv> \<lparr>wc_l = 0, wc_w = 0, wc_c = 0, inword = False\<rparr>"

lemma wc_fold:
  "fold wc_char s wc_zero = \<lparr>wc_l = int (count_list s (CHR 0x0A)), wc_w = int (card (word_starts s)),
     wc_c = int (length s), inword = (s \<noteq> [] \<and> \<not> wc_space (last s))\<rparr>"
proof (induction s rule: rev_induct)
  case Nil
  then show ?case by (simp add: word_starts_def)
next
  case (snoc b s)
  then show ?case
    using word_starts_finite [of s]
    by (auto simp: wc_char_def Let_def word_starts_snoc wc_space_def simp del: not_None_eq)
qed

lemma wc_loop_fold:
  assumes "\<forall>p \<in> set (pieces inp). p \<noteq> []"
  shows "wc_loop s inp = (if rd_error inp then None else Some (fold wc_char (concat (pieces inp)) s))"
  using assms
proof (induction s inp rule: wc_loop.induct)
  case (1 s inp)
  show ?case
  proof (cases "pieces inp")
    case Nil
    then show ?thesis by (subst wc_loop.simps) (simp add: read_in_def)
  next
    case (Cons p ps)
    define inp' where "inp' = inp\<lparr>pieces := (if length p \<le> 512 then ps else drop 512 p # ps)\<rparr>"
    have r: "read_in 512 inp = (Some (take 512 p), inp')" using Cons by (simp add: read_in_def inp'_def)
    have p: "take 512 p \<noteq> []" using 1(2) Cons by simp
    have "\<forall>p \<in> set (pieces inp'). p \<noteq> []" using 1(2) Cons by (auto simp: inp'_def)
    note IH = "1.IH" [OF r [symmetric] refl p this]
    have "concat (pieces inp) = take 512 p @ concat (pieces inp')" using read_in_rest [OF r p] by simp
    then show ?thesis using p IH r by (subst wc_loop.simps) (simp add: inp'_def)
  qed
qed



text \<open>\<open>grep\<close> forgets the start of a line that arrives in two pieces when the first
  piece holds no newline: the same file gives the line or nothing, depending only on how
  \<open>read\<close> hands it out.\<close>

theorem grep_forgets_partial_line:
  "grep ''abc'' [] \<lparr>pieces = [''abc'' @ [CHR 0x0A]], rd_error = False\<rparr> = ''abc'' @ [CHR 0x0A] \<and>
   grep ''abc'' [] \<lparr>pieces = [''ab'', ''c'' @ [CHR 0x0A]], rd_error = False\<rparr> = []"
  by code_simp

end
