(* ===== verification/Fs.thy ===== *)
theory Fs
  imports Log_Txn
begin

text \<open>
  The file system proper (\<^verbatim>\<open>src/fs.c\<close>): the block allocator, the inode cache and inode
  operations, file contents, directories and path names. An in-memory inode is named by its
  index in \<open>icache.inode\<close>. A function that copies to a buffer of its caller returns the
  bytes it copies; one that copies from such a buffer takes them.
\<close>

section \<open>State\<close>

definition NINODE :: nat where "NINODE = 50"
definition NDEV :: int where "NDEV = 10"
definition ROOTDEV :: uint where "ROOTDEV = 1"

text \<open>\<open>struct inode\<close>: \<open>i_busy\<close> and \<open>i_valid\<close> are the flags, \<open>i_din\<close> the copy of the disk inode.\<close>

record inode =
  i_dev :: uint
  i_inum :: uint
  i_ref :: int
  i_busy :: bool
  i_valid :: bool
  i_din :: dinode

record fs_state = log_state +
  sb :: superblock
  icache :: "inode list"

definition upd_inode :: "nat \<Rightarrow> (inode \<Rightarrow> inode) \<Rightarrow> 'z fs_state_scheme \<Rightarrow> 'z fs_state_scheme" where
  "upd_inode i f s = s\<lparr>icache := (icache s)[i := f (icache s ! i)]\<rparr>"

abbreviation upd_din :: "nat \<Rightarrow> (dinode \<Rightarrow> dinode) \<Rightarrow> 'z fs_state_scheme \<Rightarrow> 'z fs_state_scheme" where
  "upd_din i f \<equiv> upd_inode i (\<lambda>x. x\<lparr>i_din := f (i_din x)\<rparr>)"

abbreviation kinode :: "nat \<Rightarrow> (inode \<Rightarrow> 'a) \<Rightarrow> ('z fs_state_scheme, 'a) kop" where
  "kinode i f \<equiv> kget (\<lambda>s. f (icache s ! i))"

text \<open>Change the data of a buffer in place.\<close>

definition mod_data :: "nat \<Rightarrow> (block \<Rightarrow> block) \<Rightarrow> ('z disk_state_scheme, unit) kop" where
  "mod_data i f s = set_data i (f (b_data (bufs s ! i))) s"

section \<open>Blocks\<close>

definition bzero :: "uint \<Rightarrow> uint \<Rightarrow> ('z log_state_scheme, unit) kop" where
  "bzero dev bno = kbind (bread dev bno) (\<lambda>bp.
     kseq (mod_data bp (\<lambda>v. replicate BSIZE 0))
     (kseq (log_write bp)
     (brelse bp)))"

text \<open>\<open>m = 1 << (bi % 8)\<close> and the tests and changes of \<open>data[bi/8]\<close> with it.\<close>

definition bit_mask :: "nat \<Rightarrow> byte" where
  "bit_mask bi = push_bit (bi mod 8) 1"

definition bit_used :: "block \<Rightarrow> nat \<Rightarrow> bool" where
  "bit_used v bi \<longleftrightarrow> v ! (bi div 8) AND bit_mask bi \<noteq> 0"

definition set_used :: "nat \<Rightarrow> block \<Rightarrow> block" where
  "set_used bi v = v[bi div 8 := v ! (bi div 8) OR bit_mask bi]"

definition set_free :: "nat \<Rightarrow> block \<Rightarrow> block" where
  "set_free bi v = v[bi div 8 := v ! (bi div 8) AND NOT (bit_mask bi)]"

text \<open>The inner loop of \<open>balloc\<close>: the first clear bit of the group that starts at \<open>b\<close>.\<close>

definition free_bit :: "nat \<Rightarrow> nat \<Rightarrow> block \<Rightarrow> nat option" where
  "free_bit sz b v = find (\<lambda>bi. \<not> bit_used v bi) [0..<min BPB (sz - b)]"

fun balloc_scan :: "uint \<Rightarrow> nat list \<Rightarrow> ('z fs_state_scheme, uint) kop" where
  "balloc_scan dev [] = kpanic ''balloc: out of blocks''"
| "balloc_scan dev (b # bs) =
     kbind (kget sb) (\<lambda>sb.
     kbind (bread dev (BBLOCK (of_nat b) sb)) (\<lambda>bp.
     kbind (kget (\<lambda>s. free_bit (unat (sb_size sb)) b (b_data (bufs s ! bp)))) (\<lambda>r.
     case r of
       Some bi \<Rightarrow>
         kseq (mod_data bp (set_used bi))
         (kseq (log_write bp)
         (kseq (brelse bp)
         (kseq (bzero dev (of_nat (b + bi)))
         (kret (of_nat (b + bi))))))
     | None \<Rightarrow> kseq (brelse bp) (balloc_scan dev bs))))"

definition group_starts :: "uint \<Rightarrow> nat list" where
  "group_starts sz = map (\<lambda>k. BPB * k) [0..<(unat sz + BPB - 1) div BPB]"

definition balloc :: "uint \<Rightarrow> ('z fs_state_scheme, uint) kop" where
  "balloc dev = kbind (kget sb) (\<lambda>sb. balloc_scan dev (group_starts (sb_size sb)))"

definition bfree :: "uint \<Rightarrow> uint \<Rightarrow> ('z fs_state_scheme, unit) kop" where
  "bfree dev b = kbind (readsb dev) (\<lambda>sb'.
     kseq (kmod (\<lambda>s. s\<lparr>sb := sb'\<rparr>))
     (kbind (bread dev (BBLOCK b sb')) (\<lambda>bp.
     let bi = unat b mod BPB in
     kseq (kpanic_if (\<lambda>s. \<not> bit_used (b_data (bufs s ! bp)) bi) ''freeing free block'')
     (kseq (mod_data bp (set_free bi))
     (kseq (log_write bp)
     (brelse bp))))))"

section \<open>Inodes\<close>

text \<open>\<open>iinit\<close>; what it prints is left out.\<close>

definition iinit :: "uint \<Rightarrow> ('z fs_state_scheme, unit) kop" where
  "iinit dev = kbind (readsb dev) (\<lambda>sb'. kmod (\<lambda>s. s\<lparr>sb := sb'\<rparr>))"

text \<open>The cached inode of \<open>inum\<close>, else the first free entry.\<close>

definition iget :: "uint \<Rightarrow> uint \<Rightarrow> ('z fs_state_scheme, nat) kop" where
  "iget dev inum = kseq (lk_acquire LkIcache)
     (kbind (kget (\<lambda>s. find (\<lambda>i. i_ref (icache s ! i) > 0 \<and> i_dev (icache s ! i) = dev \<and>
          i_inum (icache s ! i) = inum) [0..<NINODE])) (\<lambda>hit.
      case hit of
        Some i \<Rightarrow>
          kseq (kmod (upd_inode i (\<lambda>ip. ip\<lparr>i_ref := i_ref ip + 1\<rparr>)))
          (kseq (lk_release LkIcache)
          (kret i))
      | None \<Rightarrow>
          kbind (kget (\<lambda>s. find (\<lambda>i. i_ref (icache s ! i) = 0) [0..<NINODE])) (\<lambda>empty.
          case empty of
            None \<Rightarrow> kpanic ''iget: no inodes''
          | Some i \<Rightarrow>
              kseq (kmod (upd_inode i (\<lambda>ip. ip\<lparr>i_dev := dev, i_inum := inum, i_ref := 1,
                i_busy := False, i_valid := False\<rparr>)))
              (kseq (lk_release LkIcache)
              (kret i)))))"

fun ialloc_scan :: "uint \<Rightarrow> ushort \<Rightarrow> nat list \<Rightarrow> ('z fs_state_scheme, nat) kop" where
  "ialloc_scan dev type [] = kpanic ''ialloc: no inodes''"
| "ialloc_scan dev type (inum # is) =
     kbind (kget sb) (\<lambda>sb.
     kbind (bread dev (IBLOCK (of_nat inum) sb)) (\<lambda>bp.
     kbind (kget (\<lambda>s. di_type (get_dinode (b_data (bufs s ! bp)) (inum mod IPB)))) (\<lambda>t.
     if t = 0
     then kseq (mod_data bp (\<lambda>v. put_dinode v (inum mod IPB) (zero_dinode\<lparr>di_type := type\<rparr>)))
          (kseq (log_write bp)
          (kseq (brelse bp)
          (iget dev (of_nat inum))))
     else kseq (brelse bp) (ialloc_scan dev type is))))"

definition ialloc :: "uint \<Rightarrow> ushort \<Rightarrow> ('z fs_state_scheme, nat) kop" where
  "ialloc dev type = kbind (kget sb) (\<lambda>sb. ialloc_scan dev type [1..<unat (sb_ninodes sb)])"

definition iupdate :: "nat \<Rightarrow> ('z fs_state_scheme, unit) kop" where
  "iupdate i = kbind (kget sb) (\<lambda>sb.
     kbind (kinode i id) (\<lambda>ip.
     kbind (bread (i_dev ip) (IBLOCK (i_inum ip) sb)) (\<lambda>bp.
     kseq (mod_data bp (\<lambda>v. put_dinode v (unat (i_inum ip) mod IPB) (i_din ip)))
     (kseq (log_write bp)
     (brelse bp)))))"

definition idup :: "nat \<Rightarrow> ('z fs_state_scheme, nat) kop" where
  "idup i = kseq (lk_acquire LkIcache)
     (kseq (kmod (upd_inode i (\<lambda>ip. ip\<lparr>i_ref := i_ref ip + 1\<rparr>)))
     (kseq (lk_release LkIcache)
     (kret i)))"

text \<open>\<open>ilock\<close> from the \<open>while\<close> loop on, with the lock held; a process that finds the inode
  busy sleeps, and starts again from there.\<close>

definition ilock_loop :: "nat \<Rightarrow> ('z fs_state_scheme, unit) kop" where
  "ilock_loop i = kbind (kinode i i_busy) (\<lambda>busy.
     if busy then sleep (ChInode i) LkIcache
     else kseq (kmod (upd_inode i (\<lambda>ip. ip\<lparr>i_busy := True\<rparr>)))
       (kseq (lk_release LkIcache)
       (kbind (kinode i id) (\<lambda>ip.
        if i_valid ip then kret ()
        else kbind (kget sb) (\<lambda>sb.
          kbind (bread (i_dev ip) (IBLOCK (i_inum ip) sb)) (\<lambda>bp.
          kbind (kget (\<lambda>s. get_dinode (b_data (bufs s ! bp)) (unat (i_inum ip) mod IPB))) (\<lambda>dip.
          kseq (kmod (upd_din i (\<lambda>_. dip)))
          (kseq (brelse bp)
          (kseq (kmod (upd_inode i (\<lambda>ip. ip\<lparr>i_valid := True\<rparr>)))
          (kpanic_if (\<lambda>s. di_type dip = 0) ''ilock: no type''))))))))))"

definition ilock :: "nat option \<Rightarrow> ('z fs_state_scheme, unit) kop" where
  "ilock ip = (case ip of
     None \<Rightarrow> kpanic ''ilock''
   | Some i \<Rightarrow> kseq (kpanic_if (\<lambda>s. i_ref (icache s ! i) < 1) ''ilock'')
       (kseq (lk_acquire LkIcache) (ilock_loop i)))"

definition ilock_resume :: "nat \<Rightarrow> ('z fs_state_scheme, unit) kop" where
  "ilock_resume i = kseq (sleep_resume LkIcache) (ilock_loop i)"

definition iunlock :: "nat option \<Rightarrow> ('z fs_state_scheme, unit) kop" where
  "iunlock ip = (case ip of
     None \<Rightarrow> kpanic ''iunlock''
   | Some i \<Rightarrow> kseq (kpanic_if (\<lambda>s. \<not> i_busy (icache s ! i) \<or> i_ref (icache s ! i) < 1) ''iunlock'')
       (kseq (lk_acquire LkIcache)
       (kseq (kmod (upd_inode i (\<lambda>ip. ip\<lparr>i_busy := False\<rparr>)))
       (kseq (wakeup (ChInode i))
       (lk_release LkIcache)))))"

section \<open>Inode content\<close>

definition bmap :: "nat \<Rightarrow> nat \<Rightarrow> ('z fs_state_scheme, uint) kop" where
  "bmap i bn = kbind (kinode i id) (\<lambda>ip.
     if bn < NDIRECT
     then if di_addrs (i_din ip) ! bn = 0
          then kbind (balloc (i_dev ip)) (\<lambda>addr.
               kseq (kmod (upd_din i (\<lambda>d. d\<lparr>di_addrs := (di_addrs d)[bn := addr]\<rparr>)))
               (kret addr))
          else kret (di_addrs (i_din ip) ! bn)
     else let bn = bn - NDIRECT in
     if bn < NINDIRECT
     then kbind (if di_addrs (i_din ip) ! NDIRECT = 0
                 then kbind (balloc (i_dev ip)) (\<lambda>addr.
                      kseq (kmod (upd_din i (\<lambda>d. d\<lparr>di_addrs := (di_addrs d)[NDIRECT := addr]\<rparr>)))
                      (kret addr))
                 else kret (di_addrs (i_din ip) ! NDIRECT)) (\<lambda>addr.
          kbind (bread (i_dev ip) addr) (\<lambda>bp.
          kbind (kget (\<lambda>s. rd32 (b_data (bufs s ! bp)) (4 * bn))) (\<lambda>a.
          kbind (if a = 0
                 then kbind (balloc (i_dev ip)) (\<lambda>addr.
                      kseq (mod_data bp (\<lambda>v. wr32 v (4 * bn) addr))
                      (kseq (log_write bp)
                      (kret addr)))
                 else kret a) (\<lambda>addr.
          kseq (brelse bp)
          (kret addr)))))
     else kpanic ''bmap: out of range'')"

definition itrunc :: "nat \<Rightarrow> ('z fs_state_scheme, unit) kop" where
  "itrunc i = kbind (kinode i i_dev) (\<lambda>dev.
     kseq (kfor [0..<NDIRECT] (\<lambda>k.
       kbind (kinode i (\<lambda>ip. di_addrs (i_din ip) ! k)) (\<lambda>a.
       if a \<noteq> 0
       then kseq (bfree dev a)
            (kmod (upd_din i (\<lambda>d. d\<lparr>di_addrs := (di_addrs d)[k := 0]\<rparr>)))
       else kret ())))
     (kbind (kinode i (\<lambda>ip. di_addrs (i_din ip) ! NDIRECT)) (\<lambda>ind.
     kseq (if ind \<noteq> 0
           then kbind (bread dev ind) (\<lambda>bp.
             kseq (kfor [0..<NINDIRECT] (\<lambda>j.
               kbind (kget (\<lambda>s. rd32 (b_data (bufs s ! bp)) (4 * j))) (\<lambda>a.
               if a \<noteq> 0 then bfree dev a else kret ())))
             (kseq (brelse bp)
             (kseq (bfree dev ind)
             (kmod (upd_din i (\<lambda>d. d\<lparr>di_addrs := (di_addrs d)[NDIRECT := 0]\<rparr>))))))
           else kret ())
     (kseq (kmod (upd_din i (\<lambda>d. d\<lparr>di_size := 0\<rparr>)))
     (iupdate i)))))"

definition iput :: "nat \<Rightarrow> ('z fs_state_scheme, unit) kop" where
  "iput i = kseq (lk_acquire LkIcache)
     (kbind (kinode i id) (\<lambda>ip.
      kseq (if i_ref ip = 1 \<and> i_valid ip \<and> di_nlink (i_din ip) = 0
            then kseq (kpanic_if (\<lambda>s. i_busy (icache s ! i)) ''iput busy'')
              (kseq (kmod (upd_inode i (\<lambda>ip. ip\<lparr>i_busy := True\<rparr>)))
              (kseq (lk_release LkIcache)
              (kseq (itrunc i)
              (kseq (kmod (upd_din i (\<lambda>d. d\<lparr>di_type := 0\<rparr>)))
              (kseq (iupdate i)
              (kseq (lk_acquire LkIcache)
              (kseq (kmod (upd_inode i (\<lambda>ip. ip\<lparr>i_busy := False, i_valid := False\<rparr>)))
              (wakeup (ChInode i)))))))))
            else kret ())
      (kseq (kmod (upd_inode i (\<lambda>ip. ip\<lparr>i_ref := i_ref ip - 1\<rparr>)))
      (lk_release LkIcache))))"

definition iunlockput :: "nat \<Rightarrow> ('z fs_state_scheme, unit) kop" where
  "iunlockput i = kseq (iunlock (Some i)) (iput i)"

record fstat =
  st_type :: ushort
  st_dev :: uint
  st_ino :: uint
  st_nlink :: ushort
  st_size :: uint

definition stati :: "nat \<Rightarrow> ('z fs_state_scheme, fstat) kop" where
  "stati i = kinode i (\<lambda>ip. \<lparr>st_type = di_type (i_din ip), st_dev = i_dev ip, st_ino = i_inum ip,
     st_nlink = di_nlink (i_din ip), st_size = di_size (i_din ip)\<rparr>)"

text \<open>
  \<open>devsw\<close>: the read and write functions of the devices, by major number. A read gives its
  result and the bytes it stores, a write takes the bytes it is given.
\<close>

record 's devsw_entry =
  dev_read :: "(nat \<Rightarrow> int \<Rightarrow> ('s, int \<times> byte list) kop) option"
  dev_write :: "(nat \<Rightarrow> byte list \<Rightarrow> ('s, int) kop) option"

type_synonym 's devsw = "nat \<Rightarrow> 's devsw_entry"

definition bad_major :: "ushort \<Rightarrow> bool" where
  "bad_major major \<longleftrightarrow> sint major < 0 \<or> sint major \<ge> NDEV"

lemma chunk_pos: "0 < (n::nat) \<Longrightarrow> 0 < min n (512 - off mod 512)"
  by simp

function readi_loop :: "nat \<Rightarrow> nat \<Rightarrow> nat \<Rightarrow> ('z fs_state_scheme, byte list) kop" where
  "readi_loop i off n =
     (if n = 0 then kret []
      else let m = min n (512 - off mod 512) in
        kbind (kinode i i_dev) (\<lambda>dev.
        kbind (bmap i (off div 512)) (\<lambda>addr.
        kbind (bread dev addr) (\<lambda>bp.
        kbind (kget (\<lambda>s. take m (drop (off mod 512) (b_data (bufs s ! bp))))) (\<lambda>d.
        kseq (brelse bp)
        (kbind (readi_loop i (off + m) (n - m)) (\<lambda>ds. kret (d @ ds))))))))"
  by pat_completeness auto
termination
  by (relation "measure (\<lambda>(i, off, n). n)") (use chunk_pos in force)+

definition readi :: "('z fs_state_scheme) devsw \<Rightarrow> nat \<Rightarrow> uint \<Rightarrow> uint \<Rightarrow>
    ('z fs_state_scheme, int \<times> byte list) kop" where
  "readi devsw i off n = kbind (kinode i i_din) (\<lambda>d.
     if di_type d = T_DEV
     then if bad_major (di_major d) then kret (- 1, [])
          else case dev_read (devsw (unat (di_major d))) of
                 None \<Rightarrow> kret (- 1, [])
               | Some f \<Rightarrow> f i (sint n)
     else if off > di_size d \<or> off + n < off then kret (- 1, [])
     else let n = (if off + n > di_size d then di_size d - off else n) in
          kbind (readi_loop i (unat off) (unat n)) (\<lambda>v. kret (sint n, v)))"

function writei_loop :: "nat \<Rightarrow> nat \<Rightarrow> byte list \<Rightarrow> ('z fs_state_scheme, unit) kop" where
  "writei_loop i off src =
     (if src = [] then kret ()
      else let m = min (length src) (512 - off mod 512) in
        kbind (kinode i i_dev) (\<lambda>dev.
        kbind (bmap i (off div 512)) (\<lambda>addr.
        kbind (bread dev addr) (\<lambda>bp.
        kseq (mod_data bp (\<lambda>v. take (off mod 512) v @ take m src @ drop (off mod 512 + m) v))
        (kseq (log_write bp)
        (kseq (brelse bp)
        (writei_loop i (off + m) (drop m src))))))))"
  by pat_completeness auto
termination
  by (relation "measure (\<lambda>(i, off, src). length src)") (use chunk_pos in force)+

definition writei :: "('z fs_state_scheme) devsw \<Rightarrow> nat \<Rightarrow> byte list \<Rightarrow> uint \<Rightarrow>
    ('z fs_state_scheme, int) kop" where
  "writei devsw i src off = kbind (kinode i i_din) (\<lambda>d.
     let n = (of_nat (length src) :: uint) in
     if di_type d = T_DEV
     then if bad_major (di_major d) then kret (- 1)
          else case dev_write (devsw (unat (di_major d))) of
                 None \<Rightarrow> kret (- 1)
               | Some f \<Rightarrow> f i src
     else if off > di_size d \<or> off + n < off then kret (- 1)
     else if off + n > of_nat (MAXFILE * BSIZE) then kret (- 1)
     else kseq (writei_loop i (unat off) src)
       (kbind (kinode i (\<lambda>ip. di_size (i_din ip))) (\<lambda>sz.
        kseq (if n > 0 \<and> off + n > sz
              then kseq (kmod (upd_din i (\<lambda>d. d\<lparr>di_size := off + n\<rparr>))) (iupdate i)
              else kret ())
        (kret (sint n)))))"

section \<open>Directories\<close>

text \<open>\<open>strncmp\<close> on the bytes of two names; beyond its last byte a name has a NUL.\<close>

fun name_cmp :: "nat \<Rightarrow> byte list \<Rightarrow> byte list \<Rightarrow> int" where
  "name_cmp 0 s t = 0"
| "name_cmp (Suc n) s t =
     (let a = (case s of [] \<Rightarrow> 0 | x # _ \<Rightarrow> x); b = (case t of [] \<Rightarrow> 0 | x # _ \<Rightarrow> x)
      in if a \<noteq> 0 \<and> a = b then name_cmp n (tl s) (tl t) else uint a - uint b)"

definition namecmp :: "byte list \<Rightarrow> byte list \<Rightarrow> int" where
  "namecmp s t = name_cmp DIRSIZ s t"

text \<open>The offsets \<open>0, 16, ...\<close> below the size of a directory.\<close>

definition dir_offs :: "uint \<Rightarrow> nat list" where
  "dir_offs sz = map (\<lambda>k. 16 * k) [0..<(unat sz + 15) div 16]"

fun dirlookup_scan :: "('z fs_state_scheme) devsw \<Rightarrow> nat \<Rightarrow> byte list \<Rightarrow> nat list \<Rightarrow>
    ('z fs_state_scheme, (nat \<times> uint) option) kop" where
  "dirlookup_scan devsw dp name [] = kret None"
| "dirlookup_scan devsw dp name (off # offs) =
     kbind (readi devsw dp (of_nat off) 16) (\<lambda>(r, v).
     if r \<noteq> 16 then kpanic ''dirlink read''
     else let de = get_dirent v in
       if de_inum de = 0 then dirlookup_scan devsw dp name offs
       else if namecmp name (de_name de) = 0
       then kbind (kinode dp i_dev) (\<lambda>dev.
            kbind (iget dev (ucast (de_inum de))) (\<lambda>ip. kret (Some (ip, of_nat off))))
       else dirlookup_scan devsw dp name offs)"

text \<open>\<open>dirlookup\<close> gives the inode and, for the callers that pass \<open>poff\<close>, the entry's offset.\<close>

definition dirlookup :: "('z fs_state_scheme) devsw \<Rightarrow> nat \<Rightarrow> byte list \<Rightarrow>
    ('z fs_state_scheme, (nat \<times> uint) option) kop" where
  "dirlookup devsw dp name = kseq (kpanic_if (\<lambda>s. di_type (i_din (icache s ! dp)) \<noteq> T_DIR) ''dirlookup not DIR'')
     (kbind (kinode dp (\<lambda>ip. di_size (i_din ip))) (\<lambda>sz.
     dirlookup_scan devsw dp name (dir_offs sz)))"

text \<open>The loop of \<open>dirlink\<close>: the first free entry, or the end of the directory.\<close>

fun free_dirent :: "('z fs_state_scheme) devsw \<Rightarrow> nat \<Rightarrow> nat \<Rightarrow> nat list \<Rightarrow> ('z fs_state_scheme, nat) kop" where
  "free_dirent devsw dp end' [] = kret end'"
| "free_dirent devsw dp end' (off # offs) =
     kbind (readi devsw dp (of_nat off) 16) (\<lambda>(r, v).
     if r \<noteq> 16 then kpanic ''dirlink read''
     else if de_inum (get_dirent v) = 0 then kret off
     else free_dirent devsw dp end' offs)"

text \<open>\<open>strncpy\<close> into a field of \<open>DIRSIZ\<close> bytes.\<close>

definition name_field :: "byte list \<Rightarrow> byte list" where
  "name_field name = (let c = takeWhile (\<lambda>b. b \<noteq> 0) (take DIRSIZ name)
     in c @ replicate (DIRSIZ - length c) 0)"

definition dirlink :: "('z fs_state_scheme) devsw \<Rightarrow> nat \<Rightarrow> byte list \<Rightarrow> uint \<Rightarrow>
    ('z fs_state_scheme, int) kop" where
  "dirlink devsw dp name inum = kbind (dirlookup devsw dp name) (\<lambda>r.
     case r of
       Some (ip, _) \<Rightarrow> kseq (iput ip) (kret (- 1))
     | None \<Rightarrow>
         kbind (kinode dp (\<lambda>ip. di_size (i_din ip))) (\<lambda>sz.
         kbind (free_dirent devsw dp (16 * ((unat sz + 15) div 16)) (dir_offs sz)) (\<lambda>off.
         kbind (writei devsw dp (put_dirent \<lparr>de_inum = ucast inum, de_name = name_field name\<rparr>) (of_nat off)) (\<lambda>r.
         if r \<noteq> 16 then kpanic ''dirlink'' else kret 0))))"

section \<open>Paths\<close>

text \<open>\<open>skipelem\<close>: the next element, cut to \<open>DIRSIZ\<close> bytes, and the rest of the path.\<close>

abbreviation slash :: byte where "slash \<equiv> 47"

definition skipelem :: "byte list \<Rightarrow> (byte list \<times> byte list) option" where
  "skipelem path =
     (let path = dropWhile (\<lambda>c. c = slash) path
      in if path = [] then None
         else let s = takeWhile (\<lambda>c. c \<noteq> slash) path; path = dropWhile (\<lambda>c. c \<noteq> slash) path
              in Some (take DIRSIZ s, dropWhile (\<lambda>c. c = slash) path))"

lemma skipelem_shorter: "skipelem path = Some (name, rest) \<Longrightarrow> length rest < length path"
proof -
  assume a: "skipelem path = Some (name, rest)"
  define p where "p = dropWhile (\<lambda>c. c = slash) path"
  have p: "p \<noteq> []" "rest = dropWhile (\<lambda>c. c = slash) (dropWhile (\<lambda>c. c \<noteq> slash) p)"
    using a by (auto simp: skipelem_def p_def Let_def split: if_splits)
  have "hd p \<noteq> slash" using p(1) hd_dropWhile [of "\<lambda>c. c = slash" path] by (simp add: p_def)
  then have "length (dropWhile (\<lambda>c. c \<noteq> slash) p) < length p"
    using p(1) by (cases p) (auto simp: le_imp_less_Suc length_dropWhile_le)
  then have "length rest < length p" unfolding p(2)
    by (rule le_less_trans [OF length_dropWhile_le])
  also have "length p \<le> length path" unfolding p_def by (rule length_dropWhile_le)
  finally show ?thesis .
qed

text \<open>
  The loop of \<open>namex\<close>; \<open>parent\<close> is its argument \<open>nameiparent\<close>, and \<open>name\<close> the buffer in
  which it leaves the last element.
\<close>

function namex_loop :: "('z fs_state_scheme) devsw \<Rightarrow> bool \<Rightarrow> nat \<Rightarrow> byte list \<Rightarrow> byte list \<Rightarrow>
    ('z fs_state_scheme, (nat \<times> byte list) option) kop" where
  "namex_loop devsw parent ip path name =
     (case skipelem path of
        None \<Rightarrow> if parent then kseq (iput ip) (kret None) else kret (Some (ip, name))
      | Some (name, path) \<Rightarrow>
          kseq (ilock (Some ip))
          (kbind (kinode ip (\<lambda>x. di_type (i_din x))) (\<lambda>type.
           if type \<noteq> T_DIR then kseq (iunlockput ip) (kret None)
           else if parent \<and> path = [] then kseq (iunlock (Some ip)) (kret (Some (ip, name)))
           else kbind (dirlookup devsw ip name) (\<lambda>r.
             case r of
               None \<Rightarrow> kseq (iunlockput ip) (kret None)
             | Some (next, _) \<Rightarrow> kseq (iunlockput ip) (namex_loop devsw parent next path name)))))"
  by pat_completeness auto
termination
  by (relation "measure (\<lambda>(_, _, _, path, _). length path)") (auto dest: skipelem_shorter)

definition namex :: "('z fs_state_scheme) devsw \<Rightarrow> byte list \<Rightarrow> bool \<Rightarrow> byte list \<Rightarrow>
    ('z fs_state_scheme, (nat \<times> byte list) option) kop" where
  "namex devsw path parent name =
     kbind (if path \<noteq> [] \<and> hd path = slash then iget ROOTDEV ROOTINO
            else kbind (kget (\<lambda>s. p_cwd (ptable s ! cur s))) (\<lambda>cwd. idup (the cwd)))
       (\<lambda>ip. namex_loop devsw parent ip path name)"

definition namei :: "('z fs_state_scheme) devsw \<Rightarrow> byte list \<Rightarrow> ('z fs_state_scheme, nat option) kop" where
  "namei devsw path = kbind (namex devsw path False []) (\<lambda>r. kret (map_option fst r))"

definition nameiparent :: "('z fs_state_scheme) devsw \<Rightarrow> byte list \<Rightarrow>
    ('z fs_state_scheme, (nat \<times> byte list) option) kop" where
  "nameiparent devsw path = namex devsw path True []"

declare readi_loop.simps [simp del] writei_loop.simps [simp del] namex_loop.simps [simp del]

section \<open>Locking an inode\<close>

lemma iunlock_exec:
  assumes "i_busy (icache s ! i)" and "1 \<le> i_ref (icache s ! i)" and "LkIcache \<notin> held s" and "LkPtable \<notin> held s"
  shows "iunlock (Some i) s = Done ()
    ((upd_inode i (\<lambda>ip. ip\<lparr>i_busy := False\<rparr>) s)\<lparr>ptable := map (wake_proc (ChInode i)) (ptable s)\<rparr>)"
  using assms by (simp add: iunlock_def upd_inode_def)

lemma ilock_exec:
  assumes "\<not> i_busy (icache s ! i)" and "i_valid (icache s ! i)" and "1 \<le> i_ref (icache s ! i)"
    and "LkIcache \<notin> held s" and "i < length (icache s)"
  shows "ilock (Some i) s = Done () (upd_inode i (\<lambda>ip. ip\<lparr>i_busy := True\<rparr>) s)"
  using assms by (simp add: ilock_def ilock_loop_def upd_inode_def kapply)

definition inode_free :: "nat \<Rightarrow> 'z fs_state_scheme \<Rightarrow> bool" where
  "inode_free i s \<longleftrightarrow> i < length (icache s) \<and> \<not> i_busy (icache s ! i) \<and> i_valid (icache s ! i) \<and> 1 \<le> i_ref (icache s ! i)"

text \<open>The inode is locked by the caller, as a device function finds it.\<close>

definition inode_locked :: "nat \<Rightarrow> 'z fs_state_scheme \<Rightarrow> bool" where
  "inode_locked i s \<longleftrightarrow> i < length (icache s) \<and> i_busy (icache s ! i) \<and> i_valid (icache s ! i) \<and> 1 \<le> i_ref (icache s ! i)"

end
