(* ===== verification/Fs_Block.thy ===== *)
theory Fs_Block
  imports Fs
begin

text \<open>
  Blocks from the side of the file system code (\<^verbatim>\<open>src/fs.c\<close>): what reading a block, changing it under
  the log and releasing it does inside a transaction (\<open>fstep\<close>), how much room in the log and how many
  buffers it takes (\<open>room\<close>), and on top of it the block allocator with its bitmap.
\<close>

section \<open>Blocks inside a transaction\<close>

text \<open>The buffers in use.\<close>

definition busy :: "'z disk_state_scheme \<Rightarrow> nat set" where
  "busy s = {i. i < NBUF \<and> b_busy (bufs s ! i)}"

definition idle_blk :: "uint \<Rightarrow> 'z log_state_scheme \<Rightarrow> bool" where
  "idle_blk b s \<longleftrightarrow> (\<forall>i \<in> busy s. blk (bufs s ! i) \<noteq> (log_dev s, b))"

lemma busy_finite [simp]: "finite (busy s)"
  by (simp add: busy_def)

lemma txn_bio:
  assumes "txn s" and "bio_ok t" and "quiet t" and "bio_frame s t" and "pinned t = pinned s"
  shows "txn t"
proof -
  have "home_pins t = home_pins s" using bio_frame_log(3,11) [OF assms(4)] by (simp add: home_pins_def)
  then show ?thesis using assms(1-3,5) bio_frame_log [OF assms(4)] by (simp add: txn_def)
qed

text \<open>With fewer blocks logged and buffers in use than there are buffers, every idle block can be read.\<close>

lemma readable:
  assumes "txn s" and "b < FSSIZE" and "idle_blk b s" and "length (lh_blocks s) + card (busy s) < NBUF"
  shows "can_read (log_dev s) b s"
proof -
  note x = txnD [OF assms(1)]
  define D where "D = {i. i < NBUF \<and> b_dirty (bufs s ! i)}"
  have fD: "finite D" by (simp add: D_def)
  have r: "real_dev (b_dev (bufs s ! i))" if "i \<in> D" for i
    using that bio_ok_D(4) [OF x(1), of i] by (auto simp: D_def buf_ok_def split: if_splits)
  have "inj_on (\<lambda>i. blk (bufs s ! i)) D"
    using r bio_ok_D(5) [OF x(1)] by (intro inj_onI) (simp add: D_def)
  moreover have "(\<lambda>i. blk (bufs s ! i)) ` D \<subseteq> home_pins s"
    using x(6) by (auto simp: D_def pinned_def)
  moreover have "finite (home_pins s)" using card_home_pins(1) [OF x(3,4)] .
  ultimately have "card D \<le> card (home_pins s)" by (rule card_inj_on_le)
  also have "\<dots> \<le> length (lh_blocks s)"
    unfolding home_pins_def by (rule order_trans [OF card_image_le card_length]) simp
  finally have "card (D \<union> busy s) < NBUF" using assms(4) card_Un_le [of D "busy s"] by linarith
  have "\<not> {..<NBUF} \<subseteq> D \<union> busy s"
  proof
    assume "{..<NBUF} \<subseteq> D \<union> busy s"
    then have "card {..<NBUF} \<le> card (D \<union> busy s)" using fD by (intro card_mono) simp_all
    with \<open>card (D \<union> busy s) < NBUF\<close> show False by simp
  qed
  then obtain i where "i < NBUF" "i \<notin> D \<union> busy s" by blast
  then have "\<exists>i<NBUF. \<not> b_busy (bufs s ! i) \<and> \<not> b_dirty (bufs s ! i)" by (auto simp: D_def busy_def)
  moreover have "real_dev (log_dev s)" "log_dev s = 0 \<or> havedisk1 s" using x(3) by (simp_all add: log_geom_def)
  ultimately show ?thesis using assms(2,3) by (auto simp: can_read_def idle_blk_def busy_def)
qed

lemma open_blk:
  assumes "txn s" and "b < FSSIZE" and "idle_blk b s" and "length (lh_blocks s) + card (busy s) < NBUF"
  shows "\<exists>i t. bread (log_dev s) b s = Done i t \<and> txn t \<and> log_frame s t \<and> cview t = cview s \<and>
    owns t i (log_dev s) b (cview s (log_dev s) b) \<and> settled t i \<and> i \<notin> busy s \<and> busy t = insert i (busy s) \<and>
    (\<forall>j \<in> busy s. bufs t ! j = bufs s ! j) \<and> lh_blocks t = lh_blocks s \<and> disk t = disk s"
proof -
  note x = txnD [OF assms(1)]
  obtain i t where t: "bread (log_dev s) b s = Done i t" "bread_post (log_dev s) b s i t"
    using bread_spec [OF x(1,2) readable [OF assms]] by blast
  note p = bread_postD [OF t(2)]
  have "busy t = insert i (busy s)"
  proof (intro set_eqI iffI)
    fix j assume "j \<in> busy t"
    then show "j \<in> insert i (busy s)" using p(13) [of j] by (cases "j = i") (simp_all add: busy_def)
  next
    fix j assume "j \<in> insert i (busy s)"
    then show "j \<in> busy t" using p(4,8) p(13) [of j] by (cases "j = i") (simp_all add: busy_def)
  qed
  moreover have "i \<notin> busy s" using p(5) by (simp add: busy_def)
  moreover have "\<forall>j \<in> busy s. bufs t ! j = bufs s ! j" using p(13) \<open>i \<notin> busy s\<close> by metis
  moreover have "txn t" using txn_bio [OF assms(1) p(1-3) bread_post_pinned [OF x(1) t(2)]] .
  ultimately show ?thesis
    using t(1) log_frame_bio [OF p(3)] p(14) bread_post_owns [OF t(2)] bio_frame_log(4,11) [OF p(3)] p(15)
    by (intro exI conjI)
qed

lemma close_blk:
  assumes "txn s" and "owns s i d b v" and "settled s i"
  shows "\<exists>t. brelse i s = Done () t \<and> txn t \<and> log_frame s t \<and> cview t = cview s \<and> busy t = busy s - {i} \<and>
    (\<forall>j. j \<noteq> i \<longrightarrow> bufs t ! j = bufs s ! j) \<and> lh_blocks t = lh_blocks s \<and> disk t = disk s"
proof -
  note x = txnD [OF assms(1)]
  have i: "i < NBUF" "b_busy (bufs s ! i)" "b_valid (bufs s ! i)" using assms(2) by (simp_all add: owns_def)
  obtain t where t: "brelse i s = Done () t" "bio_ok t" "quiet t" "bio_frame s t"
      "bufs t = (bufs s)[i := (bufs s ! i)\<lparr>b_busy := False\<rparr>]" "cview t = cview s" "disk t = disk s"
    using brelse_spec [OF x(1,2) i] assms(3) unfolding settled_def by blast
  have len: "length (bufs s) = NBUF" using bio_ok_length [OF x(1)] .
  have "pinned t = pinned s"
    by (rule pinned_eqI [of i]) (use t(5) i(1) len in simp_all)
  then have "txn t" using txn_bio [OF assms(1) t(2-4)] by simp
  moreover have "busy t = busy s - {i}"
    using t(5) i len by (auto simp: busy_def nth_list_update split: if_splits)
  ultimately show ?thesis
    using t log_frame_bio [OF t(4)] bio_frame_log(4,11) [OF t(4)] by (intro exI [of _ t]) simp
qed

lemma change_blk:
  assumes "txn s" and "owns s i (log_dev s) b v" and "lh_n s < log_size s - 1" and "b \<notin> log_area s"
  shows "\<exists>t. kseq (mod_data i f) (log_write i) s = Done () t \<and> txn t \<and> log_frame s t \<and>
    cview t = (cview s)(log_dev s := (cview s (log_dev s))(b := f v)) \<and>
    owns t i (log_dev s) b (f v) \<and> settled t i \<and> busy t = busy s \<and>
    (\<forall>j. j \<noteq> i \<longrightarrow> bufs t ! j = bufs s ! j) \<and> set (lh_blocks t) = insert b (set (lh_blocks s)) \<and>
    disk t = disk s"
proof -
  note x = txnD [OF assms(1)]
  have i: "i < NBUF" "b_busy (bufs s ! i)" "b_valid (bufs s ! i)" "blk (bufs s ! i) = (log_dev s, b)" "b_data (bufs s ! i) = v"
    using assms(2) by (simp_all add: owns_def)
  have len: "length (bufs s) = NBUF" using bio_ok_length [OF x(1)] .
  obtain u where u: "set_data i (f v) s = Done () u" "bio_ok u" "quiet u" "bio_frame s u"
      "bufs u = (bufs s)[i := (bufs s ! i)\<lparr>b_data := f v\<rparr>]" "cview u = (cview s)(log_dev s := (cview s (log_dev s))(b := f v))"
      "disk u = disk s"
    using set_data_spec [OF x(1,2) i(1-4), of "f v"] by blast
  have "pinned u = pinned s" by (rule pinned_eqI [of i]) (use u(5) i(1) len in simp_all)
  then have tu: "txn u" using txn_bio [OF assms(1) u(2-4)] by simp
  note fu = bio_frame_log [OF u(4)]
  have ou: "owns u i (log_dev u) b (f v)" using i u(5) len fu(3) by (simp add: owns_def)
  obtain t where t: "log_write i u = Done () t" "txn t" "log_frame u t" "bufs t = (bufs u)[i := (bufs u ! i)\<lparr>b_dirty := True\<rparr>]"
      "cview t = cview u" "lh_blocks t = (if b \<in> set (lh_blocks u) then lh_blocks u else lh_blocks u @ [b])" "disk t = disk u"
    using log_write_spec [OF tu ou] assms(3,4) fu by auto
  have m: "mod_data i f s = Done () u" using u(1) by (simp add: mod_data_def i(5))
  have bt: "bufs t = (bufs s)[i := (bufs s ! i)\<lparr>b_data := f v, b_dirty := True\<rparr>]" using t(4) u(5) i(1) len by simp
  have "owns t i (log_dev s) b (f v)" "settled t i" "busy t = busy s"
    using i bt len by (auto simp: owns_def settled_def busy_def nth_list_update split: if_splits)
  moreover have "set (lh_blocks t) = insert b (set (lh_blocks s))" using t(6) fu(11) by auto
  moreover have "kseq (mod_data i f) (log_write i) s = Done () t" by (simp only: kseq_exec(1) m t(1))
  moreover have "\<forall>j. j \<noteq> i \<longrightarrow> bufs t ! j = bufs s ! j" using bt by simp
  ultimately show ?thesis
    using t(2,5,7) u(6,7) log_frame_trans [OF log_frame_bio [OF u(4)] t(3)] by (intro exI [of _ t]) simp
qed

lemma kseq_assoc: "kseq (kseq a b) c s = kseq a (kseq b c) s"
  by (simp add: kseq_def kbind_def split: outcome.split)

text \<open>
  A piece of file system code inside a transaction: it leaves the buffers in use alone, \<open>V\<close> are the
  contents of the blocks afterwards, and it logs at most the blocks of \<open>A\<close>.
\<close>

definition view :: "'z log_state_scheme \<Rightarrow> uint \<Rightarrow> block" where
  "view s = cview s (log_dev s)"

definition fstep :: "uint set \<Rightarrow> (uint \<Rightarrow> block) \<Rightarrow> 'z log_state_scheme \<Rightarrow> 'z log_state_scheme \<Rightarrow> bool" where
  "fstep A V s t \<longleftrightarrow> txn t \<and> log_frame s t \<and> busy t = busy s \<and> (\<forall>j \<in> busy s. bufs t ! j = bufs s ! j) \<and>
     view t = V \<and> set (lh_blocks t) \<subseteq> set (lh_blocks s) \<union> A \<and> disk t = disk s"

lemma fstepD:
  assumes "fstep A V s t"
  shows "txn t" "log_frame s t" "busy t = busy s" "\<And>j. j \<in> busy s \<Longrightarrow> bufs t ! j = bufs s ! j" "view t = V"
    "set (lh_blocks t) \<subseteq> set (lh_blocks s) \<union> A" "log_dev t = log_dev s" "log_area t = log_area s" "log_size t = log_size s"
    "idle_blk b t = idle_blk b s" "disk t = disk s"
proof -
  show f: "txn t" "log_frame s t" "busy t = busy s" "\<And>j. j \<in> busy s \<Longrightarrow> bufs t ! j = bufs s ! j" "view t = V"
    "set (lh_blocks t) \<subseteq> set (lh_blocks s) \<union> A" "disk t = disk s" using assms by (simp_all add: fstep_def)
  show l: "log_dev t = log_dev s" "log_area t = log_area s" "log_size t = log_size s" using log_frameD [OF f(2)] by simp_all
  show "idle_blk b t = idle_blk b s" using f(3,4) l(1) by (simp add: idle_blk_def)
qed

lemma fstep_refl: "txn s \<Longrightarrow> fstep A (view s) s s"
  by (simp add: fstep_def)

lemma fstep_trans:
  assumes "fstep A V s t" and "fstep B W t u"
  shows "fstep (A \<union> B) W s u"
  using fstepD [OF assms(1)] fstepD [OF assms(2)] log_frame_trans [of s t u]
  unfolding fstep_def by auto

lemma fstep_mono: "fstep A V s t \<Longrightarrow> A \<subseteq> B \<Longrightarrow> fstep B V s t"
  by (auto simp: fstep_def)

text \<open>
  Room in the log, and buffers, for the blocks of \<open>A\<close> and \<open>n\<close> more. A buffer that is held counts
  as one of them.
\<close>

definition room :: "uint set \<Rightarrow> nat \<Rightarrow> 'z log_state_scheme \<Rightarrow> bool" where
  "room A n s \<longleftrightarrow> finite A \<and> int (card (set (lh_blocks s) \<union> A) + n) \<le> log_size s - 2 \<and>
     card (set (lh_blocks s) \<union> A) + n + card (busy s) < NBUF"

lemma room_sub:
  assumes "room B n s" and "A \<subseteq> B" and "m \<le> n"
  shows "room A m s"
proof -
  have "card (set (lh_blocks s) \<union> A) \<le> card (set (lh_blocks s) \<union> B)"
    using assms by (intro card_mono) (auto simp: room_def)
  moreover have "finite A" using assms by (auto simp: room_def intro: finite_subset)
  ultimately show ?thesis using assms(1,3) by (auto simp: room_def)
qed

lemma room_more:
  assumes "room A n s" and "finite F" and "card F + m \<le> n"
  shows "room (A \<union> F) m s"
proof -
  have "card ((set (lh_blocks s) \<union> A) \<union> F) \<le> card (set (lh_blocks s) \<union> A) + card F" by (rule card_Un_le)
  then show ?thesis using assms by (auto simp: room_def Un_assoc)
qed

lemma room_one:
  assumes "room A n s" and "b \<in> A \<or> 0 < n"
  shows "room {b} 0 s"
proof (cases "b \<in> A")
  case True
  then show ?thesis using room_sub [OF assms(1), of "{b}" 0] by simp
next
  case False
  then have "room (A \<union> {b}) 0 s" using assms by (intro room_more [OF assms(1)]) simp_all
  then show ?thesis by (rule room_sub) simp_all
qed

lemma room_step:
  assumes "room A n s" and "fstep B V s t" and "B \<subseteq> A"
  shows "room A n t"
proof -
  note f = fstepD [OF assms(2)]
  have "card (set (lh_blocks t) \<union> A) \<le> card (set (lh_blocks s) \<union> A)"
    using assms(1,3) f(6) by (intro card_mono) (auto simp: room_def)
  then show ?thesis using assms(1) f(3,9) by (auto simp: room_def)
qed

lemma lh_card: "txn s \<Longrightarrow> lh_n s = int (card (set (lh_blocks s))) \<and> length (lh_blocks s) = card (set (lh_blocks s))"
proof -
  assume "txn s"
  then have l: "lh_ok s" by (simp add: txn_def)
  then have "length (lh_blocks s) = nat (lh_n s)" "distinct (lh_blocks s)" "0 \<le> lh_n s"
    by (simp_all add: lh_ok_def lh_blocks_def)
  then show ?thesis by (simp add: distinct_card)
qed

lemma roomD:
  assumes "room A n s" and "txn s"
  shows "lh_n s < log_size s - 1" "length (lh_blocks s) + card (busy s) < NBUF"
proof -
  have "card (set (lh_blocks s)) \<le> card (set (lh_blocks s) \<union> A)"
    using assms(1) by (intro card_mono) (auto simp: room_def)
  then show "lh_n s < log_size s - 1" "length (lh_blocks s) + card (busy s) < NBUF"
    using assms(1) lh_card [OF assms(2)] by (auto simp: room_def)
qed

text \<open>
  A block is read, other blocks may be read and changed while its buffer is held, it may be changed
  itself and logged, and its buffer is released.
\<close>

definition holds :: "uint \<Rightarrow> nat \<Rightarrow> 'z log_state_scheme \<Rightarrow> 'z log_state_scheme \<Rightarrow> bool" where
  "holds b i s u \<longleftrightarrow> txn u \<and> log_frame s u \<and> view u = view s \<and> owns u i (log_dev s) b (view s b) \<and> settled u i \<and>
     i \<notin> busy s \<and> busy u = insert i (busy s) \<and> (\<forall>j \<in> busy s. bufs u ! j = bufs s ! j) \<and> lh_blocks u = lh_blocks s \<and>
     disk u = disk s"

lemma holdsD:
  assumes "holds b i s u"
  shows "txn u" "log_frame s u" "view u = view s" "owns u i (log_dev s) b (view s b)" "settled u i" "i \<notin> busy s"
    "busy u = insert i (busy s)" "\<And>j. j \<in> busy s \<Longrightarrow> bufs u ! j = bufs s ! j" "lh_blocks u = lh_blocks s"
    "b_data (bufs u ! i) = view s b" "log_dev u = log_dev s" "log_area u = log_area s" "log_size u = log_size s" "disk u = disk s"
  using assms log_frameD [of s u] by (auto simp: holds_def owns_def)

lemma hold_blk:
  assumes "txn s" and "b < FSSIZE" and "idle_blk b s" and "room A n s"
  shows "\<exists>i u. bread (log_dev s) b s = Done i u \<and> holds b i s u"
proof -
  from open_blk [OF assms(1-3) roomD(2) [OF assms(4,1)]] obtain i u where u: "bread (log_dev s) b s = Done i u" "txn u" "log_frame s u"
      "cview u = cview s" "owns u i (log_dev s) b (cview s (log_dev s) b)" "settled u i" "i \<notin> busy s"
      "busy u = insert i (busy s)" "\<forall>j \<in> busy s. bufs u ! j = bufs s ! j" "lh_blocks u = lh_blocks s" "disk u = disk s" by blast
  then show ?thesis using log_frameD(3) [OF u(3)] by (auto simp: holds_def view_def)
qed

lemma room_hold: "holds b i s u \<Longrightarrow> room A (Suc n) s \<Longrightarrow> room A n u"
  using holdsD(6,7,9,13) [of b i s u] by (simp add: room_def)

lemma idle_hold:
  assumes "holds b i s u"
  shows "idle_blk c u \<longleftrightarrow> idle_blk c s \<and> c \<noteq> b"
proof -
  note h = holdsD [OF assms]
  have "blk (bufs u ! i) = (log_dev s, b)" using h(4) by (simp add: owns_def)
  then show ?thesis using h(7,8,11) by (auto simp: idle_blk_def)
qed

lemma holds_kept:
  assumes "holds b i s u" and "fstep B W u v"
  shows "owns v i (log_dev v) b (view s b)" "settled v i" "log_dev v = log_dev s"
proof -
  note h = holdsD [OF assms(1)] and f = fstepD [OF assms(2)]
  have "bufs v ! i = bufs u ! i" using f(4) h(7) by simp
  then show "owns v i (log_dev v) b (view s b)" "settled v i" using h(4,5,11,14) f(7,11) by (auto simp: owns_def settled_def)
  show "log_dev v = log_dev s" using h(11) f(7) by simp
qed

lemma drop_blk:
  assumes "holds b i s u" and "fstep B W u v"
  shows "\<exists>t. brelse i v = Done () t \<and> fstep B W s t"
proof -
  note h = holdsD [OF assms(1)] and f = fstepD [OF assms(2)] and k = holds_kept [OF assms]
  from close_blk [OF f(1) k(1,2)] obtain t where t: "brelse i v = Done () t" "txn t" "log_frame v t" "cview t = cview v"
      "busy t = busy v - {i}" "\<forall>j. j \<noteq> i \<longrightarrow> bufs t ! j = bufs v ! j" "lh_blocks t = lh_blocks v" "disk t = disk v" by blast
  have fr: "log_frame s t" by (rule log_frame_trans [OF log_frame_trans [OF h(2) f(2)] t(3)])
  have "view t = W" using t(4) f(5) log_frameD(3) [OF t(3)] by (simp add: view_def)
  moreover have "busy t = busy s" using t(5) f(3) h(6,7) by simp
  moreover have "\<forall>j \<in> busy s. bufs t ! j = bufs s ! j"
    using t(6) f(4) h(6,7,8) by (metis insertI2)
  ultimately show ?thesis using t(1,2,7,8) fr f(6,11) h(9,14) by (auto simp: fstep_def)
qed

lemma put_blk:
  assumes "holds b i s u" and "fstep B W u v" and "lh_n v < log_size v - 1" and "b \<notin> log_area s"
  shows "\<exists>w t. kseq (mod_data i f) (log_write i) v = Done () w \<and> brelse i w = Done () t \<and>
    fstep (insert b B) (W(b := f (view s b))) s t"
proof -
  note h = holdsD [OF assms(1)] and g = fstepD [OF assms(2)] and k = holds_kept [OF assms(1,2)]
  have l: "lh_n v < log_size v - 1" "b \<notin> log_area v" using assms(3,4) g(8) h(12) by simp_all
  from change_blk [OF g(1) k(1) l] obtain w where w: "kseq (mod_data i f) (log_write i) v = Done () w" "txn w" "log_frame v w"
      "cview w = (cview v)(log_dev v := (cview v (log_dev v))(b := f (view s b)))"
      "owns w i (log_dev v) b (f (view s b))" "settled w i" "busy w = busy v"
      "\<forall>j. j \<noteq> i \<longrightarrow> bufs w ! j = bufs v ! j" "set (lh_blocks w) = insert b (set (lh_blocks v))" "disk w = disk v" by blast
  from close_blk [OF w(2,5,6)] obtain t where t: "brelse i w = Done () t" "txn t" "log_frame w t" "cview t = cview w"
      "busy t = busy w - {i}" "\<forall>j. j \<noteq> i \<longrightarrow> bufs t ! j = bufs w ! j" "lh_blocks t = lh_blocks w" "disk t = disk w" by blast
  have vt: "log_frame v t" by (rule log_frame_trans [OF w(3) t(3)])
  have fr: "log_frame s t" by (rule log_frame_trans [OF log_frame_trans [OF h(2) g(2)] vt])
  have "view t = W(b := f (view s b))"
    using t(4) w(4) g(5) log_frameD(3) [OF vt] by (simp add: view_def fun_eq_iff)
  moreover have "busy t = busy s" using t(5) w(7) g(3) h(6,7) by simp
  moreover have "\<forall>j \<in> busy s. bufs t ! j = bufs s ! j"
    using t(6) w(8) g(4) h(6,7,8) by (metis insertI2)
  ultimately have "fstep (insert b B) (W(b := f (view s b))) s t"
    using t(2,7,8) w(9,10) fr g(6,11) h(9,14) by (auto simp: fstep_def)
  with w(1) t(1) show ?thesis by blast
qed

lemma read_blk:
  assumes "txn s" and "b < FSSIZE" and "idle_blk b s" and "room A n s"
  shows "\<exists>i u t. bread (log_dev s) b s = Done i u \<and> b_data (bufs u ! i) = view s b \<and> brelse i u = Done () t \<and>
    fstep {} (view s) s t"
proof -
  from hold_blk [OF assms] obtain i u where u: "bread (log_dev s) b s = Done i u" "holds b i s u" by blast
  with drop_blk [OF u(2) fstep_refl [OF holdsD(1) [OF u(2)], of "{}"]] holdsD(3,10) [OF u(2)] show ?thesis by auto
qed

lemma edit_blk:
  assumes "txn s" and "b < FSSIZE" and "idle_blk b s" and "room {b} 0 s" and "b \<notin> log_area s"
  shows "\<exists>i u. bread (log_dev s) b s = Done i u \<and> b_data (bufs u ! i) = view s b \<and>
    (\<forall>f. \<exists>w t. kseq (mod_data i f) (log_write i) u = Done () w \<and> brelse i w = Done () t \<and>
       fstep {b} ((view s)(b := f (view s b))) s t)"
proof -
  from hold_blk [OF assms(1-4)] obtain i u where u: "bread (log_dev s) b s = Done i u" "holds b i s u" by blast
  note h = holdsD [OF u(2)]
  have l: "lh_n u < log_size u - 1" using roomD(1) [OF assms(4,1)] lh_card [OF assms(1)] lh_card [OF h(1)] h(9,13) by simp
  from put_blk [OF u(2) fstep_refl [OF h(1), of "{}"] l assms(5)] h(3) u(1) h(10) show ?thesis by auto
qed

section \<open>Allocating blocks\<close>

abbreviation bmap_blk :: "'z fs_state_scheme \<Rightarrow> uint" where
  "bmap_blk s \<equiv> sb_bmapstart (sb s)"

lemma bzero_spec:
  assumes "txn s" and "b < FSSIZE" and "idle_blk b s" and "room {b} 0 s" and "b \<notin> log_area s"
  shows "\<exists>t. bzero (log_dev s) b s = Done () t \<and> fstep {b} ((view s)(b := replicate BSIZE 0)) s t"
proof -
  from edit_blk [OF assms] obtain i u where u: "bread (log_dev s) b s = Done i u"
    "\<forall>f. \<exists>w t. kseq (mod_data i f) (log_write i) u = Done () w \<and> brelse i w = Done () t \<and>
       fstep {b} ((view s)(b := f (view s b))) s t" by blast
  from u(2) obtain w t where t: "kseq (mod_data i (\<lambda>v. replicate BSIZE 0)) (log_write i) u = Done () w" "brelse i w = Done () t"
       "fstep {b} ((view s)(b := replicate BSIZE 0)) s t" by blast
  have "kseq (mod_data i (\<lambda>v. replicate BSIZE 0)) (kseq (log_write i) (brelse i)) u = Done () t"
    unfolding kseq_assoc [symmetric] by (simp only: kseq_exec(1) t(1,2))
  then have "bzero (log_dev s) b s = Done () t" by (simp only: bzero_def kbind_exec(1) u(1))
  with t(3) show ?thesis by blast
qed

subsection \<open>The bitmap\<close>

lemma bit_used_bit: "bit_used v k \<longleftrightarrow> bit (v ! (k div 8)) (k mod 8)"
  by (simp add: bit_used_def bit_mask_def push_bit_of_1 and_exp_eq_0_iff_not_bit)

lemma bit_mask_bit: "bit (bit_mask j) n \<longleftrightarrow> n = j mod 8"
proof -
  have "j mod 8 < 8" by simp
  then show ?thesis by (auto simp: bit_mask_def push_bit_of_1 bit_exp_iff)
qed

lemma mod_div_eq: "(j div 8 = k div 8 \<and> j mod 8 = k mod 8) \<longleftrightarrow> j = (k::nat)"
  by (metis div_mult_mod_eq)

lemma bit_used_set:
  assumes "j div 8 < length v"
  shows "bit_used (set_used j v) k \<longleftrightarrow> k = j \<or> bit_used v k"
    "bit_used (set_free j v) k \<longleftrightarrow> k \<noteq> j \<and> bit_used v k"
proof -
  have k: "k mod 8 < 8" by simp
  show "bit_used (set_used j v) k \<longleftrightarrow> k = j \<or> bit_used v k"
    using assms mod_div_eq [of k j] by (auto simp: bit_used_bit set_used_def nth_list_update bit_or_iff bit_mask_bit)
  show "bit_used (set_free j v) k \<longleftrightarrow> k \<noteq> j \<and> bit_used v k"
    using assms mod_div_eq [of k j] k by (auto simp: bit_used_bit set_free_def nth_list_update bit_and_iff bit_not_iff bit_mask_bit)
qed

lemma length_set_used [simp]: "length (set_used j v) = length v" "length (set_free j v) = length v"
  by (simp_all add: set_used_def set_free_def)

text \<open>
  A file system whose bitmap fits into one block (\<open>FSSIZE\<close> is 1000): the bitmap block is outside
  the log, and the blocks marked free are neither the bitmap nor in the log nor block 0.
\<close>

definition is_free :: "(uint \<Rightarrow> block) \<Rightarrow> superblock \<Rightarrow> uint \<Rightarrow> bool" where
  "is_free V p b \<longleftrightarrow> b < sb_size p \<and> \<not> bit_used (V (sb_bmapstart p)) (unat b)"

definition bmap_ok :: "(uint \<Rightarrow> block) \<Rightarrow> 'z fs_state_scheme \<Rightarrow> bool" where
  "bmap_ok V s \<longleftrightarrow> 0 < sb_size (sb s) \<and> sb_size (sb s) \<le> FSSIZE \<and> bmap_blk s < FSSIZE \<and> bmap_blk s \<notin> log_area s \<and>
     (\<forall>b. length (V b) = BSIZE) \<and>
     (\<forall>b. is_free V (sb s) b \<longrightarrow> b \<notin> log_area s \<and> b \<noteq> bmap_blk s \<and> b \<noteq> 0)"

lemma bmap_okD:
  assumes "bmap_ok V s"
  shows "0 < sb_size (sb s)" "sb_size (sb s) \<le> FSSIZE" "bmap_blk s < FSSIZE" "bmap_blk s \<notin> log_area s" "length (V b) = BSIZE"
    "is_free V (sb s) b \<Longrightarrow> b \<notin> log_area s" "is_free V (sb s) b \<Longrightarrow> b \<noteq> bmap_blk s" "is_free V (sb s) b \<Longrightarrow> b \<noteq> 0"
    "is_free V (sb s) b \<Longrightarrow> b < FSSIZE"
  using assms by (auto simp: bmap_ok_def is_free_def)

text \<open>The contents after block \<open>b\<close> has been taken.\<close>

definition taken :: "superblock \<Rightarrow> uint \<Rightarrow> (uint \<Rightarrow> block) \<Rightarrow> uint \<Rightarrow> block" where
  "taken p b V = V(sb_bmapstart p := set_used (unat b) (V (sb_bmapstart p)), b := replicate BSIZE 0)"

lemma FSSIZE_bit: "b < FSSIZE \<Longrightarrow> unat b div 8 < BSIZE"
  by (simp add: FSSIZE_def word_less_nat_alt BSIZE_def)

lemma taken_free:
  assumes "bmap_ok V s" and "is_free V (sb s) b"
  shows "is_free (taken (sb s) b V) (sb s) c \<longleftrightarrow> c \<noteq> b \<and> is_free V (sb s) c"
  using bmap_okD(7) [OF assms] FSSIZE_bit [OF bmap_okD(9) [OF assms]] bmap_okD(5) [OF assms(1)]
  by (auto simp: is_free_def taken_def bit_used_set dest: unsigned_word_eqI)

lemma taken_ok:
  assumes "bmap_ok V s" and "is_free V (sb s) b"
  shows "bmap_ok (taken (sb s) b V) s"
proof -
  have "length (taken (sb s) b V c) = BSIZE" for c using bmap_okD(5) [OF assms(1)] by (simp add: taken_def)
  moreover have "c \<notin> log_area s \<and> c \<noteq> bmap_blk s \<and> c \<noteq> 0" if "is_free (taken (sb s) b V) (sb s) c" for c
    using that bmap_okD(6-8) [OF assms(1), of c] by (auto simp: taken_free [OF assms])
  ultimately show ?thesis using assms(1) by (auto simp: bmap_ok_def)
qed

lemma group_starts_one:
  assumes "0 < sz" and "sz \<le> FSSIZE"
  shows "group_starts sz = [0]"
proof -
  have "0 < unat sz" "unat sz \<le> 1000" using assms by (simp_all add: word_le_nat_alt FSSIZE_def unat_gt_0 word_less_nat_alt)
  then have "(unat sz + BPB - 1) div BPB = 1" unfolding BPB_def BSIZE_def by (intro div_nat_eqI) simp_all
  then show ?thesis by (simp add: group_starts_def)
qed

lemma free_bit_Some:
  assumes "b < sz" and "sz \<le> FSSIZE" and "\<not> bit_used v (unat b)"
  shows "\<exists>bi. free_bit (unat sz) 0 v = Some bi \<and> of_nat bi < sz \<and> unat (of_nat bi :: uint) = bi \<and> \<not> bit_used v bi"
proof -
  have m: "min BPB (unat sz - 0) = unat sz" using assms(2) by (simp add: BPB_def word_le_nat_alt FSSIZE_def)
  have "unat b \<in> set [0..<unat sz]" using assms(1) by (simp add: word_less_nat_alt)
  from find_ex [OF this, of "\<lambda>bi. \<not> bit_used v bi"] assms(3) obtain bi where bi: "find (\<lambda>bi. \<not> bit_used v bi) [0..<unat sz] = Some bi"
    by blast
  from find_SomeD [OF bi] have "bi < unat sz" "\<not> bit_used v bi" by simp_all
  moreover have "unat sz < 2 ^ LENGTH(32)" by (rule unsigned_less)
  then have "unat (of_nat bi :: uint) = bi" using \<open>bi < unat sz\<close> by (simp add: unat_of_nat)
  ultimately show ?thesis using bi m by (simp add: free_bit_def word_less_nat_alt)
qed

lemma balloc_spec:
  assumes "txn s" and "bmap_ok (view s) s" and "idle_blk (bmap_blk s) s" and "is_free (view s) (sb s) a"
    and "\<And>b. is_free (view s) (sb s) b \<Longrightarrow> idle_blk b s" and "room A n s" and "bmap_blk s \<in> A" and "0 < n"
  shows "\<exists>b t. balloc (log_dev s) s = Done b t \<and> is_free (view s) (sb s) b \<and>
    fstep {bmap_blk s, b} (taken (sb s) b (view s)) s t"
proof -
  let ?bm = "bmap_blk s" and ?sz = "sb_size (sb s)"
  note g = bmap_okD [OF assms(2)]
  obtain bi where bi: "free_bit (unat ?sz) 0 (view s ?bm) = Some bi" "of_nat bi < ?sz" "unat (of_nat bi :: uint) = bi"
      "\<not> bit_used (view s ?bm) bi"
    using free_bit_Some [OF _ g(2), of a "view s ?bm"] assms(4) by (auto simp: is_free_def)
  define b :: uint where "b = of_nat bi"
  have b: "is_free (view s) (sb s) b" "unat b = bi" using bi by (simp_all add: b_def is_free_def)
  have bb: "BBLOCK (of_nat 0) (sb s) = ?bm" by (simp add: BBLOCK_def)
  from edit_blk [OF assms(1) g(3) assms(3) room_one [OF assms(6)] g(4)] assms(7)
  obtain i u where u: "bread (log_dev s) ?bm s = Done i u" "b_data (bufs u ! i) = view s ?bm"
    "\<forall>f. \<exists>w t. kseq (mod_data i f) (log_write i) u = Done () w \<and> brelse i w = Done () t \<and>
       fstep {?bm} ((view s)(?bm := f (view s ?bm))) s t" by blast
  from u(3) obtain w t where t: "kseq (mod_data i (set_used bi)) (log_write i) u = Done () w" "brelse i w = Done () t"
       "fstep {?bm} ((view s)(?bm := set_used bi (view s ?bm))) s t" by blast
  note ft = fstepD [OF t(3)]
  have "room A n t" using room_step [OF assms(6) t(3)] assms(7) by simp
  then have "room {b} 0 t" by (rule room_one) (simp add: assms(8))
  moreover have "idle_blk b t" "b \<notin> log_area t" using assms(5) g(6) b(1) ft(8,10) by simp_all
  ultimately obtain v where v: "bzero (log_dev t) b t = Done () v" "fstep {b} ((view t)(b := replicate BSIZE 0)) t v"
    using bzero_spec [OF ft(1) g(9) [OF b(1)]] by blast
  have c: "kseq (mod_data i (set_used bi)) (kseq (log_write i) (kseq (brelse i) m)) u = m t" for m :: "('a fs_state_scheme, uint) kop"
    unfolding kseq_assoc [of "mod_data i (set_used bi)", symmetric] by (simp only: kseq_exec(1) t(1,2))
  have "balloc (log_dev s) s = balloc_scan (log_dev s) [0] s"
    by (simp only: balloc_def kbind_kget group_starts_one [OF g(1,2)])
  also have "\<dots> = kseq (bzero (log_dev s) (of_nat (0 + bi))) (kret (of_nat (0 + bi))) t"
    unfolding balloc_scan.simps kbind_kget bb kbind_exec(1) [of "bread (log_dev s) ?bm", OF u(1)] u(2) bi(1) option.case c ..
  also have "\<dots> = Done b v" using v(1) ft(7) by (simp add: b_def)
  finally have ex: "balloc (log_dev s) s = Done b v" .
  have "fstep {?bm, b} (taken (sb s) b (view s)) s v"
    using fstep_mono [OF fstep_trans [OF t(3) v(2)], of "{?bm, b}"] ft(5) b(2) by (simp add: taken_def)
  with ex b(1) show ?thesis by blast
qed

end
