(* ===== verification/Fs_Content.thy ===== *)
theory Fs_Content
  imports Fs_Block
begin

text \<open>
  The contents of files (\<open>bmap\<close>, \<open>readi\<close>, \<open>writei\<close> and \<open>iupdate\<close> of \<^verbatim>\<open>src/fs.c\<close>). A file is abstracted to
  the list of its bytes; reading and writing an inode, through block addresses, the indirect block,
  the block allocator, the log and the cache, are proved to be reading and overwriting that list.
\<close>

section \<open>Steps of code that works on one inode\<close>

lemma fstep_fs:
  assumes "fstep A V s t"
  shows "sb t = sb s" "icache t = icache s"
  using fstepD(2) [OF assms] by (auto simp: log_frame_def)

lemma icache_upd [simp]:
  "log_area (s\<lparr>icache := x\<rparr>) = log_area s" "lh_blocks (s\<lparr>icache := x\<rparr>) = lh_blocks s"
  "busy (s\<lparr>icache := x\<rparr>) = busy s" "view (s\<lparr>icache := x\<rparr>) = view s"
  by (simp_all add: log_area_def lh_blocks_def busy_def view_def fun_eq_iff cview_def split: option.split)

lemma icache_upd_inv [simp]:
  "txn (s\<lparr>icache := x\<rparr>) = txn s" "room A n (s\<lparr>icache := x\<rparr>) = room A n s" "idle_blk b (s\<lparr>icache := x\<rparr>) = idle_blk b s"
  "bmap_ok V (s\<lparr>icache := x\<rparr>) = bmap_ok V s"
  by (simp_all add: txn_def bio_ok_def quiet_def log_geom_def lh_ok_def pinned_def home_pins_def room_def idle_blk_def bmap_ok_def)

lemma fstep_icache:
  assumes "fstep A V s t"
  shows "fstep A V (s\<lparr>icache := x\<rparr>) (t\<lparr>icache := x\<rparr>)"
proof -
  obtain ps bs ls dk ws n ns where t: "woken (ptable s) ps"
    "t = s\<lparr>ptable := ps, bufs := bs, lru := ls, disk := dk, dwrites := ws, lh_n := n, lh_block := ns\<rparr>"
    using fstepD(2) [OF assms] by (auto simp: log_frame_def)
  have "log_frame (s\<lparr>icache := x\<rparr>) (t\<lparr>icache := x\<rparr>)"
    unfolding log_frame_def using t
    by (intro exI [of _ ps] exI [of _ bs] exI [of _ ls] exI [of _ dk] exI [of _ ws] exI [of _ n] exI [of _ ns]) simp
  then show ?thesis using assms by (simp add: fstep_def)
qed

text \<open>\<open>istep i A V d s t\<close>: a step that also leaves the inode \<open>i\<close> with the contents \<open>d\<close>.\<close>

definition istep :: "nat \<Rightarrow> uint set \<Rightarrow> (uint \<Rightarrow> block) \<Rightarrow> dinode \<Rightarrow> 'z fs_state_scheme \<Rightarrow> 'z fs_state_scheme \<Rightarrow> bool" where
  "istep i A V d s t \<longleftrightarrow> (\<exists>u. fstep A V s u \<and> t = upd_din i (\<lambda>_. d) u)"

lemma istepD:
  assumes "istep i A V d s t"
  shows "txn t" "view t = V" "sb t = sb s" "log_dev t = log_dev s" "log_area t = log_area s" "busy t = busy s"
    "icache t = (icache s)[i := (icache s ! i)\<lparr>i_din := d\<rparr>]" "idle_blk b t = idle_blk b s" "disk t = disk s"
    "room B n s \<Longrightarrow> A \<subseteq> B \<Longrightarrow> room B n t" "bmap_ok W t = bmap_ok W s"
proof -
  obtain u where u: "fstep A V s u" "t = u\<lparr>icache := (icache u)[i := (icache u ! i)\<lparr>i_din := d\<rparr>]\<rparr>"
    using assms by (auto simp: istep_def upd_inode_def)
  note f = fstepD [OF u(1)] and g = fstep_fs [OF u(1)]
  show "txn t" "view t = V" "sb t = sb s" "log_dev t = log_dev s" "log_area t = log_area s" "busy t = busy s"
    "icache t = (icache s)[i := (icache s ! i)\<lparr>i_din := d\<rparr>]" "idle_blk b t = idle_blk b s" "disk t = disk s"
    "bmap_ok W t = bmap_ok W s"
    using f g by (simp_all add: u(2) bmap_ok_def)
  show "room B n s \<Longrightarrow> A \<subseteq> B \<Longrightarrow> room B n t" using room_step [OF _ u(1)] by (simp add: u(2))
qed

lemma istep_trans:
  assumes "istep i A V d s t" and "istep i B W e t v"
  shows "istep i (A \<union> B) W e s v"
proof -
  obtain u where u: "fstep A V s u" "t = u\<lparr>icache := (icache u)[i := (icache u ! i)\<lparr>i_din := d\<rparr>]\<rparr>"
    using assms(1) by (auto simp: istep_def upd_inode_def)
  obtain w where w: "fstep B W t w" "v = w\<lparr>icache := (icache w)[i := (icache w ! i)\<lparr>i_din := e\<rparr>]\<rparr>"
    using assms(2) by (auto simp: istep_def upd_inode_def)
  have "fstep B W u (w\<lparr>icache := icache u\<rparr>)"
    using fstep_icache [OF w(1), of "icache u"] by (simp add: u(2))
  moreover have "v = upd_din i (\<lambda>_. e) (w\<lparr>icache := icache u\<rparr>)"
    using fstep_fs(2) [OF w(1)] by (cases "i < length (icache u)") (simp_all add: w(2) u(2) upd_inode_def list_update_beyond)
  ultimately show ?thesis using fstep_trans [OF u(1)] unfolding istep_def by blast
qed

lemma istep_fstep: "fstep A V s t \<Longrightarrow> istep i A V (i_din (icache s ! i)) s t"
proof -
  assume f: "fstep A V s t"
  have "t = upd_din i (\<lambda>_. i_din (icache s ! i)) t" using fstep_fs(2) [OF f] by (simp add: upd_inode_def)
  with f show ?thesis unfolding istep_def by blast
qed

lemma istep_mono: "istep i A V d s t \<Longrightarrow> A \<subseteq> B \<Longrightarrow> istep i B V d s t"
  unfolding istep_def using fstep_mono by blast

lemma istep_set: "txn s \<Longrightarrow> istep i {} (view s) d s (upd_din i (\<lambda>_. d) s)"
  unfolding istep_def using fstep_refl by blast

section \<open>The blocks of a file\<close>

text \<open>The address of block \<open>bn\<close> of a file, zero if it has none.\<close>

definition ind_of :: "dinode \<Rightarrow> uint" where
  "ind_of d = di_addrs d ! NDIRECT"

definition addr_of :: "(uint \<Rightarrow> block) \<Rightarrow> dinode \<Rightarrow> nat \<Rightarrow> uint" where
  "addr_of V d bn = (if bn < NDIRECT then di_addrs d ! bn
     else if ind_of d = 0 then 0 else rd32 (V (ind_of d)) (4 * (bn - NDIRECT)))"

definition file_blocks :: "(uint \<Rightarrow> block) \<Rightarrow> dinode \<Rightarrow> uint set" where
  "file_blocks V d = {a. a \<noteq> 0 \<and> (a = ind_of d \<or> (\<exists>bn < MAXFILE. a = addr_of V d bn))}"

text \<open>
  A well-formed file: its blocks are used blocks outside the log and the bitmap, and no block is
  used twice.
\<close>

definition file_wf :: "(uint \<Rightarrow> block) \<Rightarrow> dinode \<Rightarrow> 'z fs_state_scheme \<Rightarrow> bool" where
  "file_wf V d s \<longleftrightarrow> length (di_addrs d) = Suc NDIRECT \<and>
     (\<forall>a \<in> file_blocks V d. a < FSSIZE \<and> a \<notin> log_area s \<and> a \<noteq> bmap_blk s \<and> \<not> is_free V (sb s) a) \<and>
     (\<forall>bn < MAXFILE. addr_of V d bn \<noteq> 0 \<longrightarrow> addr_of V d bn \<noteq> ind_of d) \<and>
     (\<forall>bn < MAXFILE. \<forall>bn' < MAXFILE. addr_of V d bn \<noteq> 0 \<longrightarrow> addr_of V d bn = addr_of V d bn' \<longrightarrow> bn = bn')"

lemma file_wfD:
  assumes "file_wf V d s"
  shows "length (di_addrs d) = Suc NDIRECT"
    "a \<in> file_blocks V d \<Longrightarrow> a < FSSIZE" "a \<in> file_blocks V d \<Longrightarrow> a \<notin> log_area s" "a \<in> file_blocks V d \<Longrightarrow> a \<noteq> bmap_blk s"
    "a \<in> file_blocks V d \<Longrightarrow> \<not> is_free V (sb s) a"
    "bn < MAXFILE \<Longrightarrow> addr_of V d bn \<noteq> 0 \<Longrightarrow> addr_of V d bn \<noteq> ind_of d"
    "bn < MAXFILE \<Longrightarrow> bn' < MAXFILE \<Longrightarrow> addr_of V d bn \<noteq> 0 \<Longrightarrow> addr_of V d bn = addr_of V d bn' \<Longrightarrow> bn = bn'"
  using assms by (simp_all add: file_wf_def)

lemma file_blocksI:
  "ind_of d \<noteq> 0 \<Longrightarrow> ind_of d \<in> file_blocks V d"
  "bn < MAXFILE \<Longrightarrow> addr_of V d bn \<noteq> 0 \<Longrightarrow> addr_of V d bn \<in> file_blocks V d"
  by (auto simp: file_blocks_def)

lemma file_wf_cong: "sb s = sb t \<Longrightarrow> log_area s = log_area t \<Longrightarrow> file_wf V d s = file_wf V d t"
  by (simp add: file_wf_def)

text \<open>
  Code that works on a file may give it free blocks and changes no other block but the bitmap.
\<close>

definition extends :: "'z fs_state_scheme \<Rightarrow> (uint \<Rightarrow> block) \<Rightarrow> dinode \<Rightarrow> (uint \<Rightarrow> block) \<Rightarrow> dinode \<Rightarrow> bool" where
  "extends s V d W e \<longleftrightarrow> file_wf W e s \<and> bmap_ok W s \<and> e = d\<lparr>di_addrs := di_addrs e\<rparr> \<and>
     (\<forall>b. is_free W (sb s) b \<longrightarrow> is_free V (sb s) b) \<and>
     (\<forall>a \<in> file_blocks W e. a \<in> file_blocks V d \<or> is_free V (sb s) a) \<and>
     (\<forall>b. \<not> is_free V (sb s) b \<and> b \<notin> file_blocks V d \<and> b \<noteq> bmap_blk s \<longrightarrow> W b = V b) \<and>
     (\<forall>bn < MAXFILE. addr_of V d bn \<noteq> 0 \<longrightarrow> addr_of W e bn = addr_of V d bn)"

lemma extendsD:
  assumes "extends s V d W e"
  shows "file_wf W e s" "bmap_ok W s" "e = d\<lparr>di_addrs := di_addrs e\<rparr>" "is_free W (sb s) b \<Longrightarrow> is_free V (sb s) b"
    "a \<in> file_blocks W e \<Longrightarrow> a \<in> file_blocks V d \<or> is_free V (sb s) a"
    "\<not> is_free V (sb s) b \<Longrightarrow> b \<notin> file_blocks V d \<Longrightarrow> b \<noteq> bmap_blk s \<Longrightarrow> W b = V b"
    "bn < MAXFILE \<Longrightarrow> addr_of V d bn \<noteq> 0 \<Longrightarrow> addr_of W e bn = addr_of V d bn"
  using assms by (simp_all add: extends_def)

lemma extends_refl: "file_wf V d s \<Longrightarrow> bmap_ok V s \<Longrightarrow> extends s V d V d"
  by (simp add: extends_def)

lemma extends_trans:
  assumes "extends s V d W e" and "extends s W e X f"
  shows "extends s V d X f"
proof -
  note a = extendsD [OF assms(1)] and b = extendsD [OF assms(2)]
  have "f = d\<lparr>di_addrs := di_addrs f\<rparr>" using a(3) b(3) by (metis dinode.surjective dinode.update_convs(6))
  moreover have "X c = V c" if "\<not> is_free V (sb s) c" "c \<notin> file_blocks V d" "c \<noteq> bmap_blk s" for c
    using that a(4-6) b(6) by metis
  moreover have "addr_of X f bn = addr_of V d bn" if "bn < MAXFILE" "addr_of V d bn \<noteq> 0" for bn
    using that a(7) b(7) by simp
  ultimately show ?thesis using b(1,2) a(4,5) b(4,5) unfolding extends_def by blast
qed

text \<open>
  A free block \<open>b\<close> becomes a block of the file: its block number \<open>bn\<close> (\<open>D\<close>), or its indirect block.
\<close>

lemma taken_same: "bmap_ok V s \<Longrightarrow> is_free V (sb s) b \<Longrightarrow> \<not> is_free V (sb s) c \<Longrightarrow> c \<noteq> bmap_blk s \<Longrightarrow> taken (sb s) b V c = V c"
  by (auto simp: taken_def)

lemma extends_grow:
  assumes "file_wf V d s" and "bmap_ok V s" and "bmap_ok W s" and "is_free V (sb s) b"
    and free: "\<And>c. is_free W (sb s) c \<longleftrightarrow> c \<noteq> b \<and> is_free V (sb s) c"
    and same: "\<And>c. \<not> is_free V (sb s) c \<Longrightarrow> c \<noteq> bmap_blk s \<Longrightarrow> c \<noteq> ind_of d \<or> c = 0 \<Longrightarrow> W c = V c"
    and e: "e = d\<lparr>di_addrs := di_addrs e\<rparr>" "length (di_addrs e) = Suc NDIRECT"
    and ind: "ind_of e = (if D then ind_of d else b)" and addr: "\<And>k. k < MAXFILE \<Longrightarrow> addr_of W e k = (if D \<and> k = bn then b else addr_of V d k)"
    and new: "D \<Longrightarrow> addr_of V d bn = 0" "\<not> D \<Longrightarrow> ind_of d = 0"
  shows "extends s V d W e"
proof -
  note w = file_wfD [OF assms(1)] and g = bmap_okD [OF assms(2)]
  have b: "b \<noteq> 0" "b \<notin> file_blocks V d" "b < FSSIZE" "b \<notin> log_area s" "b \<noteq> bmap_blk s"
    using g(6-9) [OF assms(4)] w(5) assms(4) by blast+
  have fb: "file_blocks W e \<subseteq> insert b (file_blocks V d)"
    using ind addr by (auto simp: file_blocks_def split: if_splits)
  have bn: "addr_of V d k \<noteq> b" if "k < MAXFILE" for k using that b(1,2) file_blocksI(2) by metis
  have bi: "ind_of d \<noteq> b" using b(1,2) file_blocksI(1) by metis
  have "file_wf W e s" unfolding file_wf_def
  proof (intro conjI ballI allI impI)
    fix a assume "a \<in> file_blocks W e"
    then have "a = b \<or> a \<in> file_blocks V d" using fb by blast
    then show "a < FSSIZE" "a \<notin> log_area s" "a \<noteq> bmap_blk s" "\<not> is_free W (sb s) a" using b w(2-5) free by auto
  next
    fix k assume k: "k < MAXFILE" "addr_of W e k \<noteq> 0"
    then show "addr_of W e k \<noteq> ind_of e" using addr [of k] ind bn [of k] bi w(6) [of k] by (auto split: if_splits)
    fix k' assume "k' < MAXFILE" "addr_of W e k = addr_of W e k'"
    then show "k = k'" using k addr [of k] addr [of k'] bn [of k] bn [of k'] w(7) [of k k'] by (auto split: if_splits)
  qed (rule e(2))
  moreover have "W c = V c" if "\<not> is_free V (sb s) c" "c \<notin> file_blocks V d" "c \<noteq> bmap_blk s" for c
    using that same [of c] file_blocksI(1) [of d V] by metis
  moreover have "addr_of W e k = addr_of V d k" if "k < MAXFILE" "addr_of V d k \<noteq> 0" for k
    using that addr [of k] new(1) by auto
  ultimately show ?thesis unfolding extends_def using assms(3,4) e(1) free fb by blast
qed

lemma rd32_zero: "j + 3 < n \<Longrightarrow> rd32 (replicate n 0) j = 0"
  by (simp add: rd32_def)

definition set_addr :: "nat \<Rightarrow> uint \<Rightarrow> dinode \<Rightarrow> dinode" where
  "set_addr k a d = d\<lparr>di_addrs := (di_addrs d)[k := a]\<rparr>"

lemma extends_slot:
  assumes "file_wf V d s" and "bmap_ok V s" and "is_free V (sb s) b" and "k \<le> NDIRECT" and "di_addrs d ! k = 0"
  shows "extends s V d (taken (sb s) b V) (set_addr k b d)"
    and "j < MAXFILE \<Longrightarrow> addr_of (taken (sb s) b V) (set_addr k b d) j = (if k < NDIRECT \<and> j = k then b else addr_of V d j)"
    and "ind_of (set_addr k b d) = (if k < NDIRECT then ind_of d else b)"
proof -
  note w = file_wfD [OF assms(1)] and g = bmap_okD [OF assms(2)]
  let ?W = "taken (sb s) b V" and ?e = "set_addr k b d"
  have k: "k < NDIRECT \<or> k = NDIRECT" using assms(4) by auto
  show i: "ind_of ?e = (if k < NDIRECT then ind_of d else b)" using k w(1) by (auto simp: ind_of_def set_addr_def)
  have wi: "?W (ind_of d) = V (ind_of d)" if "ind_of d \<noteq> 0"
    using that w(4,5) [OF file_blocksI(1)] by (intro taken_same [OF assms(2,3)]) auto
  have wb: "?W b = replicate BSIZE 0" by (simp add: taken_def)
  have b: "b \<noteq> 0" using g(8) [OF assms(3)] .
  show a: "addr_of ?W ?e j = (if k < NDIRECT \<and> j = k then b else addr_of V d j)" if j: "j < MAXFILE" for j
  proof (cases "j < NDIRECT")
    case True
    then show ?thesis using k w(1) by (auto simp: addr_of_def set_addr_def)
  next
    case False
    have "4 * (j - NDIRECT) + 3 < BSIZE" using j by (simp add: MAXFILE_def NDIRECT_def NINDIRECT_def BSIZE_def)
    note z = rd32_zero [OF this]
    show ?thesis
    proof (cases "k < NDIRECT")
      case True
      then show ?thesis using False i wi by (simp add: addr_of_def)
    next
      case kn: False
      then have "ind_of d = 0" using k assms(5) by (simp add: ind_of_def)
      then show ?thesis using False kn i wb z by (simp add: addr_of_def)
    qed
  qed
  show "extends s V d ?W ?e"
  proof (rule extends_grow [OF assms(1,2) taken_ok [OF assms(2,3)] assms(3), where D = "k < NDIRECT" and bn = k])
    show "?W c = V c" if "\<not> is_free V (sb s) c" "c \<noteq> bmap_blk s" for c using that by (rule taken_same [OF assms(2,3)])
    show "k < NDIRECT \<Longrightarrow> addr_of V d k = 0" "\<not> k < NDIRECT \<Longrightarrow> ind_of d = 0"
      using assms(5) k by (auto simp: addr_of_def ind_of_def)
  qed (use taken_free [OF assms(2,3)] w(1) i a in \<open>simp_all add: set_addr_def\<close>)
qed

lemma extends_indirect:
  assumes "file_wf V d s" and "bmap_ok V s" and "is_free V (sb s) b" and "NDIRECT \<le> bn" and "bn < MAXFILE"
    and "ind_of d \<noteq> 0" and "addr_of V d bn = 0"
  defines "W \<equiv> (taken (sb s) b V)(ind_of d := wr32 (V (ind_of d)) (4 * (bn - NDIRECT)) b)"
  shows "extends s V d W d" and "j < MAXFILE \<Longrightarrow> addr_of W d j = (if j = bn then b else addr_of V d j)"
    and "is_free W (sb s) c \<longleftrightarrow> c \<noteq> b \<and> is_free V (sb s) c" and "W b = replicate BSIZE 0"
proof -
  note w = file_wfD [OF assms(1)] and g = bmap_okD [OF assms(2)] and t = taken_ok [OF assms(2,3)]
  have i: "ind_of d \<noteq> bmap_blk s" "\<not> is_free V (sb s) (ind_of d)" using w(4,5) file_blocksI(1) [OF assms(6)] by auto
  show f: "is_free W (sb s) c \<longleftrightarrow> c \<noteq> b \<and> is_free V (sb s) c" for c
    using taken_free [OF assms(2,3)] i by (auto simp: W_def is_free_def)
  show "W b = replicate BSIZE 0" using i(2) assms(3) by (auto simp: W_def taken_def)
  have r: "bmap_ok W s"
  proof -
    have "length (W c) = BSIZE" for c using bmap_okD(5) [OF t] g(5) by (simp add: W_def)
    then show ?thesis using assms(2) f by (auto simp: bmap_ok_def)
  qed
  show a: "addr_of W d j = (if j = bn then b else addr_of V d j)" if j: "j < MAXFILE" for j
  proof (cases "j < NDIRECT")
    case True
    then show ?thesis using assms(4) by (auto simp: addr_of_def)
  next
    case False
    have "4 * (bn - NDIRECT) + 3 < length (V (ind_of d))" using assms(5) g(5) by (simp add: MAXFILE_def NDIRECT_def NINDIRECT_def BSIZE_def)
    moreover have "4 * (j - NDIRECT) + 4 \<le> 4 * (bn - NDIRECT) \<or> 4 * (bn - NDIRECT) + 4 \<le> 4 * (j - NDIRECT)" if "j \<noteq> bn"
      using that False assms(4) by arith
    ultimately show ?thesis using False assms(6) by (auto simp: addr_of_def W_def)
  qed
  show "extends s V d W d"
  proof (rule extends_grow [OF assms(1,2) r assms(3), where D = True and bn = bn])
    show "W c = V c" if "\<not> is_free V (sb s) c" "c \<noteq> bmap_blk s" "c \<noteq> ind_of d \<or> c = 0" for c
      using that assms(6) taken_same [OF assms(2,3) that(1,2)] by (auto simp: W_def)
  qed (use f w(1) a assms(7) in simp_all)
qed

section \<open>Finding or making the block\<close>

text \<open>The number of free blocks, and whether the indirect block is missing.\<close>

definition nfree :: "(uint \<Rightarrow> block) \<Rightarrow> superblock \<Rightarrow> nat" where
  "nfree V p = card {b. is_free V p b}"

definition missing :: "dinode \<Rightarrow> nat" where
  "missing d = (if ind_of d = 0 then 1 else 0)"

lemma nfree_less:
  assumes "is_free V p b" and "\<And>c. is_free W p c \<longleftrightarrow> c \<noteq> b \<and> is_free V p c"
  shows "nfree V p = Suc (nfree W p)"
proof -
  have "{c. is_free V p c} = insert b {c. is_free W p c}" using assms by auto
  then show ?thesis using assms(2) by (simp add: nfree_def)
qed

lemma nfree_ex: "0 < nfree V p \<Longrightarrow> \<exists>b. is_free V p b"
  by (auto simp: nfree_def card_gt_0_iff)

text \<open>What the code needs: the inode is on the log's device and no buffer of it is in use.\<close>

definition inode_ready :: "nat \<Rightarrow> 'z fs_state_scheme \<Rightarrow> bool" where
  "inode_ready i s \<longleftrightarrow> txn s \<and> (\<forall>b. idle_blk b s) \<and> i < length (icache s) \<and> i_dev (icache s ! i) = log_dev s"

lemma inode_readyD:
  assumes "inode_ready i s"
  shows "txn s" "idle_blk b s" "i < length (icache s)" "i_dev (icache s ! i) = log_dev s"
  using assms by (simp_all add: inode_ready_def)

lemma inode_ready_step:
  assumes "inode_ready i s" and "istep i A V d s t"
  shows "inode_ready i t" "i_din (icache t ! i) = d" "i_inum (icache t ! i) = i_inum (icache s ! i)"
  using inode_readyD [OF assms(1)] istepD [OF assms(2)] by (simp_all add: inode_ready_def)

text \<open>An address of the inode, direct or that of the indirect block.\<close>

definition slot_op :: "nat \<Rightarrow> nat \<Rightarrow> inode \<Rightarrow> ('z fs_state_scheme, uint) kop" where
  "slot_op i k ip = (if di_addrs (i_din ip) ! k = 0
     then kbind (balloc (i_dev ip)) (\<lambda>addr.
          kseq (kmod (upd_din i (\<lambda>d. d\<lparr>di_addrs := (di_addrs d)[k := addr]\<rparr>))) (kret addr))
     else kret (di_addrs (i_din ip) ! k))"

lemma slot_op_spec:
  assumes "inode_ready i s" and "bmap_ok (view s) s" and "di_addrs (i_din (icache s ! i)) ! k = 0 \<Longrightarrow> 0 < nfree (view s) (sb s)"
    and "room A n s" and "bmap_blk s \<in> A" and "0 < n"
  defines "d \<equiv> i_din (icache s ! i)"
  shows "di_addrs d ! k \<noteq> 0 \<and> slot_op i k (icache s ! i) s = Done (di_addrs d ! k) s \<or>
    di_addrs d ! k = 0 \<and> (\<exists>a t. slot_op i k (icache s ! i) s = Done a t \<and> is_free (view s) (sb s) a \<and>
      istep i {bmap_blk s, a} (taken (sb s) a (view s)) (set_addr k a d) s t)"
proof (cases "di_addrs d ! k = 0")
  case True
  note r = inode_readyD [OF assms(1)]
  obtain b where "is_free (view s) (sb s) b" using assms(3) True nfree_ex by (auto simp: d_def)
  from balloc_spec [OF r(1) assms(2) r(2) this r(2) assms(4-6)] obtain a t where
    t: "balloc (log_dev s) s = Done a t" "is_free (view s) (sb s) a" "fstep {bmap_blk s, a} (taken (sb s) a (view s)) s t" by blast
  let ?t = "upd_din i (\<lambda>d. d\<lparr>di_addrs := (di_addrs d)[k := a]\<rparr>) t"
  have "?t = upd_din i (\<lambda>_. set_addr k a d) t"
    using fstep_fs(2) [OF t(3)] by (simp add: upd_inode_def set_addr_def d_def)
  then have "istep i {bmap_blk s, a} (taken (sb s) a (view s)) (set_addr k a d) s ?t"
    unfolding istep_def using t(3) by blast
  moreover have "slot_op i k (icache s ! i) s = Done a ?t"
    using True r(4) by (simp add: slot_op_def d_def t(1))
  ultimately show ?thesis using True t(2) by blast
qed (simp add: slot_op_def d_def)

text \<open>What \<open>bmap\<close> has done to a file.\<close>

definition mapped :: "'z fs_state_scheme \<Rightarrow> nat \<Rightarrow> (uint \<Rightarrow> block) \<Rightarrow> dinode \<Rightarrow> uint \<Rightarrow> (uint \<Rightarrow> block) \<Rightarrow> dinode \<Rightarrow> bool" where
  "mapped s bn V d a W e \<longleftrightarrow> extends s V d W e \<and> a \<noteq> 0 \<and>
     (\<forall>j < MAXFILE. addr_of W e j = (if j = bn then a else addr_of V d j)) \<and>
     W a = (if addr_of V d bn = 0 then replicate BSIZE 0 else V a) \<and>
     (addr_of V d bn \<noteq> 0 \<longrightarrow> W = V \<and> e = d) \<and>
     (\<forall>c. \<not> is_free V (sb s) c \<and> c \<noteq> bmap_blk s \<and> c \<noteq> ind_of e \<longrightarrow> W c = V c) \<and>
     (ind_of d \<noteq> 0 \<longrightarrow> ind_of e = ind_of d) \<and> nfree V (sb s) + missing e \<le> nfree W (sb s) + missing d + 1"

lemma mapped_same:
  assumes "file_wf V d s" and "bmap_ok V s" and "addr_of V d bn = a" and "a \<noteq> 0"
  shows "mapped s bn V d a V d"
  using assms extends_refl [OF assms(1,2)] by (auto simp: mapped_def)

lemma mapped_direct:
  assumes "file_wf V d s" and "bmap_ok V s" and "is_free V (sb s) a" and "bn < NDIRECT" and "di_addrs d ! bn = 0"
  shows "mapped s bn V d a (taken (sb s) a V) (set_addr bn a d)"
proof -
  have k: "bn \<le> NDIRECT" using assms(4) by simp
  note e = extends_slot [OF assms(1-3) k assms(5)]
  have "addr_of V d bn = 0" using assms(4,5) by (simp add: addr_of_def)
  moreover have "nfree V (sb s) = Suc (nfree (taken (sb s) a V) (sb s))"
    using assms(3) taken_free [OF assms(2,3)] by (rule nfree_less)
  moreover have "missing (set_addr bn a d) = missing d" using e(3) assms(4) by (simp add: missing_def)
  ultimately show ?thesis
    unfolding mapped_def using e assms(4) bmap_okD(8) [OF assms(2,3)] taken_same [OF assms(2,3)] by (simp add: taken_def)
qed

lemma mapped_indirect:
  assumes "file_wf V d s" and "bmap_ok V s" and "is_free V (sb s) a" and "NDIRECT \<le> bn" and "bn < MAXFILE"
    and "ind_of d \<noteq> 0" and "addr_of V d bn = 0"
  shows "mapped s bn V d a ((taken (sb s) a V)(ind_of d := wr32 (V (ind_of d)) (4 * (bn - NDIRECT)) a)) d"
proof -
  note e = extends_indirect [OF assms]
  have "nfree V (sb s) = Suc (nfree ((taken (sb s) a V)(ind_of d := wr32 (V (ind_of d)) (4 * (bn - NDIRECT)) a)) (sb s))"
    using assms(3) e(3) by (rule nfree_less)
  then show ?thesis
    unfolding mapped_def using e(1,2,4) assms(7) bmap_okD(8) [OF assms(2,3)] taken_same [OF assms(2,3)] by simp
qed

lemma mapped_via:
  assumes "file_wf V d s" and "bmap_ok V s" and "is_free V (sb s) b" and "NDIRECT \<le> bn" and "bn < MAXFILE" and "ind_of d = 0"
    and "mapped s bn (taken (sb s) b V) (set_addr NDIRECT b d) a W e"
  shows "mapped s bn V d a W e"
proof -
  have z: "di_addrs d ! NDIRECT = 0" "addr_of V d bn = 0" using assms(4,6) by (simp_all add: ind_of_def addr_of_def)
  note x = extends_slot [OF assms(1-3) order_refl z(1)] and m = assms(7) [unfolded mapped_def]
  have n: "nfree V (sb s) = Suc (nfree (taken (sb s) b V) (sb s))"
    using assms(3) taken_free [OF assms(2,3)] by (rule nfree_less)
  have b: "b \<noteq> 0" using bmap_okD(8) [OF assms(2,3)] .
  have "W c = V c" if "\<not> is_free V (sb s) c" "c \<noteq> bmap_blk s" "c \<noteq> ind_of e" for c
    using that m taken_same [OF assms(2,3) that(1,2)] taken_free [OF assms(2,3)] by auto
  then show ?thesis
    unfolding mapped_def using extends_trans [OF x(1), of W e] m x(2,3) n b z(2) assms(5,6) by (auto simp: missing_def)
qed

text \<open>The indirect part of \<open>bmap\<close>, for the address of the indirect block.\<close>

definition ind_op :: "uint \<Rightarrow> nat \<Rightarrow> uint \<Rightarrow> ('z fs_state_scheme, uint) kop" where
  "ind_op dev n addr = kbind (bread dev addr) (\<lambda>bp.
     kbind (kget (\<lambda>s. rd32 (b_data (bufs s ! bp)) (4 * n))) (\<lambda>a.
     kbind (if a = 0
            then kbind (balloc dev) (\<lambda>addr.
                 kseq (mod_data bp (\<lambda>v. wr32 v (4 * n) addr))
                 (kseq (log_write bp)
                 (kret addr)))
            else kret a) (\<lambda>addr.
     kseq (brelse bp)
     (kret addr))))"

lemma bmap_parts:
  "bmap i bn s = (if bn < NDIRECT then slot_op i bn (icache s ! i) s
     else if bn < MAXFILE then kbind (slot_op i NDIRECT (icache s ! i)) (ind_op (i_dev (icache s ! i)) (bn - NDIRECT)) s
     else Panic ''bmap: out of range'')"
proof -
  have "bn < MAXFILE \<longleftrightarrow> bn - NDIRECT < NINDIRECT" if "\<not> bn < NDIRECT" using that by (auto simp: MAXFILE_def)
  then show ?thesis by (simp add: bmap_def slot_op_def ind_op_def [abs_def] kapply Let_def)
qed

lemma holds_fs: "holds b j s u \<Longrightarrow> sb u = sb s \<and> icache u = icache s"
  by (auto simp: holds_def log_frame_def)

lemma ind_op_spec:
  assumes "inode_ready i s" and "bmap_ok (view s) s" and "file_wf (view s) d s" and "d = i_din (icache s ! i)"
    and "NDIRECT \<le> bn" and "bn < MAXFILE" and "ind_of d \<noteq> 0" and "addr_of (view s) d bn = 0 \<Longrightarrow> 0 < nfree (view s) (sb s)"
    and "room A (Suc n) s" and "bmap_blk s \<in> A" and "0 < n"
  shows "\<exists>a t W. ind_op (log_dev s) (bn - NDIRECT) (ind_of d) s = Done a t \<and> mapped s bn (view s) d a W d \<and>
    istep i {bmap_blk s, ind_of d, a} W d s t"
proof -
  note r = inode_readyD [OF assms(1)] and w = file_wfD [OF assms(3)] and g = bmap_okD [OF assms(2)]
  let ?V = "view s" and ?ind = "ind_of d" and ?k = "4 * (bn - NDIRECT)" and ?bm = "bmap_blk s"
  have i: "?ind < FSSIZE" "?ind \<notin> log_area s" "?ind \<noteq> ?bm" "\<not> is_free ?V (sb s) ?ind"
    using w(2-5) file_blocksI(1) [OF assms(7)] by auto
  obtain j u where u: "bread (log_dev s) ?ind s = Done j u" "holds ?ind j s u" using hold_blk [OF r(1) i(1) r(2) assms(9)] by blast
  note h = holdsD [OF u(2)] and hs = holds_fs [OF u(2)]
  have a0: "rd32 (b_data (bufs u ! j)) ?k = addr_of ?V d bn" using assms(5,7) h(10) by (simp add: addr_of_def)
  show ?thesis
  proof (cases "addr_of ?V d bn = 0")
    case False
    obtain t where t: "brelse j u = Done () t" "fstep {} ?V s t"
      using drop_blk [OF u(2) fstep_refl [OF h(1), of "{}"]] h(3) by auto
    have "ind_op (log_dev s) (bn - NDIRECT) ?ind s = Done (addr_of ?V d bn) t"
      using False by (simp add: ind_op_def u(1) a0 t(1) kapply)
    moreover have "istep i {?bm, ?ind, addr_of ?V d bn} ?V d s t"
      using istep_mono [OF istep_fstep [OF t(2), of i]] assms(4) by simp
    ultimately show ?thesis using mapped_same [OF assms(3,2) refl False] by blast
  next
    case True
    then obtain c where c: "is_free ?V (sb s) c" using assms(8) nfree_ex by blast
    have ru: "room A n u" using room_hold [OF u(2) assms(9)] .
    have fr: "is_free (view u) (sb u) b \<longleftrightarrow> is_free ?V (sb s) b" for b using h(3) hs by simp
    have idl: "idle_blk b u" if "b \<noteq> ?ind" for b using that idle_hold [OF u(2)] r(2) by simp
    have "bmap_ok (view u) u" "idle_blk (bmap_blk u) u" "bmap_blk u \<in> A"
      using assms(2,10) h(3,12) hs i(3) idl by (auto simp: bmap_ok_def)
    moreover have "\<And>b. is_free (view u) (sb u) b \<Longrightarrow> idle_blk b u" using fr i(4) idl by metis
    ultimately obtain a v where v: "balloc (log_dev u) u = Done a v" "is_free (view u) (sb u) a"
        "fstep {bmap_blk u, a} (taken (sb u) a (view u)) u v"
      using balloc_spec [OF h(1) _ _ _ _ ru, of c] c fr assms(11) by blast
    have v': "balloc (log_dev s) u = Done a v" "is_free ?V (sb s) a" "fstep {?bm, a} (taken (sb s) a ?V) u v"
      using v h(3,11) hs by simp_all
    have "room (A \<union> {a}) 0 u" using ru assms(11) by (intro room_more) auto
    then have "room (A \<union> {a}) 0 v" using room_step [OF _ v'(3)] assms(10) by blast
    then have "lh_n v < log_size v - 1" using roomD(1) fstepD(1) [OF v'(3)] by blast
    from put_blk [OF u(2) v'(3) this i(2), of "\<lambda>v. wr32 v ?k a"] obtain x t where
      t: "kseq (mod_data j (\<lambda>v. wr32 v ?k a)) (log_write j) v = Done () x" "brelse j x = Done () t"
        "fstep (insert ?ind {?bm, a}) ((taken (sb s) a ?V)(?ind := wr32 (?V ?ind) ?k a)) s t" by blast
    have "kseq (mod_data j (\<lambda>v. wr32 v ?k a)) (kseq (log_write j) (kret a)) v = Done a x"
      unfolding kseq_assoc [symmetric] by (simp only: kseq_exec(1) t(1) kret_simps)
    then have "ind_op (log_dev s) (bn - NDIRECT) ?ind s = Done a t"
      using True by (simp add: ind_op_def u(1) a0 v'(1) t(2) kapply)
    moreover have "istep i {?bm, ?ind, a} ((taken (sb s) a ?V)(?ind := wr32 (?V ?ind) ?k a)) d s t"
      using istep_mono [OF istep_fstep [OF t(3), of i], of "{?bm, ?ind, a}"] unfolding assms(4) [symmetric] by auto
    ultimately show ?thesis using mapped_indirect [OF assms(3,2) v'(2) assms(5-7) True] by blast
  qed
qed

lemma mapped_cong:
  fixes s t :: "'z fs_state_scheme"
  assumes "sb t = sb s" and "log_area t = log_area s"
  shows "mapped t bn V d a W e = mapped s bn V d a W e"
proof -
  have "file_wf W e t = file_wf W e s" "bmap_ok W t = bmap_ok W s" using assms by (simp_all only: file_wf_def bmap_ok_def)
  then show ?thesis by (simp only: mapped_def extends_def assms)
qed

lemma bmap_direct:
  assumes "inode_ready i s" and "bmap_ok (view s) s" and "file_wf (view s) d s" and "d = i_din (icache s ! i)" and "bn < NDIRECT"
    and "addr_of (view s) d bn = 0 \<Longrightarrow> 0 < nfree (view s) (sb s)" and "room A n s" and "bmap_blk s \<in> A" and "0 < n"
  shows "\<exists>a t W e. bmap i bn s = Done a t \<and> mapped s bn (view s) d a W e \<and> istep i {bmap_blk s, a} W e s t"
proof -
  have z: "di_addrs d ! bn = addr_of (view s) d bn" using assms(5) by (simp add: addr_of_def)
  have b: "bmap i bn s = slot_op i bn (icache s ! i) s" using assms(5) by (simp add: bmap_parts)
  from slot_op_spec [OF assms(1,2) _ assms(7-9), of bn] assms(6) z b
  consider "addr_of (view s) d bn \<noteq> 0" "bmap i bn s = Done (addr_of (view s) d bn) s"
    | a t where "di_addrs d ! bn = 0" "bmap i bn s = Done a t" "is_free (view s) (sb s) a"
      "istep i {bmap_blk s, a} (taken (sb s) a (view s)) (set_addr bn a d) s t"
    unfolding z [symmetric] assms(4) [symmetric] by (metis (no_types))
  then show ?thesis
  proof cases
    case 1
    have "istep i {} (view s) d s s" using istep_fstep [OF fstep_refl [OF inode_readyD(1) [OF assms(1)]]] assms(4) by simp
    then show ?thesis using 1 mapped_same [OF assms(3,2) refl 1(1)] istep_mono by blast
  next
    case 2
    then show ?thesis using mapped_direct [OF assms(3,2) 2(3) assms(5) 2(1)] by blast
  qed
qed

lemma bmap_new_indirect:
  assumes "inode_ready i s" and "bmap_ok (view s) s" and "file_wf (view s) d s" and "d = i_din (icache s ! i)"
    and nd: "NDIRECT \<le> bn" and "bn < MAXFILE" and z: "ind_of d = 0" and nf: "1 < nfree (view s) (sb s)" "2 < n"
    and "room A n s" and "bmap_blk s \<in> A"
  shows "\<exists>a t W e. kbind (slot_op i NDIRECT (icache s ! i)) (ind_op (log_dev s) (bn - NDIRECT)) s = Done a t \<and>
    mapped s bn (view s) d a W e \<and> istep i ({bmap_blk s, a} \<union> ({ind_of e} - {0})) W e s t"
proof -
  let ?V = "view s"
  have az: "di_addrs d ! NDIRECT = 0" using z by (simp add: ind_of_def)
  obtain c t where t: "slot_op i NDIRECT (icache s ! i) s = Done c t" "is_free ?V (sb s) c"
      "istep i {bmap_blk s, c} (taken (sb s) c ?V) (set_addr NDIRECT c d) s t"
    using slot_op_spec [OF assms(1,2) _ assms(10,11), of NDIRECT] az nf unfolding assms(4) [symmetric] by auto
  let ?W = "taken (sb s) c ?V" and ?e = "set_addr NDIRECT c d"
  note x = extends_slot [OF assms(3,2) t(2) order_refl az] and st = istepD [OF t(3)] and ir = inode_ready_step [OF assms(1) t(3)]
  have c: "c \<noteq> 0" "ind_of ?e = c" using bmap_okD(8) [OF assms(2) t(2)] x(3) by simp_all
  have pre: "bmap_ok (view t) t" "file_wf (view t) ?e t" "?e = i_din (icache t ! i)" "ind_of ?e \<noteq> 0"
    using extendsD(1,2) [OF x(1)] st(2,3,5,11) ir(2) c by (simp_all add: file_wf_def)
  have nfr: "nfree ?V (sb s) = Suc (nfree ?W (sb s))" using t(2) taken_free [OF assms(2) t(2)] by (rule nfree_less)
  obtain m where m: "n = Suc (Suc m)" "0 < m" using nf(2) by (cases n; cases "n - 1") auto
  have rm: "room (A \<union> {c}) (Suc m) t"
    using room_more [OF assms(10), of "{c}" "Suc m"] st(10) [of "A \<union> {c}" "Suc m"] assms(11) m(1) by auto
  have bm: "bmap_blk t \<in> A \<union> {c}" using st(3) assms(11) by simp
  obtain a u X where u: "ind_op (log_dev t) (bn - NDIRECT) c t = Done a u" "mapped t bn ?W ?e a X ?e"
      "istep i {bmap_blk t, c, a} X ?e t u"
    using ind_op_spec [OF ir(1) pre(1-3) nd assms(6) pre(4) _ rm bm m(2)] nfr nf(1) st(2,3) c(2) by auto
  have "mapped s bn ?W ?e a X ?e" using u(2) mapped_cong [OF st(3,5)] by blast
  then have "mapped s bn ?V d a X ?e" by (rule mapped_via [OF assms(3,2) t(2) nd assms(6) z])
  moreover have "istep i ({bmap_blk s, a} \<union> ({ind_of ?e} - {0})) X ?e s u"
    by (rule istep_mono [OF istep_trans [OF t(3) u(3)]]) (use st(3) c in auto)
  moreover have "kbind (slot_op i NDIRECT (icache s ! i)) (ind_op (log_dev s) (bn - NDIRECT)) s = Done a u"
    using t(1) u(1) st(4) by simp
  ultimately show ?thesis by blast
qed

lemma bmap_spec:
  assumes "inode_ready i s" and "bmap_ok (view s) s" and "file_wf (view s) d s" and "d = i_din (icache s ! i)" and "bn < MAXFILE"
    and "addr_of (view s) d bn = 0 \<Longrightarrow> missing d < nfree (view s) (sb s)"
    and "room A n s" and "bmap_blk s \<in> A" and "ind_of d = 0 \<or> ind_of d \<in> A" and "missing d + 1 < n"
  shows "\<exists>a t W e. bmap i bn s = Done a t \<and> mapped s bn (view s) d a W e \<and>
    istep i ({bmap_blk s, a} \<union> ({ind_of e} - {0})) W e s t"
proof (cases "bn < NDIRECT")
  case True
  have f: "addr_of (view s) d bn = 0 \<Longrightarrow> 0 < nfree (view s) (sb s)" using assms(6) by fastforce
  have "0 < n" using assms(10) by simp
  from bmap_direct [OF assms(1-4) True f assms(7,8) this] show ?thesis using istep_mono by blast
next
  case False
  then have nd: "NDIRECT \<le> bn" by simp
  have b: "bmap i bn s = kbind (slot_op i NDIRECT (icache s ! i)) (ind_op (log_dev s) (bn - NDIRECT)) s"
    using False assms(5) inode_readyD(4) [OF assms(1)] by (simp add: bmap_parts)
  show ?thesis
  proof (cases "ind_of d = 0")
    case ne: False
    then have "slot_op i NDIRECT (icache s ! i) s = Done (ind_of d) s" by (simp add: slot_op_def ind_of_def assms(4))
    then have b': "bmap i bn s = ind_op (log_dev s) (bn - NDIRECT) (ind_of d) s" using b by simp
    obtain m where m: "n = Suc m" "0 < m" using assms(10) by (cases n) auto
    have f: "addr_of (view s) d bn = 0 \<Longrightarrow> 0 < nfree (view s) (sb s)" using assms(6) by fastforce
    obtain a t W where t: "ind_op (log_dev s) (bn - NDIRECT) (ind_of d) s = Done a t" "mapped s bn (view s) d a W d"
        "istep i {bmap_blk s, ind_of d, a} W d s t"
      using ind_op_spec [OF assms(1-4) nd assms(5) ne f assms(7) [unfolded m(1)] assms(8) m(2)] by blast
    have "istep i ({bmap_blk s, a} \<union> ({ind_of d} - {0})) W d s t" by (rule istep_mono [OF t(3)]) (use ne in auto)
    with t(1,2) b' show ?thesis by metis
  next
    case z: True
    then have "addr_of (view s) d bn = 0" using nd by (simp add: addr_of_def)
    then have nf: "1 < nfree (view s) (sb s)" "2 < n" using assms(6,10) z by (simp_all add: missing_def)
    from bmap_new_indirect [OF assms(1-4) nd assms(5) z nf assms(7,8)] show ?thesis unfolding b .
  qed
qed

text \<open>A block that is there is found without changing anything.\<close>

lemma bmap_hit:
  assumes "inode_ready i s" and "file_wf (view s) d s" and "d = i_din (icache s ! i)" and "bn < MAXFILE"
    and "addr_of (view s) d bn \<noteq> 0" and "room A n s"
  shows "\<exists>t. bmap i bn s = Done (addr_of (view s) d bn) t \<and> fstep {} (view s) s t"
proof (cases "bn < NDIRECT")
  case True
  then have "bmap i bn s = Done (addr_of (view s) d bn) s"
    using assms(3,5) by (simp add: bmap_parts slot_op_def addr_of_def)
  then show ?thesis using fstep_refl [OF inode_readyD(1) [OF assms(1)]] by blast
next
  case False
  note r = inode_readyD [OF assms(1)]
  have ind: "ind_of d \<noteq> 0" using False assms(5) by (auto simp: addr_of_def)
  have "ind_of d < FSSIZE" using file_wfD(2) [OF assms(2) file_blocksI(1) [OF ind]] .
  from read_blk [OF r(1) this r(2) assms(6)] obtain j u t where u: "bread (log_dev s) (ind_of d) s = Done j u"
    "b_data (bufs u ! j) = view s (ind_of d)" "brelse j u = Done () t" "fstep {} (view s) s t" by blast
  have a: "rd32 (view s (ind_of d)) (4 * (bn - NDIRECT)) = addr_of (view s) d bn" using False ind by (simp add: addr_of_def)
  have "slot_op i NDIRECT (icache s ! i) s = Done (ind_of d) s" using ind by (simp add: slot_op_def ind_of_def assms(3))
  moreover have "ind_op (log_dev s) (bn - NDIRECT) (ind_of d) s = Done (addr_of (view s) d bn) t"
    using assms(5) by (simp add: ind_op_def u(1-3) a kapply)
  ultimately show ?thesis using False assms(4) r(4) u(4) by (simp add: bmap_parts)
qed

section \<open>Reading\<close>

text \<open>Byte \<open>p\<close> of a file.\<close>

definition fbyte :: "(uint \<Rightarrow> block) \<Rightarrow> dinode \<Rightarrow> nat \<Rightarrow> byte" where
  "fbyte V d p = (let a = addr_of V d (p div 512) in if a = 0 then 0 else V a ! (p mod 512))"

lemma in_chunk:
  assumes "off mod 512 + m \<le> (512::nat)" and "off \<le> p" and "p < off + m"
  shows "p div 512 = off div 512" "p mod 512 = off mod 512 + (p - off)"
proof -
  have p: "p = 512 * (off div 512) + (off mod 512 + (p - off))" "off mod 512 + (p - off) < 512" using assms by simp_all
  show "p div 512 = off div 512" "p mod 512 = off mod 512 + (p - off)"
    using p by (metis div_mult_self4 div_less add.right_neutral zero_neq_numeral, metis mod_mult_self4 mod_less)
qed

lemma chunk_bytes:
  assumes "addr_of V d (off div 512) = a" and "a \<noteq> 0" and "length (V a) = 512" and "off mod 512 + m \<le> 512"
  shows "take m (drop (off mod 512) (V a)) = map (fbyte V d) [off..<off + m]"
proof (rule nth_equalityI)
  show "length (take m (drop (off mod 512) (V a))) = length (map (fbyte V d) [off..<off + m])" using assms(3,4) by simp
  fix j assume "j < length (take m (drop (off mod 512) (V a)))"
  then have j: "j < m" by simp
  note c = in_chunk [OF assms(4), of "off + j"]
  show "take m (drop (off mod 512) (V a)) ! j = map (fbyte V d) [off..<off + m] ! j"
    using j c assms by (simp add: fbyte_def Let_def)
qed

lemma chunk_le: "off mod 512 + min n (512 - off mod 512) \<le> (512::nat)"
proof -
  have "off mod 512 < 512" by simp
  then show ?thesis by linarith
qed

lemma readi_loop_spec:
  assumes "inode_ready i s" and "bmap_ok (view s) s" and "file_wf (view s) d s" and "d = i_din (icache s ! i)"
    and "off + n \<le> MAXFILE * 512" and "\<And>p. off \<le> p \<Longrightarrow> p < off + n \<Longrightarrow> addr_of (view s) d (p div 512) \<noteq> 0" and "room A k s"
  shows "\<exists>t. readi_loop i off n s = Done (map (fbyte (view s) d) [off..<off + n]) t \<and> fstep {} (view s) s t"
  using assms
proof (induction i off n arbitrary: s rule: readi_loop.induct)
  case (1 i off n)
  note r = inode_readyD [OF "1.prems"(1)]
  let ?V = "view s" and ?m = "min n (512 - off mod 512)" and ?a = "addr_of (view s) d (off div 512)"
  show ?case
  proof (cases "n = 0")
    case True
    then show ?thesis using fstep_refl [OF r(1)] by (subst readi_loop.simps) simp
  next
    case False
    have bn: "off div 512 < MAXFILE" using False "1.prems"(5) by (simp add: div_less_iff_less_mult)
    have a: "?a \<noteq> 0" using "1.prems"(6) [of off] False by simp
    have af: "?a < FSSIZE" using file_wfD(2) [OF "1.prems"(3) file_blocksI(2) [OF bn a]] .
    obtain t where t: "bmap i (off div 512) s = Done ?a t" "fstep {} ?V s t"
      using bmap_hit [OF "1.prems"(1,3,4) bn a "1.prems"(7)] by blast
    note ft = fstepD [OF t(2)]
    have rt: "room A k t" using room_step [OF "1.prems"(7) t(2)] by simp
    obtain j u v where u: "bread (log_dev t) ?a t = Done j u" "b_data (bufs u ! j) = view t ?a" "brelse j u = Done () v" "fstep {} (view t) t v"
      using read_blk [OF ft(1) af _ rt] ft(10) r(2) by blast
    have sv: "fstep {} ?V s v" using fstep_trans [OF t(2) u(4)] ft(5) by simp
    note fv = fstepD [OF sv] and gv = fstep_fs [OF sv]
    have pre: "inode_ready i v" "bmap_ok (view v) v" "file_wf (view v) d v" "d = i_din (icache v ! i)" "room A k v"
      using "1.prems"(1-4) fv gv room_step [OF "1.prems"(7) sv]
      by (simp_all add: inode_ready_def bmap_ok_def file_wf_def)
    obtain w where w: "readi_loop i (off + ?m) (n - ?m) v = Done (map (fbyte ?V d) [off + ?m..<off + n]) w" "fstep {} ?V v w"
      using "1.IH" [OF False refl pre(1-4) _ _ pre(5)] "1.prems"(5,6) fv(5) by auto
    have len: "length (?V ?a) = 512" using bmap_okD(5) [OF "1.prems"(2)] by (simp add: BSIZE_def)
    have ck: "take ?m (drop (off mod 512) (?V ?a)) = map (fbyte ?V d) [off..<off + ?m]"
      by (rule chunk_bytes [OF refl a len chunk_le])
    have ud: "b_data (bufs u ! j) = ?V ?a" using u(2) ft(5) by simp
    have "readi_loop i off n s = Done (map (fbyte ?V d) [off..<off + ?m] @ map (fbyte ?V d) [off + ?m..<off + n]) w"
      by (subst readi_loop.simps) (use False r(4) t(1) u(1,3) w(1) ft(7) ck ud in \<open>simp add: Let_def kapply\<close>)
    moreover have "[off..<off + n] = [off..<off + ?m] @ [off + ?m..<off + n]"
      using upt_add_eq_append [of off "off + ?m" "n - ?m"] by simp
    ultimately show ?thesis using fstep_trans [OF sv w(2)] by (simp only: map_append Un_empty_left) blast
  qed
qed

section \<open>Writing\<close>

text \<open>\<open>src\<close> has been written at \<open>off\<close>.\<close>

definition written :: "'z fs_state_scheme \<Rightarrow> nat \<Rightarrow> byte list \<Rightarrow> (uint \<Rightarrow> block) \<Rightarrow> dinode \<Rightarrow> (uint \<Rightarrow> block) \<Rightarrow> dinode \<Rightarrow> bool" where
  "written s off src V d W e \<longleftrightarrow> extends s V d W e \<and>
     (\<forall>p < MAXFILE * 512. fbyte W e p = (if off \<le> p \<and> p < off + length src then src ! (p - off) else fbyte V d p)) \<and>
     (\<forall>p. off \<le> p \<and> p < off + length src \<longrightarrow> addr_of W e (p div 512) \<noteq> 0) \<and>
     ((\<forall>p. off \<le> p \<and> p < off + length src \<longrightarrow> addr_of V d (p div 512) \<noteq> 0) \<longrightarrow> e = d)"

lemma writtenD:
  assumes "written s off src V d W e"
  shows "extends s V d W e"
    "p < MAXFILE * 512 \<Longrightarrow> fbyte W e p = (if off \<le> p \<and> p < off + length src then src ! (p - off) else fbyte V d p)"
    "off \<le> p \<Longrightarrow> p < off + length src \<Longrightarrow> addr_of W e (p div 512) \<noteq> 0"
    "(\<And>p. off \<le> p \<Longrightarrow> p < off + length src \<Longrightarrow> addr_of V d (p div 512) \<noteq> 0) \<Longrightarrow> e = d"
  using assms by (simp_all add: written_def)

lemma written_nil: "file_wf V d s \<Longrightarrow> bmap_ok V s \<Longrightarrow> written s off [] V d V d"
  by (auto simp: written_def extends_refl)

lemma written_append:
  assumes "written s off xs V d W e" and "written s (off + length xs) ys W e X f" and "off + length xs + length ys \<le> MAXFILE * 512"
  shows "written s off (xs @ ys) V d X f"
proof -
  note a = writtenD [OF assms(1)] and b = writtenD [OF assms(2)]
  have m: "p div 512 < MAXFILE" if "p < off + length xs + length ys" for p
    using that assms(3) by (simp add: div_less_iff_less_mult)
  have "fbyte X f p = (if off \<le> p \<and> p < off + length (xs @ ys) then (xs @ ys) ! (p - off) else fbyte V d p)"
    if "p < MAXFILE * 512" for p
    using a(2) [OF that] b(2) [OF that] by (auto simp: nth_append diff_diff_left)
  moreover have "addr_of X f (p div 512) \<noteq> 0" if p: "off \<le> p" "p < off + length (xs @ ys)" for p
  proof (cases "p < off + length xs")
    case True
    then show ?thesis using a(3) [OF p(1) True] extendsD(7) [OF b(1)] m [of p] by simp
  qed (use b(3) p in simp)
  moreover have "f = d" if h: "\<And>p. off \<le> p \<Longrightarrow> p < off + length (xs @ ys) \<Longrightarrow> addr_of V d (p div 512) \<noteq> 0"
  proof -
    have "e = d" using h by (intro a(4)) auto
    moreover have "f = e" using h extendsD(7) [OF a(1)] m by (intro b(4)) auto
    ultimately show ?thesis by simp
  qed
  ultimately show ?thesis unfolding written_def using extends_trans [OF a(1) b(1)] by blast
qed

text \<open>A file's block is overwritten: nothing else of the file or the bitmap changes.\<close>

lemma extends_patch:
  assumes "file_wf V d s" and "bmap_ok V s" and "bn < MAXFILE" and "addr_of V d bn = a" and "a \<noteq> 0" and "length v = BSIZE"
  shows "extends s V d (V(a := v)) d" "addr_of (V(a := v)) d j = addr_of V d j" "is_free (V(a := v)) (sb s) c = is_free V (sb s) c"
proof -
  note w = file_wfD [OF assms(1)]
  have m: "a \<in> file_blocks V d" "a \<noteq> ind_of d" using file_blocksI(2) [of bn V d] w(6) [of bn] assms(3-5) by auto
  show ad: "addr_of (V(a := v)) d j = addr_of V d j" for j using m(2) by (simp add: addr_of_def)
  show fr: "is_free (V(a := v)) (sb s) c = is_free V (sb s) c" for c using w(4) [OF m(1)] by (simp add: is_free_def)
  have "file_blocks (V(a := v)) d = file_blocks V d" by (simp add: file_blocks_def ad)
  then show "extends s V d (V(a := v)) d"
    using assms(1,2,6) m(1) fr ad by (auto simp: extends_def file_wf_def bmap_ok_def)
qed

abbreviation patch :: "nat \<Rightarrow> byte list \<Rightarrow> block \<Rightarrow> block" where
  "patch o' c v \<equiv> take o' v @ c @ drop (o' + length c) v"

lemma patch_nth:
  assumes "o' + length c \<le> length v" and "k < length v"
  shows "patch o' c v ! k = (if o' \<le> k \<and> k < o' + length c then c ! (k - o') else v ! k)"
  using assms by (auto simp: nth_append)

text \<open>Finding or making a block does not change the bytes of the file.\<close>

lemma mapped_bytes:
  assumes "file_wf V d s" and "mapped s bn V d a W e" and "bn < MAXFILE" and "q < MAXFILE * 512"
  shows "fbyte W e q = fbyte V d q"
proof -
  let ?j = "q div 512"
  note m = assms(2) [unfolded mapped_def] and f = file_wfD [OF assms(1)]
  have w: "file_wf W e s" "a \<noteq> 0" using m extendsD(1) by blast+
  have ad: "addr_of W e j = (if j = bn then a else addr_of V d j)" if "j < MAXFILE" for j using m that by blast
  have j: "?j < MAXFILE" using assms(4) by (simp add: div_less_iff_less_mult)
  show ?thesis
  proof (cases "?j = bn")
    case True
    then show ?thesis using m ad [OF j] by (auto simp: fbyte_def Let_def BSIZE_def)
  next
    case False
    have "W (addr_of V d ?j) = V (addr_of V d ?j)" if nz: "addr_of V d ?j \<noteq> 0"
    proof -
      have "addr_of W e ?j \<noteq> ind_of e" using file_wfD(6) [OF w(1) j] ad [OF j] False nz by simp
      then show ?thesis using m ad [OF j] False f(4,5) file_blocksI(2) [OF j nz] by simp
    qed
    then show ?thesis using ad [OF j] False by (simp add: fbyte_def Let_def)
  qed
qed

lemma written_chunk:
  assumes "file_wf V d s" and "bmap_ok V s" and "mapped s (off div 512) V d a W e" and "off div 512 < MAXFILE"
    and "off mod 512 + length c \<le> 512" and "c \<noteq> []"
  shows "written s off c V d (W(a := patch (off mod 512) c (W a))) e"
proof -
  let ?bn = "off div 512" and ?X = "W(a := patch (off mod 512) c (W a))"
  note m = assms(3) [unfolded mapped_def]
  have x: "extends s V d W e" "a \<noteq> 0" using m by blast+
  note w = extendsD [OF x(1)] and f = file_wfD [OF assms(1)]
  have ad: "addr_of W e j = (if j = ?bn then a else addr_of V d j)" if "j < MAXFILE" for j using m that by blast
  have ab: "addr_of W e ?bn = a" using ad [OF assms(4)] by simp
  have len: "length (W a) = 512" using bmap_okD(5) [OF w(2)] by (simp add: BSIZE_def)
  have lx: "length (patch (off mod 512) c (W a)) = BSIZE" using len assms(5) by (simp add: BSIZE_def)
  note p = extends_patch [OF w(1,2) assms(4) ab x(2) lx]
  note old = mapped_bytes [OF assms(1,3,4)]
  have "fbyte ?X e q = (if off \<le> q \<and> q < off + length c then c ! (q - off) else fbyte V d q)" if q: "q < MAXFILE * 512" for q
  proof (cases "q div 512 = ?bn")
    case True
    define x y z where xy: "x = q mod 512" "y = off mod 512" "z = off div 512"
    have q': "q = 512 * z + x" "off = 512 * z + y" using True div_mult_mod_eq [of q 512] by (simp_all add: xy)
    have "(off \<le> q \<and> q < off + length c) = (y \<le> x \<and> x < y + length c)" "q - off = x - y"
      unfolding q' by simp_all
    moreover have "fbyte ?X e q = patch y c (W a) ! x" "fbyte W e q = W a ! x"
      using True p(2) ab x(2) by (simp_all add: fbyte_def xy)
    moreover have "patch y c (W a) ! x = (if y \<le> x \<and> x < y + length c then c ! (x - y) else W a ! x)"
      using assms(5) by (intro patch_nth) (simp_all add: xy len)
    ultimately show ?thesis using old [OF q] by simp
  next
    case False
    have j: "q div 512 < MAXFILE" using q by (simp add: div_less_iff_less_mult)
    have "\<not> (off \<le> q \<and> q < off + length c)" using False in_chunk(1) [OF assms(5)] by blast
    moreover have "fbyte ?X e q = fbyte W e q"
      using False p(2) file_wfD(7) [OF w(1) assms(4) j] ab x(2) by (auto simp: fbyte_def Let_def)
    ultimately show ?thesis using old [OF q] by auto
  qed
  moreover have "addr_of ?X e (q div 512) \<noteq> 0" if "off \<le> q" "q < off + length c" for q
    using in_chunk(1) [OF assms(5) that] p(2) ab x(2) by simp
  moreover have "e = d" if "\<forall>q. off \<le> q \<and> q < off + length c \<longrightarrow> addr_of V d (q div 512) \<noteq> 0"
    using that m assms(6) by auto
  ultimately show ?thesis unfolding written_def using extends_trans [OF x(1) p(1)] by blast
qed

text \<open>The number of blocks that \<open>n\<close> bytes at \<open>off\<close> lie in.\<close>

definition nblk :: "nat \<Rightarrow> nat \<Rightarrow> nat" where
  "nblk off n = (if n = 0 then 0 else (off + n - 1) div 512 - off div 512 + 1)"

lemma nblk_step:
  assumes "0 < n"
  shows "nblk off n = Suc (nblk (off + min n (512 - off mod 512)) (n - min n (512 - off mod 512)))"
proof (cases "n \<le> 512 - off mod 512")
  case True
  have "off mod 512 + n \<le> 512" using chunk_le [of off n] True by simp
  then have "(off + n - 1) div 512 = off div 512" using assms in_chunk(1) [of off n "off + n - 1"] by simp
  then show ?thesis using assms True by (simp add: nblk_def)
next
  case False
  let ?o = "off + (512 - off mod 512)"
  have o: "off mod 512 < 512" by simp
  have "?o = 512 * Suc (off div 512)" using o mult_div_mod_eq [of 512 off] unfolding mult_Suc_right by linarith
  then have "?o div 512 = Suc (off div 512)" by simp
  moreover have "?o + (n - (512 - off mod 512)) = off + n" using False o by linarith
  moreover have "?o div 512 \<le> (off + n - 1) div 512" using False by (intro div_le_mono) linarith
  moreover have "min n (512 - off mod 512) = 512 - off mod 512" "n - (512 - off mod 512) \<noteq> 0" using False by simp_all
  ultimately show ?thesis using assms unfolding nblk_def by (simp add: Suc_diff_Suc)
qed

lemma card_new:
  assumes "mapped s bn V d a W e" and "ind_of d = 0 \<or> ind_of d \<in> A"
  shows "card (insert a ({ind_of e} - {0} - A)) + missing e \<le> 1 + missing d"
proof -
  have "{ind_of e} - {0} - A = {}" if "ind_of d \<noteq> 0" using that assms by (auto simp: mapped_def)
  moreover have "card (insert a ({ind_of e} - {0} - A)) \<le> Suc (card ({ind_of e} - {0} - A))" by (rule card_insert_le_m1) simp_all
  moreover have "card ({ind_of e} - {0} - A) \<le> 1 - missing e"
  proof (cases "ind_of e = 0")
    case False
    have "card ({ind_of e} - {0} - A) \<le> card {ind_of e}" by (rule card_mono) auto
    then show ?thesis using False by (simp add: missing_def)
  qed (simp add: missing_def)
  ultimately show ?thesis using assms(1) by (auto simp: missing_def mapped_def split: if_splits)
qed

lemma written_cong:
  fixes s t :: "'z fs_state_scheme"
  assumes "sb t = sb s" and "log_area t = log_area s"
  shows "written t off src V d W e = written s off src V d W e"
proof -
  have "file_wf W e t = file_wf W e s" "bmap_ok W t = bmap_ok W s" using assms by (simp_all only: file_wf_def bmap_ok_def)
  then show ?thesis by (simp only: written_def extends_def assms)
qed

text \<open>One round of the loop of \<open>writei\<close>.\<close>

lemma write_chunk:
  assumes "inode_ready i s" and "bmap_ok (view s) s" and "file_wf (view s) d s" and "d = i_din (icache s ! i)"
    and "off div 512 < MAXFILE" and "off mod 512 + length c \<le> 512" and "c \<noteq> []" and "missing d < nfree (view s) (sb s)"
    and "room A n s" and "bmap_blk s \<in> A" and "ind_of d = 0 \<or> ind_of d \<in> A" and "missing d + 1 < n"
  shows "\<exists>a t j u w v W e. bmap i (off div 512) s = Done a t \<and> bread (log_dev s) a t = Done j u \<and>
    kseq (mod_data j (patch (off mod 512) c)) (log_write j) u = Done () w \<and> brelse j w = Done () v \<and>
    written s off c (view s) d W e \<and> nfree (view s) (sb s) + missing e \<le> nfree W (sb s) + missing d + 1 \<and>
    istep i ({bmap_blk s, a} \<union> ({ind_of e} - {0})) W e s v \<and> card (insert a ({ind_of e} - {0} - A)) + missing e \<le> 1 + missing d"
proof -
  obtain a t W e where t: "bmap i (off div 512) s = Done a t" "mapped s (off div 512) (view s) d a W e"
      "istep i ({bmap_blk s, a} \<union> ({ind_of e} - {0})) W e s t"
    using bmap_spec [OF assms(1-5,8-12)] by blast
  note m = t(2) [unfolded mapped_def] and x = istepD [OF t(3)] and r = inode_readyD [OF assms(1)]
  have we: "file_wf W e s" "bmap_ok W s" using m extendsD(1,2) by blast+
  have ad: "addr_of W e (off div 512) = a" "a \<noteq> 0" using m assms(5) by auto
  then have ab: "a \<in> file_blocks W e" using file_blocksI(2) assms(5) by blast
  note fa = file_wfD(2,3,4) [OF we(1) ab]
  have cn: "card (insert a ({ind_of e} - {0} - A)) + missing e \<le> 1 + missing d" using card_new [OF t(2) assms(11)] .
  have "room (A \<union> insert a ({ind_of e} - {0} - A)) 0 s" using cn assms(12) by (intro room_more [OF assms(9)]) auto
  then have "room (A \<union> insert a ({ind_of e} - {0} - A)) 0 t" using assms(10) by (intro x(10)) auto
  then have ra: "room {a} 0 t" by (rule room_one) simp
  have na: "a \<notin> log_area t" "idle_blk a t" using fa(2) x(5,8) r(2) by simp_all
  obtain j u where u: "bread (log_dev t) a t = Done j u"
      "\<forall>f. \<exists>w v. kseq (mod_data j f) (log_write j) u = Done () w \<and> brelse j w = Done () v \<and> fstep {a} ((view t)(a := f (view t a))) t v"
    using edit_blk [OF x(1) fa(1) na(2) ra na(1)] by blast
  then obtain w v where v: "kseq (mod_data j (patch (off mod 512) c)) (log_write j) u = Done () w" "brelse j w = Done () v"
      "fstep {a} ((view t)(a := patch (off mod 512) c (view t a))) t v" by blast
  let ?X = "W(a := patch (off mod 512) c (W a))"
  have it: "i_din (icache t ! i) = e" using inode_ready_step(2) [OF assms(1) t(3)] .
  have "istep i {a} ?X e t v" using istep_fstep [OF v(3), of i] it x(2) by simp
  then have "istep i ({bmap_blk s, a} \<union> ({ind_of e} - {0})) ?X e s v"
    by (rule istep_mono [OF istep_trans [OF t(3)]]) auto
  moreover have "written s off c (view s) d ?X e" using written_chunk [OF assms(3,2) t(2) assms(5-7)] .
  moreover have "nfree ?X (sb s) = nfree W (sb s)" using fa(3) by (simp add: nfree_def is_free_def)
  then have "nfree (view s) (sb s) + missing e \<le> nfree ?X (sb s) + missing d + 1" using m by simp
  moreover have "bread (log_dev s) a t = Done j u" using u(1) x(4) by simp
  ultimately show ?thesis using t(1) v(1,2) cn by blast
qed

lemma writei_loop_spec:
  assumes "inode_ready i s" and "bmap_ok (view s) s" and "file_wf (view s) d s" and "d = i_din (icache s ! i)"
    and "off + length src \<le> MAXFILE * 512" and "nblk off (length src) + missing d \<le> nfree (view s) (sb s)"
    and "room A n s" and "bmap_blk s \<in> A" and "ind_of d = 0 \<or> ind_of d \<in> A" and "nblk off (length src) + missing d + 1 \<le> n"
  shows "\<exists>t B W e. writei_loop i off src s = Done () t \<and> istep i B W e s t \<and> written s off src (view s) d W e \<and> room A 0 t"
  using assms
proof (induction i off src arbitrary: s d A n rule: writei_loop.induct)
  case (1 i off src)
  note P = "1.prems"
  let ?m = "min (length src) (512 - off mod 512)" and ?V = "view s"
  show ?case
  proof (cases "src = []")
    case True
    have "istep i {} ?V d s s" using istep_fstep [OF fstep_refl [OF inode_readyD(1) [OF P(1)]]] P(4) by simp
    moreover have "writei_loop i off src s = Done () s" using True by (subst writei_loop.simps) simp
    ultimately show ?thesis using True written_nil [OF P(3,2)] room_sub [OF P(7) order_refl, of 0] by blast
  next
    case False
    let ?c = "take ?m src" and ?r = "drop ?m src" and ?o = "off + ?m"
    have lc: "length ?c = ?m" "0 < ?m" using False by simp_all
    have nb: "nblk off (length src) = Suc (nblk ?o (length ?r))" using nblk_step [of "length src" off] False by simp
    have "off < MAXFILE * 512" using False P(5) length_greater_0_conv [of src] by linarith
    then have bn: "off div 512 < MAXFILE" by (simp add: div_less_iff_less_mult)
    have ck: "off mod 512 + length ?c \<le> 512" "?c \<noteq> []" using chunk_le [of off "length src"] lc by auto
    have lim: "missing d < nfree ?V (sb s)" "missing d + 1 < n" using P(6,10) unfolding nb by linarith+
    from write_chunk [OF P(1-4) bn ck lim(1) P(7-9) lim(2)] obtain a t j u w v W e where
      t: "bmap i (off div 512) s = Done a t" "bread (log_dev s) a t = Done j u"
        "kseq (mod_data j (patch (off mod 512) ?c)) (log_write j) u = Done () w" "brelse j w = Done () v"
        "written s off ?c ?V d W e" "nfree ?V (sb s) + missing e \<le> nfree W (sb s) + missing d + 1"
        "istep i ({bmap_blk s, a} \<union> ({ind_of e} - {0})) W e s v" "card (insert a ({ind_of e} - {0} - A)) + missing e \<le> 1 + missing d" by blast
    note x = istepD [OF t(7)] and ir = inode_ready_step [OF P(1) t(7)] and we = extendsD(1,2) [OF writtenD(1) [OF t(5)]]
    let ?A = "A \<union> insert a ({ind_of e} - {0} - A)" and ?n = "nblk ?o (length ?r) + missing e + 1"
    have "card (insert a ({ind_of e} - {0} - A)) + ?n \<le> n" using t(8) P(10) unfolding nb by linarith
    then have "room ?A ?n s" by (intro room_more [OF P(7)]) auto
    then have rv: "room ?A ?n v" using P(8) by (intro x(10)) auto
    have nf: "nblk ?o (length ?r) + missing e \<le> nfree W (sb s)" using P(6) t(6) unfolding nb by linarith
    have pre: "bmap_ok (view v) v" "file_wf (view v) e v" "nblk ?o (length ?r) + missing e \<le> nfree (view v) (sb v)" "bmap_blk v \<in> ?A"
      unfolding x(2,3,11) using we file_wf_cong [OF x(3,5)] nf P(8) by blast+
    have "?o + length ?r = off + length src" by simp
    then have lim': "?o + length ?r \<le> MAXFILE * 512" using P(5) by linarith
    have ie: "ind_of e = 0 \<or> ind_of e \<in> ?A" by blast
    obtain z B X f where z: "writei_loop i ?o ?r v = Done () z" "istep i B X f v z" "written v ?o ?r (view v) e X f" "room ?A 0 z"
      using "1.IH" [OF False refl ir(1) pre(1,2) ir(2) [symmetric] lim' pre(3) rv pre(4) ie order_refl] by blast
    have "written s ?o ?r W e X f" using z(3) x(2) written_cong [OF x(3,5)] by simp
    then have "written s off (?c @ ?r) ?V d X f"
      using written_append [OF t(5), of ?r X f] lc(1) P(5) by simp
    then have wr: "written s off src ?V d X f" by simp
    have md: "(\<lambda>v. take (off mod 512) v @ take ?m src @ drop (off mod 512 + ?m) v) = patch (off mod 512) ?c" using lc by simp
    have "kseq (mod_data j (patch (off mod 512) ?c)) (kseq (log_write j) (kseq (brelse j) (writei_loop i ?o ?r))) u = Done () z"
      unfolding kseq_assoc [of "mod_data j (patch (off mod 512) ?c)", symmetric] by (simp only: kseq_exec(1) t(3,4) z(1))
    then have "writei_loop i off src s = Done () z"
      using False inode_readyD(4) [OF P(1)] t(1,2)
      by (subst writei_loop.simps) (simp only: Let_def md kapply kbind_exec(1) if_False simp_thms)
    then show ?thesis using istep_trans [OF t(7) z(2)] wr room_sub [OF z(4), of A 0] by blast
  qed
qed

section \<open>The contents of a file\<close>

abbreviation din :: "nat \<Rightarrow> 'z fs_state_scheme \<Rightarrow> dinode" where
  "din i s \<equiv> i_din (icache s ! i)"

abbreviation inode_blk :: "nat \<Rightarrow> 'z fs_state_scheme \<Rightarrow> uint" where
  "inode_blk i s \<equiv> IBLOCK (i_inum (icache s ! i)) (sb s)"

abbreviation inode_slot :: "nat \<Rightarrow> 'z fs_state_scheme \<Rightarrow> nat" where
  "inode_slot i s \<equiv> unat (i_inum (icache s ! i)) mod IPB"

text \<open>The bytes of the file.\<close>

definition fdata :: "nat \<Rightarrow> 'z fs_state_scheme \<Rightarrow> byte list" where
  "fdata i s = map (fbyte (view s) (din i s)) [0..<unat (di_size (din i s))]"

text \<open>
  The invariant of a file: it is well-formed, has no holes, and its inode on disk, which is in a block
  of its own kind, is the one in memory.
\<close>

definition file_ok :: "nat \<Rightarrow> 'z fs_state_scheme \<Rightarrow> bool" where
  "file_ok i s \<longleftrightarrow> bmap_ok (view s) s \<and> file_wf (view s) (din i s) s \<and>
     (\<forall>p < unat (di_size (din i s)). addr_of (view s) (din i s) (p div 512) \<noteq> 0) \<and>
     unat (di_size (din i s)) \<le> MAXFILE * 512 \<and>
     inode_blk i s < FSSIZE \<and> inode_blk i s \<notin> log_area s \<and> inode_blk i s \<noteq> bmap_blk s \<and>
     \<not> is_free (view s) (sb s) (inode_blk i s) \<and> inode_blk i s \<notin> file_blocks (view s) (din i s) \<and>
     get_dinode (view s (inode_blk i s)) (inode_slot i s) = din i s"

lemma file_okD:
  assumes "file_ok i s"
  shows "bmap_ok (view s) s" "file_wf (view s) (din i s) s"
    "p < unat (di_size (din i s)) \<Longrightarrow> addr_of (view s) (din i s) (p div 512) \<noteq> 0" "unat (di_size (din i s)) \<le> MAXFILE * 512"
    "inode_blk i s < FSSIZE" "inode_blk i s \<notin> log_area s" "inode_blk i s \<noteq> bmap_blk s"
    "\<not> is_free (view s) (sb s) (inode_blk i s)" "inode_blk i s \<notin> file_blocks (view s) (din i s)"
    "get_dinode (view s (inode_blk i s)) (inode_slot i s) = din i s"
  using assms unfolding file_ok_def by blast+

lemma iupdate_spec:
  assumes "inode_ready i s" and "inode_blk i s < FSSIZE" and "inode_blk i s \<notin> log_area s" and "room {inode_blk i s} 0 s"
  shows "\<exists>t. iupdate i s = Done () t \<and>
    fstep {inode_blk i s} ((view s)(inode_blk i s := put_dinode (view s (inode_blk i s)) (inode_slot i s) (din i s))) s t"
proof -
  note r = inode_readyD [OF assms(1)]
  let ?f = "\<lambda>v. put_dinode v (inode_slot i s) (din i s)"
  obtain j u where u: "bread (log_dev s) (inode_blk i s) s = Done j u"
      "\<forall>f. \<exists>w t. kseq (mod_data j f) (log_write j) u = Done () w \<and> brelse j w = Done () t \<and>
        fstep {inode_blk i s} ((view s)(inode_blk i s := f (view s (inode_blk i s)))) s t"
    using edit_blk [OF r(1) assms(2) r(2) assms(4,3)] by blast
  then obtain w t where t: "kseq (mod_data j ?f) (log_write j) u = Done () w" "brelse j w = Done () t"
        "fstep {inode_blk i s} ((view s)(inode_blk i s := ?f (view s (inode_blk i s)))) s t" by blast
  have "kseq (mod_data j ?f) (kseq (log_write j) (brelse j)) u = Done () t"
    unfolding kseq_assoc [symmetric] by (simp only: kseq_exec(1) t(1,2))
  then have "iupdate i s = Done () t" using r(4) u(1) by (simp add: iupdate_def kapply)
  with t(3) show ?thesis by blast
qed

text \<open>The size does not matter for where the blocks are.\<close>

lemma set_size [simp]:
  "ind_of (d\<lparr>di_size := n\<rparr>) = ind_of d" "addr_of V (d\<lparr>di_size := n\<rparr>) bn = addr_of V d bn"
  "file_blocks V (d\<lparr>di_size := n\<rparr>) = file_blocks V d" "file_wf V (d\<lparr>di_size := n\<rparr>) s = file_wf V d s"
  "fbyte V (d\<lparr>di_size := n\<rparr>) p = fbyte V d p"
  by (simp_all add: ind_of_def addr_of_def file_blocks_def file_wf_def fbyte_def)

text \<open>A block that is not one of the file's may change without changing the file.\<close>

lemma other_block:
  assumes "b \<notin> file_blocks V d" and "b \<noteq> sb_bmapstart p"
  shows "bn < MAXFILE \<Longrightarrow> addr_of (V(b := v)) d bn = addr_of V d bn" "file_blocks (V(b := v)) d = file_blocks V d"
    "is_free (V(b := v)) p c = is_free V p c" "q < MAXFILE * 512 \<Longrightarrow> fbyte (V(b := v)) d q = fbyte V d q"
proof -
  show a: "addr_of (V(b := v)) d bn = addr_of V d bn" for bn
    using assms(1) file_blocksI(1) [of d V] by (auto simp: addr_of_def)
  show "file_blocks (V(b := v)) d = file_blocks V d" by (simp add: file_blocks_def a)
  show "is_free (V(b := v)) p c = is_free V p c" using assms(2) by (simp add: is_free_def)
  assume "q < MAXFILE * 512"
  then have "q div 512 < MAXFILE" by (simp add: div_less_iff_less_mult)
  then show "fbyte (V(b := v)) d q = fbyte V d q"
    using assms(1) file_blocksI(2) [of "q div 512" V d] by (auto simp: fbyte_def Let_def a)
qed

text \<open>The list of bytes after a write.\<close>

lemma overwrite:
  assumes "o' \<le> n" and "\<And>p. p < max n (o' + length src) \<Longrightarrow> g p = (if o' \<le> p \<and> p < o' + length src then src ! (p - o') else f p)"
  shows "map g [0..<max n (o' + length src)] = take o' (map f [0..<n]) @ src @ drop (o' + length src) (map f [0..<n])"
proof (rule nth_equalityI)
  show "length (map g [0..<max n (o' + length src)]) = length (take o' (map f [0..<n]) @ src @ drop (o' + length src) (map f [0..<n]))"
    using assms(1) by auto
  fix k assume "k < length (map g [0..<max n (o' + length src)])"
  then have k: "k < max n (o' + length src)" by simp
  consider "k < o'" | "o' \<le> k" "k < o' + length src" | "o' + length src \<le> k" by linarith
  then show "map g [0..<max n (o' + length src)] ! k = (take o' (map f [0..<n]) @ src @ drop (o' + length src) (map f [0..<n])) ! k"
    using k assms by cases (auto simp: nth_append)
qed

section \<open>The whole write\<close>

lemma small_word:
  "n \<le> MAXFILE * 512 \<Longrightarrow> unat (of_nat n :: uint) = n" "unat (w :: uint) \<le> MAXFILE * 512 \<Longrightarrow> sint w = int (unat w)"
  by (simp_all add: MAXFILE_def NDIRECT_def NINDIRECT_def unat_of_nat sint_nonneg)

lemma add_small:
  assumes "unat off + n \<le> MAXFILE * 512"
  shows "unat (off + of_nat n :: uint) = unat off + n" "\<not> off + of_nat n < off"
proof -
  have "unat (of_nat n :: uint) = n" using small_word(1) assms by simp
  then show u: "unat (off + of_nat n) = unat off + n"
    using assms by (simp add: unat_word_ariths MAXFILE_def NDIRECT_def NINDIRECT_def)
  then show "\<not> off + of_nat n < off" by (simp add: word_less_nat_alt)
qed

text \<open>The loop of \<open>writei\<close>, with what it needs and what it leaves for the inode's update.\<close>

lemma write_body:
  assumes "inode_ready i s" and "file_ok i s" and "unat off + length src \<le> MAXFILE * 512"
    and "nblk (unat off) (length src) < nfree (view s) (sb s)"
    and "room {bmap_blk s, inode_blk i s, ind_of (din i s)} (nblk (unat off) (length src) + 2) s"
  shows "\<exists>t B W e. writei_loop i (unat off) src s = Done () t \<and> istep i B W e s t \<and>
    written s (unat off) src (view s) (din i s) W e \<and> room {inode_blk i s} 0 t"
proof -
  note f = file_okD [OF assms(2)]
  have m: "missing (din i s) \<le> 1" by (simp add: missing_def)
  from writei_loop_spec [OF assms(1) f(1,2) refl assms(3) _ assms(5)] assms(4) m
  obtain t B W e where t: "writei_loop i (unat off) src s = Done () t" "istep i B W e s t"
      "written s (unat off) src (view s) (din i s) W e" "room {bmap_blk s, inode_blk i s, ind_of (din i s)} 0 t" by auto
  then show ?thesis using room_sub [OF t(4), of "{inode_blk i s}" 0] by blast
qed

text \<open>After the write, with the size and the inode block as \<open>writei\<close> leaves them.\<close>

lemma write_result:
  assumes "file_ok i s" and "written s o' src (view s) (din i s) W e" and "o' \<le> unat (di_size (din i s))" and "o' + length src \<le> MAXFILE * 512"
    and "din i t = e\<lparr>di_size := sz\<rparr>" and "unat sz = max (unat (di_size (din i s))) (o' + length src)"
    and "view t = W(inode_blk i s := v)" and "length v = BSIZE" and "get_dinode v (inode_slot i s) = din i t"
    and "sb t = sb s" and "log_area t = log_area s" and "i_inum (icache t ! i) = i_inum (icache s ! i)"
  shows "file_ok i t" "fdata i t = take o' (fdata i s) @ src @ drop (o' + length src) (fdata i s)"
    "\<not> is_free (view s) (sb s) b \<Longrightarrow> b \<notin> file_blocks (view s) (din i s) \<Longrightarrow> b \<noteq> bmap_blk s \<Longrightarrow> b \<noteq> inode_blk i s \<Longrightarrow> view t b = view s b"
proof -
  note f = file_okD [OF assms(1)] and w = writtenD [OF assms(2)] and x = extendsD [OF writtenD(1) [OF assms(2)]]
  let ?ib = "inode_blk i s"
  have ib: "?ib \<notin> file_blocks W e" using f(8,9) x(5) by blast
  note o = other_block [OF ib f(7)]
  have sz: "unat (di_size (din i s)) \<le> MAXFILE * 512" "unat sz \<le> MAXFILE * 512" using f(4) assms(4,6) by simp_all
  have mx: "p div 512 < MAXFILE" if "p < unat sz" for p using that sz(2) by (simp add: div_less_iff_less_mult)
  have ad: "addr_of W e (p div 512) \<noteq> 0" if p: "p < unat sz" for p
  proof (cases "p < unat (di_size (din i s))")
    case True
    then show ?thesis using f(3) [OF True] x(7) mx [OF p] by simp
  qed (use w(3) [of p] p assms(3,6) in auto)
  have "file_wf (W(?ib := v)) e s" using x(1) o(1-3) by (auto simp: file_wf_def o(2))
  moreover have "bmap_ok (W(?ib := v)) s" using x(2) o(3) assms(8) by (auto simp: bmap_ok_def)
  ultimately show "file_ok i t"
    unfolding file_ok_def assms(5,7,10-12)
    using f(5-8) ib sz(2) ad mx o assms(9) [unfolded assms(5)] x(4) file_wf_cong [OF assms(10,11)] assms(10,11) by (auto simp: bmap_ok_def)
  have "fdata i t = map (fbyte (W(?ib := v)) e) [0..<max (unat (di_size (din i s))) (o' + length src)]"
    by (simp add: fdata_def assms(5,6,7))
  also have "\<dots> = take o' (fdata i s) @ src @ drop (o' + length src) (fdata i s)"
    unfolding fdata_def using sz assms(4,6) by (intro overwrite [OF assms(3)]) (simp add: o(4) w(2))
  finally show "fdata i t = take o' (fdata i s) @ src @ drop (o' + length src) (fdata i s)" .
  show "view t b = view s b" if "\<not> is_free (view s) (sb s) b" "b \<notin> file_blocks (view s) (din i s)" "b \<noteq> bmap_blk s" "b \<noteq> ?ib"
    using x(6) [OF that(1-3)] that(4) by (simp add: assms(7))
qed

text \<open>What a write of \<open>src\<close> at \<open>o'\<close> leaves.\<close>

definition overwritten :: "nat \<Rightarrow> nat \<Rightarrow> byte list \<Rightarrow> 'z fs_state_scheme \<Rightarrow> 'z fs_state_scheme \<Rightarrow> bool" where
  "overwritten i o' src s t \<longleftrightarrow> inode_ready i t \<and> file_ok i t \<and>
     fdata i t = take o' (fdata i s) @ src @ drop (o' + length src) (fdata i s) \<and>
     (\<forall>b. view t b = view s b \<or> is_free (view s) (sb s) b \<or> b \<in> file_blocks (view s) (din i s) \<or> b = bmap_blk s \<or> b = inode_blk i s) \<and>
     (\<forall>k. get_dinode (view t (inode_blk i s)) k = get_dinode (view s (inode_blk i s)) k \<or> k = inode_slot i s) \<and> disk t = disk s"

lemma overwrittenI:
  assumes "file_ok i s" and "written s o' src (view s) (din i s) W e" and "o' \<le> unat (di_size (din i s))" and "o' + length src \<le> MAXFILE * 512"
    and "din i t = e\<lparr>di_size := sz\<rparr>" and "unat sz = max (unat (di_size (din i s))) (o' + length src)"
    and "view t = W(inode_blk i s := v)" and "length v = BSIZE" and "get_dinode v (inode_slot i s) = din i t"
    and "sb t = sb s" and "log_area t = log_area s" and "i_inum (icache t ! i) = i_inum (icache s ! i)"
    and "inode_ready i t" and "disk t = disk s" and "\<And>k. k \<noteq> inode_slot i s \<Longrightarrow> get_dinode v k = get_dinode (view s (inode_blk i s)) k"
  shows "overwritten i o' src s t"
proof -
  note R = write_result [OF assms(1-12)]
  have "view t (inode_blk i s) = v" by (simp add: assms(7))
  then show ?thesis unfolding overwritten_def using R assms(13-15) by metis
qed

lemma written_inode_blk:
  assumes "file_ok i s" and "written s o' src (view s) (din i s) W e"
  shows "W (inode_blk i s) = view s (inode_blk i s)" "di_size e = di_size (din i s)" "length (di_addrs e) = 13"
    "length (W (inode_blk i s)) = 512"
proof -
  note f = file_okD [OF assms(1)] and w = extendsD [OF writtenD(1) [OF assms(2)]]
  show "W (inode_blk i s) = view s (inode_blk i s)" using w(6) [OF f(8,9,7)] .
  show "di_size e = di_size (din i s)" using w(3) by (metis dinode.select_convs(5) dinode.surjective dinode.update_convs(6))
  show "length (di_addrs e) = 13" using file_wfD(1) [OF w(1)] by (simp add: NDIRECT_def)
  show "length (W (inode_blk i s)) = 512" using bmap_okD(5) [OF w(2)] by (simp add: BSIZE_def)
qed

lemma slot_bound: "64 * (n mod IPB) + 64 \<le> 512"
proof -
  have "n mod 8 < 8" by simp
  then show ?thesis unfolding IPB_def by linarith
qed

lemma write_grows:
  assumes "inode_ready i s" and "file_ok i s" and "o' \<le> unat (di_size (din i s))" and "o' + length src \<le> MAXFILE * 512"
    and "istep i B W e s t" and "written s o' src (view s) (din i s) W e" and "room {inode_blk i s} 0 t"
    and "unat sz = o' + length src" and "unat (di_size (din i s)) < o' + length src"
  shows "\<exists>v. kseq (kmod (upd_din i (\<lambda>d. d\<lparr>di_size := sz\<rparr>))) (iupdate i) t = Done () v \<and> overwritten i o' src s v"
proof -
  let ?ib = "inode_blk i s" and ?e = "e\<lparr>di_size := sz\<rparr>" and ?u = "upd_din i (\<lambda>d. d\<lparr>di_size := sz\<rparr>) t"
  let ?v = "put_dinode (W ?ib) (inode_slot i s) ?e"
  note f = file_okD [OF assms(2)] and x = istepD [OF assms(5)] and ir = inode_ready_step [OF assms(1,5)]
    and wi = written_inode_blk [OF assms(2,6)]
  have "?u = upd_din i (\<lambda>_. ?e) t" using ir(2) by (simp add: upd_inode_def)
  then have u: "istep i {} W ?e t ?u" using istep_set [OF x(1), of i ?e] x(2) by simp
  note xu = istepD [OF u] and iu = inode_ready_step [OF ir(1) u]
  have ibu: "inode_blk i ?u = ?ib" "inode_slot i ?u = inode_slot i s" "din i ?u = ?e" using iu(2,3) ir(3) xu(3) x(3) by simp_all
  have pu: "?ib < FSSIZE" "?ib \<notin> log_area ?u" "room {?ib} 0 ?u" using f(5,6) xu(5) x(5) xu(10) [OF assms(7)] by simp_all
  obtain v where v: "iupdate i ?u = Done () v" "fstep {?ib} (W(?ib := ?v)) ?u v"
    using iupdate_spec [OF iu(1)] pu xu(2) unfolding ibu by auto
  note fv = fstepD [OF v(2)] and gv = fstep_fs [OF v(2)]
  have "overwritten i o' src s v"
  proof (rule overwrittenI [OF assms(2,6,3,4), where sz = sz and v = ?v])
    show "din i v = ?e" "i_inum (icache v ! i) = i_inum (icache s ! i)" using gv(2) iu(2,3) ir(3) by simp_all
    then show "get_dinode ?v (inode_slot i s) = din i v"
      using get_put_dinode [of "inode_slot i s" "W ?ib" ?e] slot_bound wi(3,4) by simp
    show "unat sz = max (unat (di_size (din i s))) (o' + length src)" using assms(8,9) by simp
    show "view v = W(?ib := ?v)" "sb v = sb s" "log_area v = log_area s" using fv(5,8) gv(1) xu(3,5) x(3,5) by simp_all
    show "length ?v = BSIZE" using wi(4) by (simp add: BSIZE_def)
    show "inode_ready i v" using inode_ready_step(1) [OF iu(1) istep_fstep [OF v(2)]] .
    show "disk v = disk s" using fv(11) xu(9) x(9) by simp
    show "get_dinode ?v k = get_dinode (view s ?ib) k" if "k \<noteq> inode_slot i s" for k
      using get_put_dinode_other [OF that, of ?e "W ?ib"] wi(1,3) by simp
  qed
  then show ?thesis using v(1) by (auto simp: kapply)
qed

lemma write_within:
  assumes "inode_ready i s" and "file_ok i s" and "o' + length src \<le> MAXFILE * 512"
    and "istep i B W e s t" and "written s o' src (view s) (din i s) W e" and "o' \<le> unat (di_size (din i s))"
    and "src = [] \<or> o' + length src \<le> unat (di_size (din i s))"
  shows "overwritten i o' src s t"
proof -
  note f = file_okD [OF assms(2)] and x = istepD [OF assms(4)] and ir = inode_ready_step [OF assms(1,4)]
    and wi = written_inode_blk [OF assms(2,5)]
  have e: "e = din i s" by (rule writtenD(4) [OF assms(5)]) (use f(3) assms(7) in fastforce)
  show ?thesis
  proof (rule overwrittenI [OF assms(2,5,6,3), where sz = "di_size (din i s)" and v = "view s (inode_blk i s)"])
    show "din i t = e\<lparr>di_size := di_size (din i s)\<rparr>" "get_dinode (view s (inode_blk i s)) (inode_slot i s) = din i t"
      using ir(2) e f(10) by simp_all
    show "view t = W(inode_blk i s := view s (inode_blk i s))" using x(2) wi(1) by (simp add: fun_eq_iff)
    show "unat (di_size (din i s)) = max (unat (di_size (din i s))) (o' + length src)" using assms(6,7) by auto
  qed (use x(3,5,9) ir(1,3) bmap_okD(5) [OF f(1)] in simp_all)
qed

section \<open>A small file system\<close>

text \<open>
  A disk with the blocks up to 63 in use and an empty file with inode 1, in a transaction that has
  not written anything yet.
\<close>

definition demo_din :: dinode where
  "demo_din = \<lparr>di_type = T_FILE, di_major = 0, di_minor = 0, di_nlink = 1, di_size = 0, di_addrs = replicate 13 0\<rparr>"

definition demo_sb :: superblock where
  "demo_sb = \<lparr>sb_size = 1000, sb_nblocks = 941, sb_ninodes = 200, sb_nlog = 30, sb_logstart = 2, sb_inodestart = 32, sb_bmapstart = 58\<rparr>"

definition demo_disk :: "uint \<Rightarrow> block" where
  "demo_disk b = (if b = 1 then put_sb (replicate BSIZE 0) demo_sb
     else if b = 32 then put_dinode (replicate BSIZE 0) 1 demo_din
     else if b = 58 then replicate 8 (- 1) @ replicate 504 0 else replicate BSIZE 0)"

definition demo_fs :: fs_state where
  "demo_fs = log_state.extend (disk_state.extend
     (boot_disk_state\<lparr>bufs := replicate NBUF \<lparr>b_busy = False, b_valid = False, b_dirty = False, b_dev = - 1, b_blockno = 0,
        b_data = replicate BSIZE 0\<rparr>, lru := [0..<NBUF], disk := (\<lambda>_. demo_disk)\<rparr>)
     \<lparr>log_start = 2, log_size = 30, log_outstanding = 1, log_committing = False, log_dev = 1, lh_n = 0, lh_block = replicate 30 0\<rparr>)
     \<lparr>sb = demo_sb, icache = [\<lparr>i_dev = 1, i_inum = 1, i_ref = 1, i_busy = True, i_valid = True, i_din = demo_din\<rparr>]\<rparr>"

definition no_devs :: "fs_state devsw" where
  "no_devs n = \<lparr>dev_read = None, dev_write = None\<rparr>"

lemma demo_fields:
  "held demo_fs = {}" "curproc demo_fs = Some 0" "idequeue demo_fs = []" "havedisk1 demo_fs" "disk demo_fs = (\<lambda>_. demo_disk)"
  "lru demo_fs = [0..<NBUF]" "log_start demo_fs = 2" "log_size demo_fs = 30" "log_dev demo_fs = 1" "lh_n demo_fs = 0"
  "lh_block demo_fs = replicate 30 0" "log_outstanding demo_fs = 1" "sb demo_fs = demo_sb"
  "icache demo_fs = [\<lparr>i_dev = 1, i_inum = 1, i_ref = 1, i_busy = True, i_valid = True, i_din = demo_din\<rparr>]"
  "bufs demo_fs = replicate NBUF \<lparr>b_busy = False, b_valid = False, b_dirty = False, b_dev = - 1, b_blockno = 0, b_data = replicate BSIZE 0\<rparr>"
  by (simp_all add: demo_fs_def boot_disk_state_def log_state.defs disk_state.defs kmem_state.defs bare_kstate_def)

lemma demo_txn: "txn demo_fs" "busy demo_fs = {}" "view demo_fs = demo_disk" "lh_blocks demo_fs = []" "log_area demo_fs = {b. 2 \<le> unat b \<and> unat b < 32}"
proof -
  show b: "busy demo_fs = {}" "lh_blocks demo_fs = []" "log_area demo_fs = {b. 2 \<le> unat b \<and> unat b < 32}"
    by (auto simp: busy_def lh_blocks_def log_area_def demo_fields)
  show "txn demo_fs"
    by (simp add: txn_def bio_ok_def quiet_def log_geom_def lh_ok_def pinned_def home_pins_def b(2) demo_fields buf_ok_def
        LOGSIZE_def MAXOPBLOCKS_def FSSIZE_def atLeast0LessThan) auto
  show "view demo_fs = demo_disk" by (auto simp: view_def cview_def fun_eq_iff find_None_iff demo_fields split: option.split dest!: find_SomeD)
qed

lemma demo_bitmap: "is_free demo_disk demo_sb b \<longleftrightarrow> b < 1000 \<and> 64 \<le> unat b"
proof -
  have "bit ((replicate 8 (- 1) @ replicate 504 0) ! (unat b div 8) :: byte) (unat b mod 8) \<longleftrightarrow> unat b < 64" if "unat b < 1000"
    using that by (auto simp: nth_append)
  then show ?thesis by (auto simp: is_free_def demo_sb_def demo_disk_def bit_used_bit word_less_nat_alt)
qed

lemma demo_bmap_ok: "bmap_ok (view demo_fs) demo_fs"
  by (auto simp: bmap_ok_def demo_txn demo_fields demo_bitmap)
    (auto simp: demo_sb_def FSSIZE_def demo_disk_def BSIZE_def put_sb_def)

lemma demo_file: "inode_ready 0 demo_fs" "file_ok 0 demo_fs" "fdata 0 demo_fs = []"
proof -
  show "inode_ready 0 demo_fs" by (simp add: inode_ready_def demo_txn idle_blk_def demo_fields)
  show "fdata 0 demo_fs = []" by (simp add: fdata_def demo_fields demo_din_def)
  have d: "ind_of demo_din = 0" "addr_of V demo_din bn = 0" for V bn
    by (simp_all add: ind_of_def addr_of_def demo_din_def NDIRECT_def)
  have ib: "inode_blk 0 demo_fs = 32" "inode_slot 0 demo_fs = 1" by (simp_all add: demo_fields IBLOCK_def IPB_def demo_sb_def)
  have g: "get_dinode (demo_disk 32) 1 = demo_din"
    by (simp add: demo_disk_def get_put_dinode BSIZE_def demo_din_def)
  have "file_wf demo_disk demo_din demo_fs" by (auto simp: file_wf_def file_blocks_def d) (simp add: demo_din_def NDIRECT_def)
  then show "file_ok 0 demo_fs"
    unfolding file_ok_def ib using demo_bmap_ok g
    by (simp add: demo_txn demo_fields demo_bitmap file_blocks_def d) (simp add: demo_din_def demo_sb_def FSSIZE_def)
qed

lemma demo_room: "finite A \<Longrightarrow> card A + n \<le> 28 \<Longrightarrow> room A n demo_fs"
  by (simp add: room_def demo_txn demo_fields NBUF_def)

lemma demo_nfree: "1 < nfree (view demo_fs) (sb demo_fs)"
proof -
  have "{64, 65} \<subseteq> {b. is_free (view demo_fs) (sb demo_fs) b}" by (simp add: demo_txn demo_fields demo_bitmap)
  then have "card {64::uint, 65} \<le> nfree (view demo_fs) (sb demo_fs)" unfolding nfree_def by (intro card_mono) simp_all
  then show ?thesis by simp
qed

section \<open>Correctness of reading, writing and allocating\<close>

text \<open>C2: Writing a file is overwriting its bytes. For a regular file in good order, a write of \<open>src\<close> at an
  offset up to its size that keeps within the largest file, with enough free blocks and room in the
  log, returns the number of bytes and replaces exactly the bytes from that offset on by \<open>src\<close>,
  lengthening the file as needed, whether it goes through direct or indirect addresses and
  existing or newly allocated blocks. The file is in good order again, no used block but the file's
  own, the bitmap and the inode's block changes, no other inode of that block does, and nothing is
  written to disk before the commit.\<close>

theorem writei_updates:
  assumes "inode_ready i s" and "file_ok i s" and "di_type (din i s) \<noteq> T_DEV" and "off \<le> di_size (din i s)"
    and "unat off + length src \<le> MAXFILE * BSIZE" and "nblk (unat off) (length src) < nfree (view s) (sb s)"
    and "room {bmap_blk s, inode_blk i s, ind_of (din i s)} (nblk (unat off) (length src) + 2) s"
  shows "\<exists>t. writei devsw i src off s = Done (int (length src)) t \<and> inode_ready i t \<and> file_ok i t \<and>
    fdata i t = take (unat off) (fdata i s) @ src @ drop (unat off + length src) (fdata i s) \<and>
    (\<forall>b. view t b = view s b \<or> is_free (view s) (sb s) b \<or> b \<in> file_blocks (view s) (din i s) \<or> b = bmap_blk s \<or> b = inode_blk i s) \<and>
    (\<forall>k. get_dinode (view t (inode_blk i s)) k = get_dinode (view s (inode_blk i s)) k \<or> k = inode_slot i s) \<and> disk t = disk s"
proof -
  let ?d = "din i s" and ?n = "of_nat (length src) :: uint" and ?o = "unat off"
  have lim: "?o + length src \<le> MAXFILE * 512" using assms(5) by (simp add: BSIZE_def)
  note as = add_small [OF lim]
  have os: "?o \<le> unat (di_size ?d)" using assms(4) by (simp add: word_le_nat_alt)
  from write_body [OF assms(1,2) lim assms(6,7)] obtain t B W e where t: "writei_loop i ?o src s = Done () t" "istep i B W e s t"
      "written s ?o src (view s) ?d W e" "room {inode_blk i s} 0 t" by blast
  have es: "di_size (din i t) = di_size ?d"
    using written_inode_blk(2) [OF assms(2) t(3)] inode_ready_step(2) [OF assms(1) t(2)] by simp
  have n: "unat ?n = length src" "sint ?n = int (length src)" using small_word(1) [of "length src"] small_word(2) [of ?n] lim by simp_all
  have "\<not> off > di_size ?d" "\<not> off + ?n > of_nat (MAXFILE * BSIZE)"
    using os as(1) lim small_word(1) [of "MAXFILE * 512"] by (auto simp: word_less_nat_alt BSIZE_def)
  then have ex: "writei devsw i src off s = kseq (if ?n > 0 \<and> off + ?n > di_size ?d
      then kseq (kmod (upd_din i (\<lambda>d. d\<lparr>di_size := off + ?n\<rparr>))) (iupdate i) else kret ()) (kret (int (length src))) t"
    using assms(3) as(2) t(1) es n(2) by (simp only: writei_def kapply Let_def if_False simp_thms kseq_exec(1) es n(2))
  have "\<exists>v. writei devsw i src off s = Done (int (length src)) v \<and> overwritten i ?o src s v"
  proof (cases "?n > 0 \<and> off + ?n > di_size ?d")
    case True
    then have "unat (di_size ?d) < ?o + length src" using as(1) by (simp add: word_less_nat_alt)
    with True write_grows [OF assms(1,2) os lim t(2,3,4) as(1)] show ?thesis unfolding ex by (auto simp: word_less_nat_alt as(1))
  next
    case False
    then have "src = [] \<or> ?o + length src \<le> unat (di_size ?d)" using as(1) n(1) by (auto simp: word_less_nat_alt not_less)
    with False write_within [OF assms(1,2) lim t(2,3) os] show ?thesis unfolding ex by auto
  qed
  then show ?thesis unfolding overwritten_def .
qed

theorem writei_updates_witness:
  "\<exists>t. writei no_devs 0 [1, 2, 3] 0 demo_fs = Done 3 t \<and> fdata 0 t = [1, 2, 3]"
proof -
  have "nblk (unat (0::uint)) (length [1, 2, 3::byte]) = 1" by (simp add: nblk_def)
  moreover have "card {bmap_blk demo_fs, inode_blk 0 demo_fs, ind_of (din 0 demo_fs)} \<le> 3" by (rule card_insert_le_m1; simp)+
  ultimately have "nblk (unat (0::uint)) (length [1, 2, 3::byte]) < nfree (view demo_fs) (sb demo_fs)"
      "room {bmap_blk demo_fs, inode_blk 0 demo_fs, ind_of (din 0 demo_fs)} (nblk (unat (0::uint)) (length [1, 2, 3::byte]) + 2) demo_fs"
    using demo_nfree by (simp_all add: demo_room)
  from writei_updates [OF demo_file(1,2) _ _ _ this, of no_devs] show ?thesis
    by (simp add: demo_fields demo_din_def T_FILE_def T_DEV_def MAXFILE_def NDIRECT_def BSIZE_def demo_file(3)) blast
qed

text \<open>C12: Reading a file is taking its bytes. For a regular file in good order, a read of \<open>n\<close> bytes at an
  offset up to its size returns the bytes from there on, at most \<open>n\<close> and at most to the end of the
  file, together with their number, through direct and indirect addresses alike; it changes no
  block, logs nothing and writes nothing to disk.\<close>

theorem readi_reads:
  assumes "inode_ready i s" and "file_ok i s" and "di_type (din i s) \<noteq> T_DEV" and "off \<le> di_size (din i s)"
    and "unat off + unat n < 2 ^ 32" and "room {} 0 s"
  shows "\<exists>v t. readi devsw i off n s = Done (int (length v), v) t \<and> v = take (unat n) (drop (unat off) (fdata i s)) \<and>
    view t = view s \<and> fdata i t = fdata i s \<and> set (lh_blocks t) \<subseteq> set (lh_blocks s) \<and> disk t = disk s \<and> inode_ready i t \<and> file_ok i t"
proof -
  let ?d = "din i s" and ?o = "unat off"
  note f = file_okD [OF assms(2)]
  have un: "unat (off + n) = ?o + unat n" using assms(5) by (simp add: unat_word_ariths)
  have os: "?o \<le> unat (di_size ?d)" using assms(4) by (simp add: word_le_nat_alt)
  define m where "m = (if off + n > di_size ?d then di_size ?d - off else n)"
  have um: "unat m = min (unat n) (unat (di_size ?d) - ?o)"
    using un os assms(4) by (auto simp: m_def word_less_nat_alt unat_sub word_le_nat_alt)
  have lim: "?o + unat m \<le> unat (di_size ?d)" "?o + unat m \<le> MAXFILE * 512" using um os f(4) by auto
  have "addr_of (view s) ?d (p div 512) \<noteq> 0" if "?o \<le> p" "p < ?o + unat m" for p using f(3) that lim(1) by simp
  from readi_loop_spec [OF assms(1) f(1,2) refl lim(2) this assms(6)] obtain t where
    t: "readi_loop i ?o (unat m) s = Done (map (fbyte (view s) ?d) [?o..<?o + unat m]) t" "fstep {} (view s) s t" by blast
  let ?v = "map (fbyte (view s) ?d) [?o..<?o + unat m]"
  note ft = fstepD [OF t(2)] and gt = fstep_fs [OF t(2)]
  have v: "?v = take (unat n) (drop ?o (fdata i s))"
    using lim(1) um by (simp add: fdata_def drop_map take_map drop_upt take_upt) (simp add: min_def)
  have "sint m = int (length ?v)" using small_word(2) [of m] lim(2) by simp
  moreover have "\<not> off > di_size ?d" "\<not> off + n < off" using os un by (simp_all add: word_less_nat_alt)
  ultimately have "readi devsw i off n s = Done (int (length ?v), ?v) t"
    using assms(3) t(1) by (simp add: readi_def kapply flip: m_def)
  moreover have "fdata i t = fdata i s" "inode_ready i t" "file_ok i t"
    using assms(1,2) ft gt by (simp_all add: fdata_def inode_ready_def file_ok_def bmap_ok_def file_wf_def)
  ultimately show ?thesis using v ft(5,6,11) by auto
qed

theorem readi_reads_witness:
  "\<exists>t. readi no_devs 0 0 5 demo_fs = Done (0, []) t \<and> file_ok 0 t"
  using readi_reads [OF demo_file(1,2), of 0 5 no_devs]
  by (simp add: demo_room demo_file(3)) (auto simp: demo_fields demo_din_def T_FILE_def T_DEV_def)

text \<open>C11: Allocating a disk block. When there is a free block, and room for it and the bitmap in the
  log, \<open>balloc\<close> returns a block that was free; that block is then used and filled with zeros, every
  other block stays as free or as used as it was, and no block but this one and the bitmap changes.\<close>

theorem balloc_fresh:
  assumes "txn s" and "\<forall>b. idle_blk b s" and "bmap_ok (view s) s" and "0 < nfree (view s) (sb s)" and "room {bmap_blk s} 1 s"
  shows "\<exists>b t. balloc (log_dev s) s = Done b t \<and> txn t \<and> bmap_ok (view t) t \<and> is_free (view s) (sb s) b \<and>
    (\<forall>c. is_free (view t) (sb t) c \<longleftrightarrow> is_free (view s) (sb s) c \<and> c \<noteq> b) \<and>
    view t b = replicate BSIZE 0 \<and> (\<forall>c. view t c = view s c \<or> c = b \<or> c = bmap_blk s) \<and> disk t = disk s"
proof -
  obtain a where "is_free (view s) (sb s) a" using nfree_ex [OF assms(4)] by blast
  then obtain b t where t: "balloc (log_dev s) s = Done b t" "is_free (view s) (sb s) b" "fstep {bmap_blk s, b} (taken (sb s) b (view s)) s t"
    using balloc_spec [OF assms(1,3) _ _ _ assms(5), of a] assms(2) by (simp (no_asm_use)) blast
  note f = fstepD [OF t(3)] and g = fstep_fs [OF t(3)]
  have "bmap_ok (view t) t" using taken_ok [OF assms(3) t(2)] f(5,8) g(1) by (simp add: bmap_ok_def)
  moreover have "is_free (view t) (sb t) c \<longleftrightarrow> is_free (view s) (sb s) c \<and> c \<noteq> b" for c
    using taken_free [OF assms(3) t(2)] f(5) g(1) by auto
  moreover have "view t b = replicate BSIZE 0" "view t c = view s c \<or> c = b \<or> c = bmap_blk s" for c
    using f(5) by (auto simp: taken_def)
  ultimately show ?thesis using t(1,2) f(1,11) by blast
qed

theorem balloc_fresh_witness:
  "\<exists>b t. balloc 1 demo_fs = Done b t \<and> 64 \<le> unat b \<and> view t b = replicate BSIZE 0"
proof -
  have "0 < nfree (view demo_fs) (sb demo_fs)" using demo_nfree by linarith
  from balloc_fresh [OF demo_txn(1) _ demo_bmap_ok this] inode_readyD(2) [OF demo_file(1)] show ?thesis
    by (simp add: demo_room) (auto simp: demo_txn demo_fields demo_bitmap)
qed

lemma set_free_used:
  assumes "j div 8 < length v" and "\<not> bit_used v j"
  shows "set_free j (set_used j v) = v"
proof -
  have "(v ! (j div 8) OR bit_mask j) AND NOT (bit_mask j) = v ! (j div 8)"
    using assms(2) by (intro bit_word_eqI) (auto simp: bit_simps bit_mask_bit bit_used_bit)
  then show ?thesis using assms(1) by (simp add: set_free_def set_used_def list_update_overwrite)
qed

text \<open>\<open>bfree\<close> up to the test of the bit.\<close>

lemma bfree_exec:
  assumes "txn s" and "\<forall>b. idle_blk b s" and "bmap_ok (view s) s" and "get_sb (view s 1) = sb s" and "b < sb_size (sb s)"
    and "room {bmap_blk s} 0 s"
  shows "\<exists>i u x. fstep {} (view s) s u \<and> b_data (bufs x ! i) = view s (bmap_blk s) \<and>
    bfree (log_dev s) b s = kseq (kpanic_if (\<lambda>s. \<not> bit_used (b_data (bufs s ! i)) (unat b)) ''freeing free block'')
      (kseq (mod_data i (set_free (unat b))) (kseq (log_write i) (brelse i))) x \<and>
    (\<forall>f. \<exists>w t. kseq (mod_data i f) (log_write i) x = Done () w \<and> brelse i w = Done () t \<and>
         fstep {bmap_blk s} ((view s)(bmap_blk s := f (view s (bmap_blk s)))) u t)"
proof -
  let ?bm = "bmap_blk s" and ?b = "unat b"
  note g = bmap_okD [OF assms(3)]
  have bF: "unat b < 1000" using assms(5) g(2) by (simp add: FSSIZE_def word_less_nat_alt word_le_nat_alt)
  then have "b div 4096 = 0" by (simp add: word_unat_eq_iff unat_div_distrib)
  with bF have bb: "BBLOCK b (sb s) = ?bm" "?b mod BPB = ?b" by (simp_all add: BBLOCK_def BPB_def)
  have "(1::uint) < FSSIZE" by (simp add: FSSIZE_def)
  from read_blk [OF assms(1) this _ assms(6)] assms(2) obtain k w u where u: "bread (log_dev s) 1 s = Done k w"
      "b_data (bufs w ! k) = view s 1" "brelse k w = Done () u" "fstep {} (view s) s u" by blast
  note fu = fstepD [OF u(4)] and gu = fstep_fs [OF u(4)]
  have rs: "readsb (log_dev s) s = Done (sb s) u" using u(1-3) assms(4) by (simp add: readsb_def kapply)
  have su: "u\<lparr>sb := sb s\<rparr> = u" using gu(1) by simp
  have rm: "room {?bm} 0 u" using room_step [OF assms(6) u(4)] by simp
  have pu: "idle_blk ?bm u" "?bm \<notin> log_area u" using assms(2) fu(8,10) g(4) by simp_all
  from edit_blk [OF fu(1) g(3) pu(1) rm pu(2)] obtain i x where x: "bread (log_dev u) ?bm u = Done i x" "b_data (bufs x ! i) = view u ?bm"
      "\<forall>f. \<exists>w t. kseq (mod_data i f) (log_write i) x = Done () w \<and> brelse i w = Done () t \<and>
         fstep {?bm} ((view u)(?bm := f (view u ?bm))) u t" by blast
  have "bfree (log_dev s) b s = kseq (kpanic_if (\<lambda>s. \<not> bit_used (b_data (bufs s ! i)) ?b) ''freeing free block'')
      (kseq (mod_data i (set_free ?b)) (kseq (log_write i) (brelse i))) x"
    unfolding bfree_def using rs x(1) fu(7) by (simp only: kbind_exec(1) kapply su bb Let_def)
  then show ?thesis using u(4) x(2,3) fu(5) by auto
qed

text \<open>C24: Freeing a disk block. \<open>bfree\<close> of a block that is free already panics; for a used block it
  returns, the block is then free, every other block stays as free or as used as it was, and no block
  but the bitmap changes; freeing the block that has just been allocated gives back the old bitmap.\<close>

theorem bfree_frees:
  assumes "txn s" and "\<forall>b. idle_blk b s" and "bmap_ok (view s) s" and "get_sb (view s 1) = sb s" and "b < sb_size (sb s)"
    and "room {bmap_blk s} 0 s"
  shows "if is_free (view s) (sb s) b then bfree (log_dev s) b s = Panic ''freeing free block''
    else \<exists>t. bfree (log_dev s) b s = Done () t \<and> txn t \<and> sb t = sb s \<and> disk t = disk s \<and>
      (\<forall>c. is_free (view t) (sb t) c \<longleftrightarrow> is_free (view s) (sb s) c \<or> c = b) \<and>
      (\<forall>c. view t c = view s c \<or> c = bmap_blk s) \<and>
      (\<forall>v. view s (bmap_blk s) = set_used (unat b) v \<and> length v = BSIZE \<and> \<not> bit_used v (unat b) \<longrightarrow> view t (bmap_blk s) = v)"
proof -
  let ?bm = "bmap_blk s" and ?b = "unat b"
  note g = bmap_okD [OF assms(3)]
  have bF: "b < FSSIZE" using assms(5) g(2) by simp
  from bfree_exec [OF assms] obtain i u x where x: "fstep {} (view s) s u" "b_data (bufs x ! i) = view s ?bm"
      "bfree (log_dev s) b s = kseq (kpanic_if (\<lambda>s. \<not> bit_used (b_data (bufs s ! i)) ?b) ''freeing free block'')
        (kseq (mod_data i (set_free ?b)) (kseq (log_write i) (brelse i))) x"
      "\<forall>f. \<exists>w t. kseq (mod_data i f) (log_write i) x = Done () w \<and> brelse i w = Done () t \<and>
         fstep {?bm} ((view s)(?bm := f (view s ?bm))) u t" by blast
  have iu: "bit_used (b_data (bufs x ! i)) ?b \<longleftrightarrow> \<not> is_free (view s) (sb s) b" using x(2) assms(5) by (simp add: is_free_def)
  show ?thesis
  proof (cases "is_free (view s) (sb s) b")
    case True
    then show ?thesis using x(3) iu by simp
  next
    case False
    from x(4) obtain w t where t: "kseq (mod_data i (set_free ?b)) (log_write i) x = Done () w" "brelse i w = Done () t"
         "fstep {?bm} ((view s)(?bm := set_free ?b (view s ?bm))) u t" by blast
    have "kseq (mod_data i (set_free ?b)) (kseq (log_write i) (brelse i)) x = Done () t"
      unfolding kseq_assoc [symmetric] by (simp only: kseq_exec(1) t(1,2))
    then have e: "bfree (log_dev s) b s = Done () t" using x(3) iu False by simp
    note ft = fstepD [OF t(3)] and gt = fstep_fs(1) [OF t(3)] fstep_fs(1) [OF x(1)] and fu = fstepD [OF x(1)]
    have "is_free (view t) (sb t) c \<longleftrightarrow> is_free (view s) (sb s) c \<or> c = b" for c
      using FSSIZE_bit [OF bF] g(5) [of ?bm] assms(5) gt unsigned_word_eqI [of c b]
      by (auto simp: is_free_def ft(5) bit_used_set(2))
    moreover have "view t ?bm = v" if "view s ?bm = set_used ?b v" "length v = BSIZE" "\<not> bit_used v ?b" for v
      using that FSSIZE_bit [OF bF] by (simp add: ft(5) set_free_used)
    ultimately show ?thesis using False e ft(1,5,11) fu(11) gt by auto
  qed
qed

theorem bfree_frees_witness:
  "bfree 1 70 demo_fs = Panic ''freeing free block'' \<and> (\<exists>t. bfree 1 60 demo_fs = Done () t)"
proof -
  have sb: "get_sb (view demo_fs 1) = sb demo_fs"
    by (simp add: demo_txn demo_fields demo_disk_def get_put_sb BSIZE_def)
  have "\<forall>b. idle_blk b demo_fs" using inode_readyD(2) [OF demo_file(1)] by blast
  note B = bfree_frees [OF demo_txn(1) this demo_bmap_ok sb]
  have r: "room {bmap_blk demo_fs} 0 demo_fs" by (simp add: demo_room)
  have "(70::uint) < sb_size (sb demo_fs)" "(60::uint) < sb_size (sb demo_fs)" by (simp_all add: demo_fields demo_sb_def)
  then show ?thesis using B [OF _ r, of 70] B [OF _ r, of 60] by (simp add: demo_txn demo_fields demo_bitmap) blast
qed

end
