(* ===== verification/Pipe.thy ===== *)
theory Pipe
  imports Fs Ring
begin

text \<open>
  Pipes (\<^verbatim>\<open>src/pipe.c\<close>) and the table of open files they belong to (\<open>struct file\<close> of
  \<^verbatim>\<open>src/file.h\<close>). A pipe lives in a page of its own and is named by that page's address.
\<close>

section \<open>State\<close>

definition PIPESIZE :: nat where "PIPESIZE = 512"
definition NFILE :: nat where "NFILE = 100"

record pipe =
  pi_data :: "byte list"
  pi_nread :: uint
  pi_nwrite :: uint
  pi_readopen :: bool
  pi_writeopen :: bool

datatype ftype = FD_NONE | FD_PIPE | FD_INODE

record ofile =
  f_type :: ftype
  f_ref :: int
  f_readable :: bool
  f_writable :: bool
  f_pipe :: uint
  f_ip :: nat
  f_off :: uint

record file_state = fs_state +
  ftable :: "ofile list"
  pipes :: "uint \<Rightarrow> pipe"

definition upd_pipe :: "uint \<Rightarrow> (pipe \<Rightarrow> pipe) \<Rightarrow> 'z file_state_scheme \<Rightarrow> 'z file_state_scheme" where
  "upd_pipe p f s = s\<lparr>pipes := (pipes s)(p := f (pipes s p))\<rparr>"

section \<open>Operations\<close>

definition pipeclose :: "uint \<Rightarrow> bool \<Rightarrow> ('z file_state_scheme, unit) kop" where
  "pipeclose p writable = kseq (lk_acquire (LkPipe p))
     (kseq (if writable
            then kseq (kmod (upd_pipe p (\<lambda>q. q\<lparr>pi_writeopen := False\<rparr>))) (wakeup (ChPipeRead p))
            else kseq (kmod (upd_pipe p (\<lambda>q. q\<lparr>pi_readopen := False\<rparr>))) (wakeup (ChPipeWrite p)))
     (kbind (kget (\<lambda>s. \<not> pi_readopen (pipes s p) \<and> \<not> pi_writeopen (pipes s p))) (\<lambda>closed.
      if closed then kseq (lk_release (LkPipe p)) (kfree p)
      else lk_release (LkPipe p))))"

text \<open>\<open>p->data[p->nwrite++ % PIPESIZE] = c\<close>\<close>

definition pipe_put :: "byte \<Rightarrow> pipe \<Rightarrow> pipe" where
  "pipe_put c q = q\<lparr>pi_data := (pi_data q)[unat (pi_nwrite q) mod PIPESIZE := c], pi_nwrite := pi_nwrite q + 1\<rparr>"

definition pipe_full :: "pipe \<Rightarrow> bool" where
  "pipe_full q \<longleftrightarrow> pi_nwrite q = pi_nread q + of_nat PIPESIZE"

text \<open>
  \<open>pipewrite\<close> from the \<open>for\<close> loop on, with the lock held: \<open>src\<close> are the bytes still to
  be written and \<open>n\<close> the length of the whole write. A process that finds the pipe full
  sleeps, and goes on from there.
\<close>

fun pipewrite_loop :: "uint \<Rightarrow> byte list \<Rightarrow> int \<Rightarrow> ('z file_state_scheme, int) kop" where
  "pipewrite_loop p [] n = kseq (wakeup (ChPipeRead p)) (kseq (lk_release (LkPipe p)) (kret n))"
| "pipewrite_loop p (c # src) n =
     kbind (kget (\<lambda>s. pipe_full (pipes s p))) (\<lambda>full.
     if full
     then kbind (kget (\<lambda>s. \<not> pi_readopen (pipes s p) \<or> p_killed (ptable s ! cur s))) (\<lambda>stop.
          if stop then kseq (lk_release (LkPipe p)) (kret (- 1))
          else kseq (wakeup (ChPipeRead p)) (sleep (ChPipeWrite p) (LkPipe p)))
     else kseq (kmod (upd_pipe p (pipe_put c))) (pipewrite_loop p src n))"

definition pipewrite :: "uint \<Rightarrow> byte list \<Rightarrow> int \<Rightarrow> ('z file_state_scheme, int) kop" where
  "pipewrite p src n = kseq (lk_acquire (LkPipe p)) (pipewrite_loop p src n)"

definition pipewrite_resume :: "uint \<Rightarrow> byte list \<Rightarrow> int \<Rightarrow> ('z file_state_scheme, int) kop" where
  "pipewrite_resume p src n = kseq (sleep_resume (LkPipe p)) (pipewrite_loop p src n)"

text \<open>The copying loop of \<open>piperead\<close>: at most \<open>n\<close> bytes, fewer if the pipe runs empty.\<close>

fun pipe_take :: "nat \<Rightarrow> pipe \<Rightarrow> byte list \<times> pipe" where
  "pipe_take 0 q = ([], q)"
| "pipe_take (Suc n) q =
     (if pi_nread q = pi_nwrite q then ([], q)
      else let c = pi_data q ! (unat (pi_nread q) mod PIPESIZE);
               (cs, q') = pipe_take n (q\<lparr>pi_nread := pi_nread q + 1\<rparr>)
           in (c # cs, q'))"

text \<open>\<open>piperead\<close> from the \<open>while\<close> loop on: it gives its result and the bytes it copied.\<close>

definition piperead_loop :: "uint \<Rightarrow> int \<Rightarrow> ('z file_state_scheme, int \<times> byte list) kop" where
  "piperead_loop p n =
     kbind (kget (\<lambda>s. pi_nread (pipes s p) = pi_nwrite (pipes s p) \<and> pi_writeopen (pipes s p))) (\<lambda>empty.
     if empty
     then kbind (kget (\<lambda>s. p_killed (ptable s ! cur s))) (\<lambda>killed.
          if killed then kseq (lk_release (LkPipe p)) (kret (- 1, []))
          else sleep (ChPipeRead p) (LkPipe p))
     else kbind (kget (\<lambda>s. pipe_take (nat n) (pipes s p))) (\<lambda>(cs, q).
          kseq (kmod (upd_pipe p (\<lambda>_. q)))
          (kseq (wakeup (ChPipeWrite p))
          (kseq (lk_release (LkPipe p))
          (kret (int (length cs), cs))))))"

definition piperead :: "uint \<Rightarrow> int \<Rightarrow> ('z file_state_scheme, int \<times> byte list) kop" where
  "piperead p n = kseq (lk_acquire (LkPipe p)) (piperead_loop p n)"

definition piperead_resume :: "uint \<Rightarrow> int \<Rightarrow> ('z file_state_scheme, int \<times> byte list) kop" where
  "piperead_resume p n = kseq (sleep_resume (LkPipe p)) (piperead_loop p n)"

section \<open>Pipes as queues\<close>

definition pipe_ok :: "pipe \<Rightarrow> bool" where
  "pipe_ok q \<longleftrightarrow> length (pi_data q) = PIPESIZE \<and> unat (pi_nwrite q - pi_nread q) \<le> PIPESIZE"

definition pipe_contents :: "pipe \<Rightarrow> byte list" where
  "pipe_contents q = ring (pi_data q) (pi_nread q) (pi_nwrite q)"

definition pipe_front :: "pipe \<Rightarrow> byte" where
  "pipe_front q = pi_data q ! (unat (pi_nread q) mod PIPESIZE)"

definition pipe_deq :: "pipe \<Rightarrow> pipe" where
  "pipe_deq q = q\<lparr>pi_nread := pi_nread q + 1\<rparr>"

lemma PIPESIZE_ring [simp]: "ring_size PIPESIZE"
  by (simp add: ring_size_def PIPESIZE_def)

interpretation pf: fifo pipe_ok PIPESIZE pipe_contents pipe_put pipe_front pipe_deq
proof
  fix q x assume q: "pipe_ok q" and room: "length (pipe_contents q) < PIPESIZE"
  then have l: "unat (pi_nwrite q - pi_nread q) < length (pi_data q)"
    by (simp add: pipe_ok_def pipe_contents_def)
  from room have "unat (pi_nwrite q + 1 - pi_nread q) = Suc (unat (pi_nwrite q - pi_nread q))"
    by (intro unat_diff_Suc) (simp add: pipe_contents_def PIPESIZE_def)
  with q l show "pipe_ok (pipe_put x q)" by (simp add: pipe_ok_def pipe_put_def)
  from q l have "ring ((pi_data q)[unat (pi_nwrite q) mod length (pi_data q) := x]) (pi_nread q) (pi_nwrite q + 1)
      = ring (pi_data q) (pi_nread q) (pi_nwrite q) @ [x]"
    by (intro ring_put) (simp_all add: pipe_ok_def)
  with q show "pipe_contents (pipe_put x q) = pipe_contents q @ [x]"
    by (simp add: pipe_contents_def pipe_put_def pipe_ok_def)
next
  fix q assume q: "pipe_ok q" and ne: "pipe_contents q \<noteq> []"
  then have d: "pi_nread q \<noteq> pi_nwrite q" by (simp add: pipe_contents_def)
  from q unat_diff_pred [OF d] show "pipe_ok (pipe_deq q)" by (auto simp: pipe_ok_def pipe_deq_def)
  from q ring_take [OF _ d, of "pi_data q"] show "pipe_contents q = pipe_front q # pipe_contents (pipe_deq q)"
    by (simp add: pipe_ok_def pipe_contents_def pipe_front_def pipe_deq_def)
qed

lemma pipe_length: "pipe_ok q \<Longrightarrow> length (pipe_contents q) \<le> PIPESIZE"
  by (simp add: pipe_ok_def pipe_contents_def)

lemma pipe_empty_iff: "pi_nread q = pi_nwrite q \<longleftrightarrow> pipe_contents q = []"
  by (simp add: pipe_contents_def)

lemma pipe_full_iff: "pipe_full q \<longleftrightarrow> length (pipe_contents q) = PIPESIZE"
proof -
  have "pi_nwrite q = pi_nread q + of_nat PIPESIZE \<longleftrightarrow> pi_nwrite q - pi_nread q = of_nat PIPESIZE"
    by (simp add: diff_eq_eq add.commute)
  also have "\<dots> \<longleftrightarrow> unat (pi_nwrite q - pi_nread q) = unat (of_nat PIPESIZE :: uint)"
    by (auto simp: word_unat_eq_iff)
  also have "unat (of_nat PIPESIZE :: uint) = PIPESIZE" by (simp add: PIPESIZE_def)
  finally show ?thesis by (simp add: pipe_full_def pipe_contents_def)
qed

lemma pipe_put_keeps [simp]:
  "pi_nread (pipe_put c q) = pi_nread q"
  "pi_readopen (pipe_put c q) = pi_readopen q"
  "pi_writeopen (pipe_put c q) = pi_writeopen q"
  by (simp_all add: pipe_put_def)

lemma pipe_puts_keep [simp]:
  "pi_nread (fold pipe_put cs q) = pi_nread q"
  "pi_readopen (fold pipe_put cs q) = pi_readopen q"
  "pi_writeopen (fold pipe_put cs q) = pi_writeopen q"
  by (induction cs arbitrary: q) simp_all

text \<open>The copying loop of \<open>piperead\<close> takes the oldest bytes off the queue.\<close>

lemma pipe_take_Suc:
  "pipe_take (Suc n) q = (if pipe_contents q = [] then ([], q)
     else (pipe_front q # fst (pipe_take n (pipe_deq q)), snd (pipe_take n (pipe_deq q))))"
  by (simp add: pipe_empty_iff [symmetric] pipe_front_def pipe_deq_def case_prod_beta)

lemma pipe_take_eq:
  assumes "pipe_ok q"
  shows "pipe_take n q = (take n (pipe_contents q), (pipe_deq ^^ min n (length (pipe_contents q))) q)"
  using assms
proof (induction n arbitrary: q)
  case (Suc n)
  show ?case
  proof (cases "pipe_contents q = []")
    case False
    with Suc.prems have c: "pipe_contents q = pipe_front q # pipe_contents (pipe_deq q)" and "pipe_ok (pipe_deq q)"
      by (rule pf.deq_contents, rule pf.deq_ok)
    then have "pipe_take (Suc n) q = (pipe_front q # take n (pipe_contents (pipe_deq q)),
        (pipe_deq ^^ min n (length (pipe_contents (pipe_deq q)))) (pipe_deq q))"
      by (simp add: pipe_take_Suc Suc.IH del: pipe_take.simps)
    then show ?thesis by (simp add: c funpow_swap1 del: pipe_take.simps)
  qed (simp add: pipe_take_Suc del: pipe_take.simps)
qed simp

lemma pipe_deq_keeps [simp]:
  "pi_nwrite ((pipe_deq ^^ n) q) = pi_nwrite q"
  "pi_readopen ((pipe_deq ^^ n) q) = pi_readopen q"
  "pi_writeopen ((pipe_deq ^^ n) q) = pi_writeopen q"
  by (induction n) (simp_all add: pipe_deq_def)

section \<open>Reading and writing\<close>

definition pipe_room :: "pipe \<Rightarrow> nat" where
  "pipe_room q = PIPESIZE - length (pipe_contents q)"

lemma upd_pipe_simps [simp]:
  "pipes (upd_pipe p f s) p = f (pipes s p)"
  "r \<noteq> p \<Longrightarrow> pipes (upd_pipe p f s) r = pipes s r"
  "ptable (upd_pipe p f s) = ptable s"
  "held (upd_pipe p f s) = held s"
  "curproc (upd_pipe p f s) = curproc s"
  "cur (upd_pipe p f s) = cur s"
  "upd_pipe p g (upd_pipe p f s) = upd_pipe p (g \<circ> f) s"
  by (simp_all add: upd_pipe_def cur_def)

text \<open>
  The whole loop of \<open>pipewrite\<close> as one step: it puts in the bytes there is room for; if that
  is all of them it wakes the readers and returns, otherwise it fails or sleeps.
\<close>

lemma pipewrite_loop_eq:
  assumes "pipe_ok (pipes s p)" and "LkPtable \<notin> held s"
  shows "pipewrite_loop p src n s =
    (let t = upd_pipe p (fold pipe_put (take (pipe_room (pipes s p)) src)) s
     in if length src \<le> pipe_room (pipes s p)
        then kseq (wakeup (ChPipeRead p)) (kseq (lk_release (LkPipe p)) (kret n)) t
        else if \<not> pi_readopen (pipes s p) \<or> p_killed (ptable s ! cur s)
        then kseq (lk_release (LkPipe p)) (kret (- 1)) t
        else kseq (wakeup (ChPipeRead p)) (sleep (ChPipeWrite p) (LkPipe p)) t)"
  using assms
proof (induction src arbitrary: s)
  case Nil
  then show ?case by (simp add: upd_pipe_def)
next
  case (Cons c src)
  show ?case
  proof (cases "pipe_room (pipes s p)")
    case 0
    with Cons.prems pipe_length have "pipe_full (pipes s p)"
      by (fastforce simp: pipe_full_iff pipe_room_def)
    with 0 show ?thesis by (simp add: upd_pipe_def)
  next
    case (Suc m)
    then have l: "length (pipe_contents (pipes s p)) < PIPESIZE" by (simp add: pipe_room_def)
    then have nf: "\<not> pipe_full (pipes s p)" by (simp add: pipe_full_iff)
    let ?q = "pipe_put c (pipes s p)"
    have "pipe_ok ?q" and "pipe_room ?q = m"
      using Cons.prems l Suc by (simp_all add: pf.enq_ok pf.enq_contents pipe_room_def)
    with Cons.IH [of "upd_pipe p (pipe_put c) s"] Cons.prems nf Suc show ?thesis
      by (simp add: comp_def Let_def)
  qed
qed

lemma piperead_loop_eq:
  assumes "pipe_ok (pipes s p)"
  shows "piperead_loop p n s =
    (let cs = take (nat n) (pipe_contents (pipes s p))
     in if pipe_contents (pipes s p) = [] \<and> pi_writeopen (pipes s p)
        then if p_killed (ptable s ! cur s) then kseq (lk_release (LkPipe p)) (kret (- 1, [])) s
             else sleep (ChPipeRead p) (LkPipe p) s
        else kseq (wakeup (ChPipeWrite p)) (kseq (lk_release (LkPipe p)) (kret (int (length cs), cs)))
               (upd_pipe p (pipe_deq ^^ length cs) s))"
proof -
  have m: "min (nat n) (length (pipe_contents (pipes s p))) = length (take (nat n) (pipe_contents (pipes s p)))"
    by simp
  have u: "upd_pipe p (\<lambda>_. (pipe_deq ^^ k) (pipes s p)) s = upd_pipe p (pipe_deq ^^ k) s" for k
    by (simp add: upd_pipe_def)
  show ?thesis
    by (simp only: piperead_loop_def kbind_kget if_distribR pipe_empty_iff pipe_take_eq [OF assms] prod.case kseq_kmod m Let_def u)
qed

lemma asleep_upd_pipe [simp]: "asleep c (upd_pipe p f s) \<longleftrightarrow> asleep c s"
  by (simp add: asleep_def)

lemma pipes_ptable [simp]: "pipes (upd_proc i f s) = pipes s"
  by (simp add: upd_proc_def)

lemma pipes_asleep_on [simp]: "pipes (asleep_on c s) = pipes s" "pipes (awake s) = pipes s"
  by (simp_all add: asleep_on_def awake_def)

lemma pipewrite_exec:
  assumes "pipe_ok (pipes s p)" and "in_call s"
  shows "pipewrite p src n s =
    (let t = upd_pipe p (fold pipe_put (take (pipe_room (pipes s p)) src)) s;
         u = t\<lparr>ptable := map (wake_proc (ChPipeRead p)) (ptable t)\<rparr>
     in if length src \<le> pipe_room (pipes s p) then Done n u
        else if \<not> pi_readopen (pipes s p) \<or> p_killed (ptable s ! cur s) then Done (- 1) t
        else Swtch (asleep_on (ChPipeWrite p) u))"
proof -
  let ?s = "s\<lparr>held := {LkPipe p}\<rparr>"
  define t where "t = upd_pipe p (fold pipe_put (take (pipe_room (pipes s p)) src)) s"
  define u where "u = t\<lparr>ptable := map (wake_proc (ChPipeRead p)) (ptable t)\<rparr>"
  from assms(2) have h: "held s = {}" "held t = {}" by (simp_all add: in_call_def t_def)
  then have e: "pipewrite p src n s = pipewrite_loop p src n ?s" by (simp add: pipewrite_def)
  have t: "upd_pipe p (fold pipe_put (take (pipe_room (pipes s p)) src)) ?s = t\<lparr>held := {LkPipe p}\<rparr>"
    by (simp add: t_def upd_pipe_def)
  have u: "(t\<lparr>held := {LkPipe p}\<rparr>)\<lparr>ptable := map (wake_proc (ChPipeRead p)) (ptable t)\<rparr> = u\<lparr>held := {LkPipe p}\<rparr>"
    by (simp add: u_def)
  have w: "wakeup (ChPipeRead p) (t\<lparr>held := {LkPipe p}\<rparr>) = Done () (u\<lparr>held := {LkPipe p}\<rparr>)"
    by (simp add: u)
  have "in_call u" using assms(2) by (simp add: in_call_def u_def t_def)
  then have sl: "sleep (ChPipeWrite p) (LkPipe p) (u\<lparr>held := {LkPipe p}\<rparr>) = Swtch (asleep_on (ChPipeWrite p) u)"
    by (rule sleep_in_call) simp
  have r: "lk_release (LkPipe p) (v\<lparr>held := {LkPipe p}\<rparr>) = Done () v" if "held v = {}" for v :: "'a file_state_scheme"
    using that by simp
  have hu: "held u = {}" using h by (simp add: u_def)
  have "pipe_ok (pipes ?s p)" and "LkPtable \<notin> held ?s" using assms(1) by simp_all
  note l = pipewrite_loop_eq [OF this, of src n]
  have a: "pipes ?s = pipes s" "ptable ?s = ptable s" "cur ?s = cur s" by simp_all
  show ?thesis
    unfolding e Let_def t_def [symmetric] u_def [symmetric] l [unfolded a Let_def t]
    by (simp only: kseq_exec(1) w sl r [OF hu] r [OF h(2)] kret_simps)
qed

lemma piperead_exec:
  assumes "pipe_ok (pipes s p)" and "in_call s"
  shows "piperead p n s =
    (let cs = take (nat n) (pipe_contents (pipes s p));
         t = upd_pipe p (pipe_deq ^^ length cs) s
     in if pipe_contents (pipes s p) = [] \<and> pi_writeopen (pipes s p)
        then if p_killed (ptable s ! cur s) then Done (- 1, []) s
             else Swtch (asleep_on (ChPipeRead p) s)
        else Done (int (length cs), cs) (t\<lparr>ptable := map (wake_proc (ChPipeWrite p)) (ptable t)\<rparr>))"
proof -
  let ?s = "s\<lparr>held := {LkPipe p}\<rparr>"
  define cs where "cs = take (nat n) (pipe_contents (pipes s p))"
  define t where "t = upd_pipe p (pipe_deq ^^ length cs) s"
  define u where "u = t\<lparr>ptable := map (wake_proc (ChPipeWrite p)) (ptable t)\<rparr>"
  from assms(2) have h: "held s = {}" "held u = {}" by (simp_all add: in_call_def u_def t_def)
  then have e: "piperead p n s = piperead_loop p n ?s" by (simp add: piperead_def)
  have t: "upd_pipe p (pipe_deq ^^ length cs) ?s = t\<lparr>held := {LkPipe p}\<rparr>"
    by (simp add: t_def upd_pipe_def)
  have u: "(t\<lparr>held := {LkPipe p}\<rparr>)\<lparr>ptable := map (wake_proc (ChPipeWrite p)) (ptable t)\<rparr> = u\<lparr>held := {LkPipe p}\<rparr>"
    by (simp add: u_def)
  have w: "wakeup (ChPipeWrite p) (t\<lparr>held := {LkPipe p}\<rparr>) = Done () (u\<lparr>held := {LkPipe p}\<rparr>)"
    by (simp add: u)
  have sl: "sleep (ChPipeRead p) (LkPipe p) ?s = Swtch (asleep_on (ChPipeRead p) s)"
    using assms(2) by (rule sleep_in_call) simp
  have r: "lk_release (LkPipe p) (v\<lparr>held := {LkPipe p}\<rparr>) = Done () v" if "held v = {}" for v :: "'a file_state_scheme"
    using that by simp
  have a: "pipes ?s = pipes s" "ptable ?s = ptable s" "cur ?s = cur s" by simp_all
  have "pipe_ok (pipes ?s p)" using assms(1) by simp
  note l = piperead_loop_eq [OF this, of n, unfolded a Let_def]
  show ?thesis
    unfolding e Let_def l cs_def [symmetric] t t_def [symmetric] u_def [symmetric]
    by (simp only: kseq_exec(1) w sl r [OF h(1)] r [OF h(2)] kret_simps)
qed

text \<open>Going on after a sleep is calling again, with what is left to do.\<close>

lemma resume_eq:
  assumes "resumes s"
  shows "pipewrite_resume p src n s = pipewrite p src n (awake s)"
    and "piperead_resume p m s = piperead p m (awake s)"
proof -
  have "sleep_resume (LkPipe p) s = Done () ((awake s)\<lparr>held := {LkPipe p}\<rparr>)"
    using assms by (simp add: resumes_def sleep_resume_exec awake_def)
  moreover have "lk_acquire (LkPipe p) (awake s) = Done () ((awake s)\<lparr>held := {LkPipe p}\<rparr>)"
    by (simp add: awake_def)
  ultimately show "pipewrite_resume p src n s = pipewrite p src n (awake s)"
    and "piperead_resume p m s = piperead p m (awake s)"
    by (simp_all add: pipewrite_resume_def pipewrite_def piperead_resume_def piperead_def)
qed

lemma pipeclose_Done:
  assumes "pipeclose p writable s = Done () t" and "held s = {}"
  shows "pipes t = (pipes s)(p := (if writable then (pipes s p)\<lparr>pi_writeopen := False\<rparr>
             else (pipes s p)\<lparr>pi_readopen := False\<rparr>))"
    and "ptable t = map (wake_proc (if writable then ChPipeRead p else ChPipeWrite p)) (ptable s)"
proof -
  let ?c = "if writable then ChPipeRead p else ChPipeWrite p"
  let ?f = "if writable then (\<lambda>q. q\<lparr>pi_writeopen := False\<rparr>) else (\<lambda>q. q\<lparr>pi_readopen := False\<rparr>)"
  define u where "u = (upd_pipe p ?f s)\<lparr>ptable := map (wake_proc ?c) (ptable s), held := {}\<rparr>"
  have "t = u \<or> kfree p u = Done () t"
    using assms by (auto simp: pipeclose_def u_def upd_pipe_def kDone_iffs split: if_splits)
  then have "pipes t = pipes u \<and> ptable t = ptable u"
  proof
    assume "kfree p u = Done () t"
    moreover from kfree_Done [OF this] have "kmem_free u" "\<not> kfree_bad p u" by simp_all
    ultimately show ?thesis using kfree_exec [of u p] by auto
  qed simp
  then show "pipes t = (pipes s)(p := (if writable then (pipes s p)\<lparr>pi_writeopen := False\<rparr>
             else (pipes s p)\<lparr>pi_readopen := False\<rparr>))"
    and "ptable t = map (wake_proc (if writable then ChPipeRead p else ChPipeWrite p)) (ptable s)"
    by (auto simp: u_def upd_pipe_def)
qed

lemma pipe_puts_room:
  assumes "pipe_ok q"
  shows "pipe_ok (fold pipe_put (take (pipe_room q) src) q) \<and>
    pipe_contents (fold pipe_put (take (pipe_room q) src) q) = pipe_contents q @ take (pipe_room q) src"
  using assms pipe_length [OF assms] by (intro pf.enq_many) (simp_all add: pipe_room_def)

lemma pipe_takes:
  assumes "pipe_ok q"
  shows "pipe_ok ((pipe_deq ^^ length (take n (pipe_contents q))) q) \<and>
    pipe_contents ((pipe_deq ^^ length (take n (pipe_contents q))) q) = drop n (pipe_contents q)"
  using pf.deq_many [OF assms, of "length (take n (pipe_contents q))"] by (simp add: min_def split: if_splits)

lemma pipe_puts_count: "pi_nwrite (fold pipe_put cs q) = pi_nwrite q + of_nat (length cs)"
  by (induction cs arbitrary: q) (simp_all add: pipe_put_def)

text \<open>
  What a run of the system does with one pipe: processes write to it, read from it and close
  it, in system calls of their own or when they go on after sleeping in one, and anything that
  leaves the pipe alone may happen in between. \<open>W\<close> are the bytes the counter of written
  bytes has counted, \<open>R\<close> the bytes handed to readers.
\<close>

inductive pipe_run :: "uint \<Rightarrow> 'z file_state_scheme \<Rightarrow> byte list \<Rightarrow> byte list \<Rightarrow> 'z file_state_scheme \<Rightarrow> bool"
  for p s0 where
  start: "pipe_run p s0 [] [] s0"
| other: "pipe_run p s0 W R s \<Longrightarrow> pipes t p = pipes s p \<Longrightarrow> pipe_run p s0 W R t"
| writes: "pipe_run p s0 W R s \<Longrightarrow> in_call s \<and> m = pipewrite p src n \<or> resumes s \<and> m = pipewrite_resume p src n \<Longrightarrow>
    m s = Done r t \<or> m s = Swtch t \<Longrightarrow>
    pipe_run p s0 (W @ take (unat (pi_nwrite (pipes t p) - pi_nwrite (pipes s p))) src) R t"
| reads: "pipe_run p s0 W R s \<Longrightarrow> in_call s \<and> m = piperead p n \<or> resumes s \<and> m = piperead_resume p n \<Longrightarrow>
    m s = Done (r, cs) t \<Longrightarrow> pipe_run p s0 W (R @ cs) t"
| read_sleep: "pipe_run p s0 W R s \<Longrightarrow> in_call s \<and> m = piperead p n \<or> resumes s \<and> m = piperead_resume p n \<Longrightarrow>
    m s = Swtch t \<Longrightarrow> pipe_run p s0 W R t"
| closes: "pipe_run p s0 W R s \<Longrightarrow> held s = {} \<Longrightarrow> pipeclose p wr s = Done () t \<Longrightarrow> pipe_run p s0 W R t"

lemma pipewrite_contents:
  assumes "pipe_ok (pipes s p)" and "in_call s" and "pipewrite p src n s = Done r t \<or> pipewrite p src n s = Swtch t"
  shows "pipe_ok (pipes t p) \<and> pipe_contents (pipes t p) = pipe_contents (pipes s p) @
    take (unat (pi_nwrite (pipes t p) - pi_nwrite (pipes s p))) src"
proof -
  let ?cs = "take (pipe_room (pipes s p)) src"
  have t: "pipes t p = fold pipe_put ?cs (pipes s p)"
    using assms(3) by (auto simp: pipewrite_exec [OF assms(1,2)] Let_def split: if_splits)
  have "length ?cs < 2 ^ 32" by (simp add: pipe_room_def PIPESIZE_def)
  then have "unat (pi_nwrite (pipes t p) - pi_nwrite (pipes s p)) = length ?cs"
    by (simp add: t pipe_puts_count unat_of_nat take_bit_eq_mod)
  with pipe_puts_room [OF assms(1), of src] show ?thesis by (simp add: t min_def)
qed

lemma piperead_contents:
  assumes "pipe_ok (pipes s p)" and "in_call s"
  shows "piperead p n s = Done (r, cs) t \<Longrightarrow>
      pipe_ok (pipes t p) \<and> pipe_contents (pipes s p) = cs @ pipe_contents (pipes t p)"
    and "piperead p n s = Swtch t \<Longrightarrow> pipes t p = pipes s p"
  using pipe_takes [OF assms(1), of "nat n"] assms(1)
  by (auto simp: piperead_exec [OF assms] Let_def split: if_splits)

lemma pipeclose_contents:
  assumes "pipe_ok (pipes s p)" and "held s = {}" and "pipeclose p wr s = Done () t"
  shows "pipe_ok (pipes t p) \<and> pipe_contents (pipes t p) = pipe_contents (pipes s p)"
  using assms(1) by (simp add: pipeclose_Done(1) [OF assms(3,2)] pipe_ok_def pipe_contents_def)

lemma pipe_write_call:
  assumes "in_call s \<and> m = pipewrite p src n \<or> resumes s \<and> m = pipewrite_resume p src n"
  obtains u where "in_call u" and "pipes u = pipes s" and "m s = pipewrite p src n u"
  using assms
proof (elim disjE conjE)
  assume "resumes s" "m = pipewrite_resume p src n"
  then show thesis by (intro that [of "awake s"]) (simp_all only: in_call_awake pipes_asleep_on resume_eq)
qed (rule that, simp_all)

lemma pipe_read_call:
  assumes "in_call s \<and> m = piperead p n \<or> resumes s \<and> m = piperead_resume p n"
  obtains u where "in_call u" and "pipes u = pipes s" and "m s = piperead p n u"
  using assms
proof (elim disjE conjE)
  assume "resumes s" "m = piperead_resume p n"
  then show thesis by (intro that [of "awake s"]) (simp_all only: in_call_awake pipes_asleep_on resume_eq)
qed (rule that, simp_all)

lemma pipe_run_contents:
  assumes "pipe_run p s0 W R t" and "pipe_ok (pipes s0 p)"
  shows "pipe_ok (pipes t p) \<and> pipe_contents (pipes s0 p) @ W = R @ pipe_contents (pipes t p)"
  using assms
proof (induction rule: pipe_run.induct)
  case (writes W R s m src n r t)
  from writes.hyps(2) obtain u where u: "in_call u" "pipes u = pipes s" "m s = pipewrite p src n u"
    by (rule pipe_write_call)
  note i = writes.IH [OF writes.prems]
  from i have "pipe_ok (pipes u p)" by (simp only: u(2))
  from pipewrite_contents [OF this u(1), of src n r t] writes.hyps(3) i show ?case
    by (simp only: u) (metis append_assoc)
next
  case (reads W R s m n r cs t)
  from reads.hyps(2) obtain u where u: "in_call u" "pipes u = pipes s" "m s = piperead p n u"
    by (rule pipe_read_call)
  note i = reads.IH [OF reads.prems]
  from i have "pipe_ok (pipes u p)" by (simp only: u(2))
  from piperead_contents(1) [OF this u(1), of n r cs t] reads.hyps(3) i show ?case
    by (simp only: u append_assoc)
next
  case (read_sleep W R s m n t)
  from read_sleep.hyps(2) obtain u where u: "in_call u" "pipes u = pipes s" "m s = piperead p n u"
    by (rule pipe_read_call)
  note i = read_sleep.IH [OF read_sleep.prems]
  from i have "pipe_ok (pipes u p)" by (simp only: u(2))
  from piperead_contents(2) [OF this u(1), of n t] read_sleep.hyps(3) i show ?case
    by (simp only: u)
next
  case (closes W R s wr t)
  note i = closes.IH [OF closes.prems]
  from pipeclose_contents [OF conjunct1 [OF i] closes.hyps(2,3)] i show ?case by (simp only:)
qed (simp_all only: append_Nil append_Nil2)

section \<open>Properties\<close>

text \<open>A machine as it boots, with a new pipe.\<close>

definition boot_file_state :: file_state where
  "boot_file_state = fs_state.extend (log_state.extend (disk_state.extend boot_disk_state
       \<lparr>log_start = 2, log_size = 30, log_outstanding = 0, log_committing = False, log_dev = 1,
        lh_n = 0, lh_block = replicate 30 0\<rparr>)
     \<lparr>sb = \<lparr>sb_size = 1000, sb_nblocks = 941, sb_ninodes = 200, sb_nlog = 30, sb_logstart = 2,
        sb_inodestart = 32, sb_bmapstart = 58\<rparr>,
      icache = replicate NINODE \<lparr>i_dev = 0, i_inum = 0, i_ref = 0, i_busy = False, i_valid = False,
        i_din = \<lparr>di_type = 0, di_major = 0, di_minor = 0, di_nlink = 0, di_size = 0, di_addrs = replicate 13 0\<rparr>\<rparr>\<rparr>)
     \<lparr>ftable = replicate NFILE \<lparr>f_type = FD_NONE, f_ref = 0, f_readable = False, f_writable = False,
        f_pipe = 0, f_ip = 0, f_off = 0\<rparr>,
      pipes = (\<lambda>_. \<lparr>pi_data = replicate PIPESIZE 0, pi_nread = 0, pi_nwrite = 0, pi_readopen = True, pi_writeopen = True\<rparr>)\<rparr>"

lemma boot_file_fields:
  "held boot_file_state = {}" "curproc boot_file_state = Some 0" "cur boot_file_state = 0"
  "ptable boot_file_state = replicate NPROC zero_proc"
  "pipes boot_file_state p = \<lparr>pi_data = replicate PIPESIZE 0, pi_nread = 0, pi_nwrite = 0, pi_readopen = True, pi_writeopen = True\<rparr>"
  "in_call boot_file_state"
  by (simp_all add: boot_file_state_def boot_disk_state_def bare_kstate_def fs_state.defs log_state.defs
      disk_state.defs kmem_state.defs in_call_def cur_def NPROC_def)

lemma boot_pipe: "pipe_ok (pipes boot_file_state p)" "pipe_contents (pipes boot_file_state p) = []"
  by (simp_all add: boot_file_fields pipe_ok_def pipe_contents_def)

text \<open>C3: A pipe is a first-in first-out stream. However writers, readers and the closing of its
  ends interleave, across sleeping and waking and across the wrap-around of its counters, the
  bytes counted as written are exactly the bytes handed to readers followed by the bytes still in
  the buffer, in order, none lost, doubled or invented, and the buffer never holds more than its
  512 bytes.\<close>

theorem pipe_stream:
  assumes "pipe_run p s0 W R t" and "pipe_ok (pipes s0 p)" and "pipe_contents (pipes s0 p) = []"
  shows "W = R @ pipe_contents (pipes t p) \<and> length (pipe_contents (pipes t p)) \<le> PIPESIZE"
  using pipe_run_contents [OF assms(1,2)] assms(3) pipe_length [of "pipes t p"] by simp

lemma boot_wake: "map (wake_proc c) (replicate NPROC zero_proc) = replicate NPROC zero_proc"
  by (simp add: wake_proc_def zero_proc_def)

lemma boot_write: "pipewrite p [1, 2, 3] 3 boot_file_state =
    Done 3 ((upd_pipe p (fold pipe_put [1, 2, 3]) boot_file_state)\<lparr>ptable := replicate NPROC zero_proc\<rparr>)"
proof -
  have r: "pipe_room (pipes boot_file_state p) = 512"
    unfolding pipe_room_def boot_pipe by (simp add: PIPESIZE_def)
  show ?thesis
    unfolding pipewrite_exec [OF boot_pipe(1) boot_file_fields(6)] Let_def r upd_pipe_simps boot_file_fields(4) boot_wake
    by simp
qed

theorem pipe_stream_witness:
  "\<exists>t. pipe_run 8 boot_file_state [1, 2, 3] [1, 2] t \<and> pipe_contents (pipes t 8) = [3]"
proof -
  define s where "s = (upd_pipe 8 (fold pipe_put [1, 2, 3]) boot_file_state)\<lparr>ptable := replicate NPROC zero_proc\<rparr>"
  have w: "pipewrite 8 [1, 2, 3] 3 boot_file_state = Done 3 s" by (simp add: boot_write s_def)
  have n: "unat (pi_nwrite (pipes s 8) - pi_nwrite (pipes boot_file_state 8)) = 3"
    by (simp add: s_def pipe_put_def boot_file_fields)
  have "pipe_run 8 boot_file_state ([] @ take (unat (pi_nwrite (pipes s 8) - pi_nwrite (pipes boot_file_state 8))) [1, 2, 3]) [] s"
    by (rule pipe_run.writes [OF pipe_run.start]) (use w boot_file_fields(6) in auto)
  then have rs: "pipe_run 8 boot_file_state [1, 2, 3] [] s" by (simp add: n)
  have c: "pipe_ok (pipes s 8)" "pipe_contents (pipes s 8) = [1, 2, 3]"
    using pipewrite_contents [OF boot_pipe(1) boot_file_fields(6), of 8 "[1, 2, 3]" 3 3 s] w n boot_pipe(2) [of 8]
    by simp_all
  have "in_call s" using boot_file_fields by (simp add: s_def in_call_def NPROC_def)
  then obtain t where t: "piperead 8 2 s = Done (2, [1, 2]) t"
    using c by (simp add: piperead_exec)
  from pipe_run.reads [OF rs, of "piperead 8 2" 2 2 "[1, 2]" t] this \<open>in_call s\<close>
  have r: "pipe_run 8 boot_file_state [1, 2, 3] [1, 2] t" by simp
  from pipe_stream [OF this boot_pipe] have "[1, 2, 3] = [1, 2] @ pipe_contents (pipes t 8)" by simp
  then have "pipe_contents (pipes t 8) = [3]" by simp
  with r show ?thesis by blast
qed

text \<open>
  Nobody sleeps on a pipe without a reason: a sleeping reader means an empty pipe whose write
  end is open, a sleeping writer a full pipe whose read end is open.
\<close>

definition sleepers_ok :: "uint \<Rightarrow> 'z file_state_scheme \<Rightarrow> bool" where
  "sleepers_ok p s \<longleftrightarrow>
     (asleep (ChPipeRead p) s \<longrightarrow> pipe_contents (pipes s p) = [] \<and> pi_writeopen (pipes s p)) \<and>
     (asleep (ChPipeWrite p) s \<longrightarrow> pipe_full (pipes s p) \<and> pi_readopen (pipes s p))"

lemma pipe_room_full: "pipe_ok q \<Longrightarrow> pipe_room q = 0 \<longleftrightarrow> pipe_full q"
  using pipe_length [of q] by (auto simp: pipe_room_def pipe_full_iff)

lemma pipewrite_sleepers:
  assumes "pipe_ok (pipes s p)" and "in_call s" and "sleepers_ok p s"
    and "pipewrite p src n s = Done r t \<and> r \<noteq> - 1 \<or> pipewrite p src n s = Swtch t"
  shows "sleepers_ok p t"
proof -
  define q where "q = fold pipe_put (take (pipe_room (pipes s p)) src) (pipes s p)"
  define u where "u = (upd_pipe p (fold pipe_put (take (pipe_room (pipes s p)) src)) s)
    \<lparr>ptable := map (wake_proc (ChPipeRead p)) (ptable s)\<rparr>"
  have t: "t = u \<or> t = asleep_on (ChPipeWrite p) u \<and> pipe_room (pipes s p) < length src \<and> pi_readopen (pipes s p)"
    using assms(4) by (auto simp: pipewrite_exec [OF assms(1,2)] Let_def u_def split: if_splits)
  have u: "pipes u p = q" "\<not> asleep (ChPipeRead p) u" "asleep (ChPipeWrite p) u \<longleftrightarrow> asleep (ChPipeWrite p) s"
    by (simp_all add: u_def q_def asleep_def wake_proc_def) (auto simp: wake_proc_def split: if_splits)
  have q: "pipe_ok q" "pipe_contents q = pipe_contents (pipes s p) @ take (pipe_room (pipes s p)) src"
    "pi_readopen q = pi_readopen (pipes s p)"
    using pipe_puts_room [OF assms(1), of src] by (simp_all add: q_def)
  have w: "pipe_full q \<and> pi_readopen q" if "asleep (ChPipeWrite p) u"
    using that assms(3) u(3) q pipe_room_full [OF assms(1)] by (simp add: sleepers_ok_def pipe_full_iff)
  from t show ?thesis
  proof
    assume "t = u"
    with u w show ?thesis by (simp add: sleepers_ok_def)
  next
    assume t: "t = asleep_on (ChPipeWrite p) u \<and> pipe_room (pipes s p) < length src \<and> pi_readopen (pipes s p)"
    then have "length (pipe_contents q) = PIPESIZE"
      using q(2) pipe_length [OF assms(1)] by (simp add: pipe_room_def)
    then have "pipe_full q" by (simp add: pipe_full_iff)
    moreover have "\<not> asleep (ChPipeRead p) t" using t u(2) asleep_asleep_on by blast
    ultimately show ?thesis using t u(1) q(3) by (simp add: sleepers_ok_def)
  qed
qed

lemma piperead_sleepers:
  assumes "pipe_ok (pipes s p)" and "in_call s" and "sleepers_ok p s"
    and "piperead p n s = Done r t \<or> piperead p n s = Swtch t"
  shows "sleepers_ok p t"
proof -
  define k where "k = length (take (nat n) (pipe_contents (pipes s p)))"
  define u where "u = (upd_pipe p (pipe_deq ^^ k) s)\<lparr>ptable := map (wake_proc (ChPipeWrite p)) (ptable s)\<rparr>"
  have "t = s \<or> t = asleep_on (ChPipeRead p) s \<and> pipe_contents (pipes s p) = [] \<and> pi_writeopen (pipes s p) \<or>
      t = u \<and> (pipe_contents (pipes s p) \<noteq> [] \<or> \<not> pi_writeopen (pipes s p))"
    using assms(4) by (auto simp: piperead_exec [OF assms(1,2)] Let_def u_def k_def split: if_splits)
  then show ?thesis
  proof (elim disjE)
    assume "t = s"
    with assms(3) show ?thesis by simp
  next
    assume t: "t = asleep_on (ChPipeRead p) s \<and> pipe_contents (pipes s p) = [] \<and> pi_writeopen (pipes s p)"
    then have "asleep (ChPipeWrite p) t \<Longrightarrow> asleep (ChPipeWrite p) s" using asleep_asleep_on by blast
    with assms(3) t show ?thesis by (auto simp: sleepers_ok_def)
  next
    assume t: "t = u \<and> (pipe_contents (pipes s p) \<noteq> [] \<or> \<not> pi_writeopen (pipes s p))"
    have "\<not> asleep (ChPipeWrite p) u" "asleep (ChPipeRead p) u \<Longrightarrow> asleep (ChPipeRead p) s"
      by (auto simp: u_def asleep_def wake_proc_def split: if_splits)
    with assms(3) t show ?thesis by (auto simp: sleepers_ok_def)
  qed
qed

lemma pipeclose_sleepers:
  assumes "held s = {}" and "sleepers_ok p s" and "pipeclose p wr s = Done () t"
  shows "sleepers_ok p t"
proof -
  note c = pipeclose_Done [OF assms(3,1)]
  have "asleep d t \<longleftrightarrow> d \<noteq> (if wr then ChPipeRead p else ChPipeWrite p) \<and> asleep d s" for d
    unfolding asleep_def c(2) by (auto simp: wake_proc_def split: if_splits)
  with assms(2) show ?thesis
    by (cases wr) (simp_all add: sleepers_ok_def c(1) pipe_contents_def pipe_full_def)
qed

text \<open>
  The steps that involve a pipe: whole calls, calls that end asleep, calls that go on after a
  sleep, and what else happens, which leaves the pipe alone and puts nobody to sleep on it. The
  write that fails because its process was killed or the read end is closed is not among them.
\<close>

inductive pipe_op :: "uint \<Rightarrow> 'z file_state_scheme \<Rightarrow> 'z file_state_scheme \<Rightarrow> bool" for p where
  op_write: "in_call s \<and> m = pipewrite p src n \<or> resumes s \<and> m = pipewrite_resume p src n \<Longrightarrow>
    m s = Done r t \<and> r \<noteq> - 1 \<or> m s = Swtch t \<Longrightarrow> pipe_op p s t"
| op_read: "in_call s \<and> m = piperead p n \<or> resumes s \<and> m = piperead_resume p n \<Longrightarrow>
    m s = Done r t \<or> m s = Swtch t \<Longrightarrow> pipe_op p s t"
| op_close: "held s = {} \<Longrightarrow> pipeclose p wr s = Done () t \<Longrightarrow> pipe_op p s t"
| op_other: "pipes t p = pipes s p \<Longrightarrow> asleep (ChPipeRead p) t \<longrightarrow> asleep (ChPipeRead p) s \<Longrightarrow>
    asleep (ChPipeWrite p) t \<longrightarrow> asleep (ChPipeWrite p) s \<Longrightarrow> pipe_op p s t"

lemma sleepers_awake: "sleepers_ok p s \<Longrightarrow> sleepers_ok p (awake s)"
  using asleep_awake [of "ChPipeRead p" s] asleep_awake [of "ChPipeWrite p" s] by (auto simp: sleepers_ok_def)

lemma pipe_op_ok:
  assumes "pipe_op p s t" and "pipe_ok (pipes s p)" and "sleepers_ok p s"
  shows "pipe_ok (pipes t p) \<and> sleepers_ok p t"
  using assms(1)
proof cases
  case (op_write m src n r)
  define u where "u = (if in_call s then s else awake s)"
  have u: "in_call u" "pipes u = pipes s" "sleepers_ok p u" "m s = pipewrite p src n u"
    using op_write(1) assms(3) in_call_awake [of s] sleepers_awake [of p s] resume_eq(1) [of s p src n]
    by (auto simp: u_def in_call_def resumes_def)
  from assms(2) u(2) have ok: "pipe_ok (pipes u p)" by simp
  from op_write(2) have "pipewrite p src n u = Done r t \<and> r \<noteq> - 1 \<or> pipewrite p src n u = Swtch t"
    by (simp only: u(4))
  with pipewrite_sleepers [OF ok u(1,3)] pipewrite_contents [OF ok u(1)] show ?thesis by blast
next
  case (op_read m n r)
  define u where "u = (if in_call s then s else awake s)"
  have u: "in_call u" "pipes u = pipes s" "sleepers_ok p u" "m s = piperead p n u"
    using op_read(1) assms(3) in_call_awake [of s] sleepers_awake [of p s] resume_eq(2) [of s p n]
    by (auto simp: u_def in_call_def resumes_def)
  from assms(2) u(2) have ok: "pipe_ok (pipes u p)" by simp
  from op_read(2) have r: "piperead p n u = Done r t \<or> piperead p n u = Swtch t" by (simp only: u(4))
  with piperead_contents(1) [OF ok u(1), of n "fst r" "snd r" t] piperead_contents(2) [OF ok u(1), of n t] ok
  have "pipe_ok (pipes t p)" by auto
  with piperead_sleepers [OF ok u(1,3) r] show ?thesis by blast
next
  case (op_close wr)
  with pipeclose_sleepers assms(3) pipeclose_contents [OF assms(2)] show ?thesis by blast
next
  case op_other
  with assms(2,3) show ?thesis by (simp add: sleepers_ok_def)
qed




definition waiting_reader :: file_state where
  "waiting_reader = boot_file_state\<lparr>ptable := [zero_proc\<lparr>p_state := RUNNING\<rparr>,
     zero_proc\<lparr>p_state := SLEEPING, p_chan := Some (ChPipeRead 8)\<rparr>]\<rparr>"

lemma waiting_reader_fields:
  "pipes waiting_reader = pipes boot_file_state" "cur waiting_reader = 0" "in_call waiting_reader"
  "ptable waiting_reader = [zero_proc\<lparr>p_state := RUNNING\<rparr>, zero_proc\<lparr>p_state := SLEEPING, p_chan := Some (ChPipeRead 8)\<rparr>]"
  using boot_file_fields by (simp_all add: waiting_reader_def in_call_def cur_def)


text \<open>
  The write that fails does not keep that promise: a process that was killed and fills the pipe
  returns without waking the readers, which go on sleeping although there is data.
\<close>

lemma pipewrite_strands_reader:
  assumes "pipe_ok (pipes s p)" and "in_call s" and "pipe_contents (pipes s p) = []" and "asleep (ChPipeRead p) s"
    and "PIPESIZE < length src" and "p_killed (ptable s ! cur s)"
  shows "\<exists>t. pipewrite p src n s = Done (- 1) t \<and> asleep (ChPipeRead p) t \<and>
    pipe_contents (pipes t p) = take PIPESIZE src"
proof -
  have r: "pipe_room (pipes s p) = PIPESIZE" by (simp add: pipe_room_def assms(3))
  show ?thesis
    unfolding pipewrite_exec [OF assms(1,2)] Let_def r
    using assms(3-6) pipe_puts_room [OF assms(1), of src] by (simp add: r)
qed

end
