(* ===== verification/File.thy ===== *)
theory File
  imports Pipe
begin

text \<open>
  The table of open files (\<^verbatim>\<open>src/file.c\<close>) and the creation of pipes (\<open>pipealloc\<close> of
  \<^verbatim>\<open>src/pipe.c\<close>). A file is named by its index in \<open>ftable.file\<close>. A read gives its result and
  the bytes it stores, a write takes the \<open>n\<close> bytes it is given.
\<close>

definition upd_file :: "nat \<Rightarrow> (ofile \<Rightarrow> ofile) \<Rightarrow> 'z file_state_scheme \<Rightarrow> 'z file_state_scheme" where
  "upd_file i f s = s\<lparr>ftable := (ftable s)[i := f (ftable s ! i)]\<rparr>"

definition filealloc :: "('z file_state_scheme, nat option) kop" where
  "filealloc = kseq (lk_acquire LkFtable)
     (kbind (kget (\<lambda>s. find (\<lambda>i. f_ref (ftable s ! i) = 0) [0..<NFILE])) (\<lambda>r.
      kseq (case r of None \<Rightarrow> kret () | Some i \<Rightarrow> kmod (upd_file i (\<lambda>f. f\<lparr>f_ref := 1\<rparr>)))
      (kseq (lk_release LkFtable)
      (kret r))))"

definition filedup :: "nat \<Rightarrow> ('z file_state_scheme, nat) kop" where
  "filedup i = kseq (lk_acquire LkFtable)
     (kseq (kpanic_if (\<lambda>s. f_ref (ftable s ! i) < 1) ''filedup'')
     (kseq (kmod (upd_file i (\<lambda>f. f\<lparr>f_ref := f_ref f + 1\<rparr>)))
     (kseq (lk_release LkFtable)
     (kret i))))"

definition fileclose :: "nat \<Rightarrow> ('z file_state_scheme, unit) kop" where
  "fileclose i = kseq (lk_acquire LkFtable)
     (kseq (kpanic_if (\<lambda>s. f_ref (ftable s ! i) < 1) ''fileclose'')
     (kseq (kmod (upd_file i (\<lambda>f. f\<lparr>f_ref := f_ref f - 1\<rparr>)))
     (kbind (kget (\<lambda>s. ftable s ! i)) (\<lambda>ff.
      if f_ref ff > 0 then lk_release LkFtable
      else kseq (kmod (upd_file i (\<lambda>f. f\<lparr>f_ref := 0, f_type := FD_NONE\<rparr>)))
        (kseq (lk_release LkFtable)
        (if f_type ff = FD_PIPE then pipeclose (f_pipe ff) (f_writable ff)
         else if f_type ff = FD_INODE then kseq begin_op (kseq (iput (f_ip ff)) end_op)
         else kret ()))))))"

definition filestat :: "nat \<Rightarrow> ('z file_state_scheme, fstat option) kop" where
  "filestat i = kbind (kget (\<lambda>s. ftable s ! i)) (\<lambda>f.
     if f_type f = FD_INODE
     then kseq (ilock (Some (f_ip f)))
       (kbind (stati (f_ip f)) (\<lambda>st.
       kseq (iunlock (Some (f_ip f)))
       (kret (Some st))))
     else kret None)"

definition fileread :: "('z file_state_scheme) devsw \<Rightarrow> nat \<Rightarrow> int \<Rightarrow> ('z file_state_scheme, int \<times> byte list) kop" where
  "fileread devsw i n = kbind (kget (\<lambda>s. ftable s ! i)) (\<lambda>f.
     if \<not> f_readable f then kret (- 1, [])
     else if f_type f = FD_PIPE then piperead (f_pipe f) n
     else if f_type f = FD_INODE
     then kseq (ilock (Some (f_ip f)))
       (kbind (readi devsw (f_ip f) (f_off f) (word_of_int n)) (\<lambda>(r, v).
       kseq (if r > 0 then kmod (upd_file i (\<lambda>f. f\<lparr>f_off := f_off f + word_of_int r\<rparr>)) else kret ())
       (kseq (iunlock (Some (f_ip f)))
       (kret (r, v)))))
     else kpanic ''fileread'')"

text \<open>The largest piece \<open>filewrite\<close> writes in one transaction.\<close>

definition write_max :: nat where
  "write_max = ((30 - 1 - 1 - 2) div 2) * 512"

lemma write_max_pos: "src \<noteq> [] \<Longrightarrow> 0 < min (length src) write_max"
  by (simp add: write_max_def)

text \<open>The loop of \<open>filewrite\<close>: \<open>src\<close> is what is left to write; the result says whether the
  loop ended with \<open>i == n\<close>.\<close>

function filewrite_loop :: "('z file_state_scheme) devsw \<Rightarrow> nat \<Rightarrow> nat \<Rightarrow> byte list \<Rightarrow> ('z file_state_scheme, bool) kop" where
  "filewrite_loop devsw i ip src =
     (if src = [] then kret True
      else let n1 = min (length src) write_max in
        kseq begin_op
        (kseq (ilock (Some ip))
        (kbind (kget (\<lambda>s. f_off (ftable s ! i))) (\<lambda>off.
        kbind (writei devsw ip (take n1 src) off) (\<lambda>r.
        kseq (if r > 0 then kmod (upd_file i (\<lambda>f. f\<lparr>f_off := f_off f + word_of_int r\<rparr>)) else kret ())
        (kseq (iunlock (Some ip))
        (kseq end_op
        (if r < 0 then kret False
         else if r \<noteq> int n1 then kpanic ''short filewrite''
         else filewrite_loop devsw i ip (drop n1 src)))))))))"
  by pat_completeness auto
termination
  by (relation "measure (\<lambda>(_, _, _, src). length src)") (use write_max_pos in \<open>force simp: write_max_def\<close>)+

declare filewrite_loop.simps [simp del]

definition filewrite :: "('z file_state_scheme) devsw \<Rightarrow> nat \<Rightarrow> byte list \<Rightarrow> int \<Rightarrow> ('z file_state_scheme, int) kop" where
  "filewrite devsw i src n = kbind (kget (\<lambda>s. ftable s ! i)) (\<lambda>f.
     if \<not> f_writable f then kret (- 1)
     else if f_type f = FD_PIPE then pipewrite (f_pipe f) src n
     else if f_type f = FD_INODE
     then if n < 0 then kret (- 1)
          else kbind (filewrite_loop devsw i (f_ip f) src) (\<lambda>all. kret (if all then n else - 1))
     else kpanic ''filewrite'')"

text \<open>\<open>pipealloc\<close>: the read and the write end, or None with everything given back.\<close>

definition pipealloc :: "('z file_state_scheme, (nat \<times> nat) option) kop" where
  "pipealloc = kbind filealloc (\<lambda>f0.
     case f0 of
       None \<Rightarrow> kret None
     | Some f0 \<Rightarrow> kbind filealloc (\<lambda>f1.
         case f1 of
           None \<Rightarrow> kseq (fileclose f0) (kret None)
         | Some f1 \<Rightarrow> kbind kalloc (\<lambda>p.
             if p = 0 then kseq (fileclose f0) (kseq (fileclose f1) (kret None))
             else kseq (kmod (upd_pipe p (\<lambda>q. q\<lparr>pi_readopen := True, pi_writeopen := True,
                     pi_nwrite := 0, pi_nread := 0\<rparr>)))
               (kseq (kmod (upd_file f0 (\<lambda>f. f\<lparr>f_type := FD_PIPE, f_readable := True, f_writable := False, f_pipe := p\<rparr>)))
               (kseq (kmod (upd_file f1 (\<lambda>f. f\<lparr>f_type := FD_PIPE, f_readable := False, f_writable := True, f_pipe := p\<rparr>)))
               (kret (Some (f0, f1))))))))"

end
