(* ===== verification/Vm.thy ===== *)
theory Vm
  imports Kalloc
begin

text \<open>
  Virtual memory (\<^verbatim>\<open>src/vm.c\<close>): two-level page tables that live in pages of physical
  memory, read and written there word by word. A page directory is named by its kernel
  address, a page table entry by the address of the entry, 0 for none.
\<close>

section \<open>Entries\<close>

definition EXTMEM :: uint where "EXTMEM = 0x100000"
definition DEVSPACE :: uint where "DEVSPACE = 0xFE000000"
definition KERNLINK :: uint where "KERNLINK = KERNBASE + EXTMEM"
definition NPDENTRIES :: nat where "NPDENTRIES = 1024"

definition PTE_P :: uint where "PTE_P = 1"
definition PTE_W :: uint where "PTE_W = 2"
definition PTE_U :: uint where "PTE_U = 4"

definition PDX :: "uint \<Rightarrow> uint" where
  "PDX va = drop_bit 22 va AND 0x3FF"

definition PTX :: "uint \<Rightarrow> uint" where
  "PTX va = drop_bit 12 va AND 0x3FF"

definition PTE_ADDR :: "uint \<Rightarrow> uint" where
  "PTE_ADDR pte = pte AND NOT 0xFFF"

definition PTE_FLAGS :: "uint \<Rightarrow> uint" where
  "PTE_FLAGS pte = pte AND 0xFFF"

definition ld32 :: "uint \<Rightarrow> ('z kmem_state_scheme, uint) kop" where
  "ld32 a = kget (\<lambda>s. load32 (pmem s) a)"

definition st32 :: "uint \<Rightarrow> uint \<Rightarrow> ('z kmem_state_scheme, unit) kop" where
  "st32 a w = kmod (\<lambda>s. s\<lparr>pmem := store32 (pmem s) a w\<rparr>)"

definition zero_page :: "uint \<Rightarrow> ('z kmem_state_scheme, unit) kop" where
  "zero_page a = kmod (\<lambda>s. s\<lparr>pmem := memset (pmem s) a 0 PGSIZE\<rparr>)"

text \<open>Copy bytes to memory.\<close>

fun put_bytes :: "mem \<Rightarrow> uint \<Rightarrow> byte list \<Rightarrow> mem" where
  "put_bytes m a [] = m"
| "put_bytes m a (b # bs) = put_bytes (m(a := b)) (a + 1) bs"

definition get_bytes :: "mem \<Rightarrow> uint \<Rightarrow> nat \<Rightarrow> byte list" where
  "get_bytes m a n = map (\<lambda>k. m (a + of_nat k)) [0..<n]"

section \<open>Page tables\<close>

definition walkpgdir :: "uint \<Rightarrow> uint \<Rightarrow> bool \<Rightarrow> ('z kmem_state_scheme, uint) kop" where
  "walkpgdir pgdir va alloc =
     (let pde = pgdir + 4 * PDX va in
      kbind (ld32 pde) (\<lambda>e.
      if e AND PTE_P \<noteq> 0 then kret (p2v (PTE_ADDR e) + 4 * PTX va)
      else if \<not> alloc then kret 0
      else kbind kalloc (\<lambda>pgtab.
        if pgtab = 0 then kret 0
        else kseq (zero_page pgtab)
          (kseq (st32 pde (v2p pgtab OR PTE_P OR PTE_W OR PTE_U))
          (kret (pgtab + 4 * PTX va))))))"

text \<open>
  The loop of \<open>mappages\<close>; \<open>k\<close> pages remain after the one at \<open>a\<close>, the code's test
  \<open>a == last\<close> being true when none does. The result is the code's, 0 or \<open>-1\<close>.
\<close>

fun mappages_loop :: "uint \<Rightarrow> uint \<Rightarrow> uint \<Rightarrow> uint \<Rightarrow> nat \<Rightarrow> ('z kmem_state_scheme, int) kop" where
  "mappages_loop pgdir a pa perm k =
     kbind (walkpgdir pgdir a True) (\<lambda>pte.
     if pte = 0 then kret (- 1)
     else kbind (ld32 pte) (\<lambda>e.
       if e AND PTE_P \<noteq> 0 then kpanic ''remap''
       else kseq (st32 pte (pa OR perm OR PTE_P))
         (case k of 0 \<Rightarrow> kret 0
          | Suc k \<Rightarrow> mappages_loop pgdir (a + PGSIZE) (pa + PGSIZE) perm k)))"

definition mappages :: "uint \<Rightarrow> uint \<Rightarrow> uint \<Rightarrow> uint \<Rightarrow> uint \<Rightarrow> ('z kmem_state_scheme, int) kop" where
  "mappages pgdir va sz pa perm =
     (let a = PGROUNDDOWN va; last = PGROUNDDOWN (va + sz - 1)
      in mappages_loop pgdir a pa perm (unat (last - a) div 4096))"

text \<open>\<open>kmap\<close>; \<open>kdata\<close> is the linker's symbol \<open>data\<close>.\<close>

record kmap_entry =
  km_virt :: uint
  km_start :: uint
  km_end :: uint
  km_perm :: uint

definition kmap :: "uint \<Rightarrow> kmap_entry list" where
  "kmap kdata =
     [\<lparr>km_virt = KERNBASE, km_start = 0, km_end = EXTMEM, km_perm = PTE_W\<rparr>,
      \<lparr>km_virt = KERNLINK, km_start = v2p KERNLINK, km_end = v2p kdata, km_perm = 0\<rparr>,
      \<lparr>km_virt = kdata, km_start = v2p kdata, km_end = PHYSTOP, km_perm = PTE_W\<rparr>,
      \<lparr>km_virt = DEVSPACE, km_start = DEVSPACE, km_end = 0, km_perm = PTE_W\<rparr>]"

fun map_all :: "uint \<Rightarrow> kmap_entry list \<Rightarrow> ('z kmem_state_scheme, uint) kop" where
  "map_all pgdir [] = kret pgdir"
| "map_all pgdir (k # ks) =
     kbind (mappages pgdir (km_virt k) (km_end k - km_start k) (km_start k) (km_perm k)) (\<lambda>r.
     if r < 0 then kret 0 else map_all pgdir ks)"

definition setupkvm :: "uint \<Rightarrow> ('z kmem_state_scheme, uint) kop" where
  "setupkvm kdata = kbind kalloc (\<lambda>pgdir.
     if pgdir = 0 then kret 0
     else kseq (zero_page pgdir)
       (kseq (kpanic_if (\<lambda>s. p2v PHYSTOP > DEVSPACE) ''PHYSTOP too high'')
       (map_all pgdir (kmap kdata))))"

definition kvmalloc :: "uint \<Rightarrow> ('z kmem_state_scheme, unit) kop" where
  "kvmalloc kdata = kbind (setupkvm kdata) (\<lambda>pgdir.
     kseq (kmod (\<lambda>s. s\<lparr>kpgdir := pgdir\<rparr>)) switchkvm)"

section \<open>User memory\<close>

definition inituvm :: "uint \<Rightarrow> byte list \<Rightarrow> ('z kmem_state_scheme, unit) kop" where
  "inituvm pgdir init = kseq (kpanic_if (\<lambda>s. length init \<ge> 4096) ''inituvm: more than a page'')
     (kbind kalloc (\<lambda>mem.
     kseq (zero_page mem)
     (kseq (mappages pgdir 0 PGSIZE (v2p mem) (PTE_W OR PTE_U))
     (kmod (\<lambda>s. s\<lparr>pmem := put_bytes (pmem s) mem init\<rparr>)))))"

text \<open>
  The loop of \<open>deallocuvm\<close>. Every round moves \<open>a\<close> up by at least a page, so one unit of
  fuel for each page below \<open>oldsz\<close> is enough for the addresses of user memory.
\<close>

fun deallocuvm_loop :: "nat \<Rightarrow> uint \<Rightarrow> uint \<Rightarrow> uint \<Rightarrow> ('z kmem_state_scheme, unit) kop" where
  "deallocuvm_loop 0 pgdir a oldsz = kret ()"
| "deallocuvm_loop (Suc n) pgdir a oldsz =
     (if a < oldsz
      then kbind (walkpgdir pgdir a False) (\<lambda>pte.
        if pte = 0 then deallocuvm_loop n pgdir (a + 1023 * PGSIZE + PGSIZE) oldsz
        else kbind (ld32 pte) (\<lambda>e.
          kseq (if e AND PTE_P \<noteq> 0
                then kseq (kpanic_if (\<lambda>s. PTE_ADDR e = 0) ''kfree'')
                  (kseq (kfree (p2v (PTE_ADDR e)))
                  (st32 pte 0))
                else kret ())
          (deallocuvm_loop n pgdir (a + PGSIZE) oldsz)))
      else kret ())"

definition deallocuvm :: "uint \<Rightarrow> uint \<Rightarrow> uint \<Rightarrow> ('z kmem_state_scheme, uint) kop" where
  "deallocuvm pgdir oldsz newsz =
     (if newsz \<ge> oldsz then kret oldsz
      else kseq (deallocuvm_loop (unat oldsz div 4096 + 1) pgdir (PGROUNDUP newsz) oldsz) (kret newsz))"

text \<open>The loop of \<open>allocuvm\<close> over the pages from \<open>PGROUNDUP(oldsz)\<close>; the message it prints
  when memory runs out is left out.\<close>

fun allocuvm_loop :: "uint \<Rightarrow> uint \<Rightarrow> uint \<Rightarrow> uint list \<Rightarrow> ('z kmem_state_scheme, uint) kop" where
  "allocuvm_loop pgdir oldsz newsz [] = kret newsz"
| "allocuvm_loop pgdir oldsz newsz (a # as) =
     kbind kalloc (\<lambda>mem.
     if mem = 0 then kseq (deallocuvm pgdir newsz oldsz) (kret 0)
     else kseq (zero_page mem)
       (kseq (mappages pgdir a PGSIZE (v2p mem) (PTE_W OR PTE_U))
       (allocuvm_loop pgdir oldsz newsz as)))"

text \<open>The addresses \<open>a, a + PGSIZE, ...\<close> below \<open>e\<close>.\<close>

definition pages_below :: "uint \<Rightarrow> uint \<Rightarrow> uint list" where
  "pages_below a e = map (\<lambda>k. a + of_nat (4096 * k)) [0..<(unat e - unat a + 4095) div 4096]"

definition allocuvm :: "uint \<Rightarrow> uint \<Rightarrow> uint \<Rightarrow> ('z kmem_state_scheme, uint) kop" where
  "allocuvm pgdir oldsz newsz =
     (if newsz \<ge> KERNBASE then kret 0
      else if newsz < oldsz then kret oldsz
      else allocuvm_loop pgdir oldsz newsz (pages_below (PGROUNDUP oldsz) newsz))"

definition freevm :: "uint \<Rightarrow> ('z kmem_state_scheme, unit) kop" where
  "freevm pgdir = kseq (kpanic_if (\<lambda>s. pgdir = 0) ''freevm: no pgdir'')
     (kseq (deallocuvm pgdir KERNBASE 0)
     (kseq (kfor [0..<NPDENTRIES] (\<lambda>i.
       kbind (ld32 (pgdir + 4 * of_nat i)) (\<lambda>e.
       if e AND PTE_P \<noteq> 0 then kfree (p2v (PTE_ADDR e)) else kret ())))
     (kfree pgdir)))"

definition clearpteu :: "uint \<Rightarrow> uint \<Rightarrow> ('z kmem_state_scheme, unit) kop" where
  "clearpteu pgdir uva = kbind (walkpgdir pgdir uva False) (\<lambda>pte.
     kseq (kpanic_if (\<lambda>s. pte = 0) ''clearpteu'')
     (kbind (ld32 pte) (\<lambda>e. st32 pte (e AND NOT PTE_U))))"

fun copyuvm_loop :: "uint \<Rightarrow> uint \<Rightarrow> uint list \<Rightarrow> ('z kmem_state_scheme, uint) kop" where
  "copyuvm_loop pgdir d [] = kret d"
| "copyuvm_loop pgdir d (i # is) =
     kbind (walkpgdir pgdir i False) (\<lambda>pte.
     kseq (kpanic_if (\<lambda>s. pte = 0) ''copyuvm: pte should exist'')
     (kbind (ld32 pte) (\<lambda>e.
     kseq (kpanic_if (\<lambda>s. e AND PTE_P = 0) ''copyuvm: page not present'')
     (kbind kalloc (\<lambda>mem.
     if mem = 0 then kseq (freevm d) (kret 0)
     else kseq (kmod (\<lambda>s. s\<lparr>pmem := memmove (pmem s) mem (p2v (PTE_ADDR e)) PGSIZE\<rparr>))
       (kbind (mappages d i PGSIZE (v2p mem) (PTE_FLAGS e)) (\<lambda>r.
        if r < 0 then kseq (freevm d) (kret 0)
        else copyuvm_loop pgdir d is)))))))"

definition copyuvm :: "uint \<Rightarrow> uint \<Rightarrow> uint \<Rightarrow> ('z kmem_state_scheme, uint) kop" where
  "copyuvm kdata pgdir sz = kbind (setupkvm kdata) (\<lambda>d.
     if d = 0 then kret 0 else copyuvm_loop pgdir d (pages_below 0 sz))"

text \<open>\<open>uva2ka\<close> reads the entry without checking that \<open>walkpgdir\<close> found one: a null pointer
  makes it read the word at address 0.\<close>

definition uva2ka :: "uint \<Rightarrow> uint \<Rightarrow> ('z kmem_state_scheme, uint) kop" where
  "uva2ka pgdir uva = kbind (walkpgdir pgdir uva False) (\<lambda>pte.
     kbind (ld32 pte) (\<lambda>e.
     if e AND PTE_P = 0 then kret 0
     else if e AND PTE_U = 0 then kret 0
     else kret (p2v (PTE_ADDR e))))"

text \<open>\<open>va - va0\<close> is the offset of \<open>va\<close> in its page.\<close>

lemma page_chunk: "p \<noteq> [] \<Longrightarrow> 0 < min (length p) (4096 - k mod 4096)"
  by simp

function copyout :: "uint \<Rightarrow> uint \<Rightarrow> byte list \<Rightarrow> ('z kmem_state_scheme, int) kop" where
  "copyout pgdir va p =
     (if p = [] then kret 0
      else let va0 = PGROUNDDOWN va; off = unat va mod 4096; n = min (length p) (4096 - off) in
        kbind (uva2ka pgdir va0) (\<lambda>pa0.
        if pa0 = 0 then kret (- 1)
        else kseq (kmod (\<lambda>s. s\<lparr>pmem := put_bytes (pmem s) (pa0 + of_nat off) (take n p)\<rparr>))
          (copyout pgdir (va0 + PGSIZE) (drop n p))))"
  by pat_completeness auto
termination
  by (relation "measure (\<lambda>(_, _, p). length p)") (use page_chunk in force)+

declare mappages_loop.simps [simp del] copyout.simps [simp del]

section \<open>The hardware's view\<close>

text \<open>
  The translation of an address by the paging hardware under a page directory, on the entries
  as they stand in memory: the flags of the page and the kernel address of the byte.
\<close>

definition page_entry :: "mem \<Rightarrow> uint \<Rightarrow> uint \<Rightarrow> uint" where
  "page_entry m pgdir va =
     (let e = load32 m (pgdir + 4 * PDX va)
      in if e AND PTE_P = 0 then 0 else load32 m (p2v (PTE_ADDR e) + 4 * PTX va))"

definition translate :: "mem \<Rightarrow> uint \<Rightarrow> uint \<Rightarrow> uint option" where
  "translate m pgdir va =
     (let e = page_entry m pgdir va
      in if e AND PTE_P = 0 then None else Some (p2v (PTE_ADDR e) + (va AND 0xFFF)))"

end
