(* ===== verification/Proc.thy ===== *)
theory Proc
  imports File Vm
begin

text \<open>
  The life of a process (\<^verbatim>\<open>src/proc.c\<close>): \<open>allocproc\<close>, \<open>userinit\<close>, \<open>growproc\<close>, \<open>fork\<close>, \<open>exit\<close>,
  \<open>wait\<close> and \<open>forkret\<close>. Addresses fixed by the linker (the end of the kernel's read-only
  data, \<open>forkret\<close> and \<open>trapret\<close>) are arguments.
\<close>

section \<open>State\<close>

text \<open>\<open>forkret_first\<close> is the static variable \<open>first\<close> of \<open>forkret\<close>.\<close>

record proc_state = file_state +
  forkret_first :: bool

record linkage =
  ln_data :: uint
  ln_forkret :: uint
  ln_trapret :: uint

definition FL_IF :: uint where "FL_IF = 0x200"
definition DPL_USER :: ushort where "DPL_USER = 3"
definition SEG_UCODE :: ushort where "SEG_UCODE = 4"
definition SEG_UDATA :: ushort where "SEG_UDATA = 5"

text \<open>\<open>safestrcpy\<close> into the 16 bytes of a name.\<close>

definition set_name :: "byte list \<Rightarrow> byte list \<Rightarrow> byte list" where
  "set_name new old = (let c = takeWhile (\<lambda>b. b \<noteq> 0) (take 15 new)
     in c @ 0 # drop (length c + 1) old)"

abbreviation kcur :: "(proc \<Rightarrow> 'a) \<Rightarrow> ('z kstate_scheme, 'a) kop" where
  "kcur f \<equiv> kget (\<lambda>s. f (ptable s ! cur s))"

section \<open>Creating processes\<close>

text \<open>
  \<open>allocproc\<close>. The kernel stack holds the trap frame (76 bytes), below it the return
  address \<open>trapret\<close> and the context (20 bytes); frame and context are fields of the process
  here, only the return address is stored in memory.
\<close>

definition allocproc :: "linkage \<Rightarrow> ('z kmem_state_scheme, nat option) kop" where
  "allocproc ln = kseq (lk_acquire LkPtable)
     (kbind (kget (\<lambda>s. find (\<lambda>i. p_state (ptable s ! i) = UNUSED) [0..<length (ptable s)])) (\<lambda>r.
      case r of
        None \<Rightarrow> kseq (lk_release LkPtable) (kret None)
      | Some i \<Rightarrow>
          kseq (kmod (\<lambda>s. upd_proc i (\<lambda>p. p\<lparr>p_state := EMBRYO, p_pid := nextpid s, p_tickets := INIT_TICKETS\<rparr>) s))
          (kseq (kmod (\<lambda>s. s\<lparr>nextpid := nextpid s + 1\<rparr>))
          (kseq (lk_release LkPtable)
          (kbind kalloc (\<lambda>st.
          kseq (kmod (upd_proc i (\<lambda>p. p\<lparr>p_kstack := st\<rparr>)))
          (if st = 0
           then kseq (kmod (upd_proc i (\<lambda>p. p\<lparr>p_state := UNUSED\<rparr>))) (kret None)
           else kseq (st32 (st + KSTACKSIZE - 76 - 4) (ln_trapret ln))
             (kseq (kmod (upd_proc i (\<lambda>p. p\<lparr>p_context := zero_context\<lparr>c_eip := ln_forkret ln\<rparr>\<rparr>)))
             (kret (Some i))))))))))"

definition user_tf :: trapframe where
  "user_tf = zero_tf\<lparr>tf_cs := push_bit 3 SEG_UCODE OR DPL_USER, tf_ds := push_bit 3 SEG_UDATA OR DPL_USER,
     tf_es := push_bit 3 SEG_UDATA OR DPL_USER, tf_ss := push_bit 3 SEG_UDATA OR DPL_USER,
     tf_eflags := FL_IF, tf_esp := PGSIZE, tf_eip := 0\<rparr>"

definition initcode_name :: "byte list" where
  "initcode_name = map of_char ''initcode''"

text \<open>With no free slot \<open>userinit\<close> would use a null pointer: a page fault in the kernel, which
  \<open>trap\<close> answers with a panic.\<close>

definition userinit :: "linkage \<Rightarrow> byte list \<Rightarrow> ('z file_state_scheme) devsw \<Rightarrow> ('z file_state_scheme, unit) kop" where
  "userinit ln initcode devsw = kbind (allocproc ln) (\<lambda>r.
     kseq (kmod (\<lambda>s. s\<lparr>initproc := r\<rparr>))
     (case r of
        None \<Rightarrow> kpanic ''trap''
      | Some i \<Rightarrow>
          kbind (setupkvm (ln_data ln)) (\<lambda>pgdir.
          kseq (kmod (upd_proc i (\<lambda>p. p\<lparr>p_pgdir := pgdir\<rparr>)))
          (kseq (kpanic_if (\<lambda>s. pgdir = 0) ''userinit: out of memory?'')
          (kseq (inituvm pgdir initcode)
          (kseq (kmod (upd_proc i (\<lambda>p. p\<lparr>p_sz := PGSIZE, p_tf := user_tf, p_name := set_name initcode_name (p_name p)\<rparr>)))
          (kbind (namei devsw [slash]) (\<lambda>cwd.
          kmod (upd_proc i (\<lambda>p. p\<lparr>p_cwd := cwd, p_state := RUNNABLE, p_tickets := INIT_TICKETS\<rparr>))))))))))"

definition growproc :: "int \<Rightarrow> ('z kmem_state_scheme, int) kop" where
  "growproc n = kbind (kcur id) (\<lambda>p.
     kbind (if n > 0 then allocuvm (p_pgdir p) (p_sz p) (p_sz p + word_of_int n)
            else if n < 0 then deallocuvm (p_pgdir p) (p_sz p) (p_sz p + word_of_int n)
            else kret (p_sz p)) (\<lambda>sz.
     if n \<noteq> 0 \<and> sz = 0 then kret (- 1)
     else kseq (kmod (\<lambda>s. upd_proc (cur s) (\<lambda>p. p\<lparr>p_sz := sz\<rparr>) s))
       (kseq (\<lambda>s. switchuvm (cur s) s)
       (kret 0))))"

text \<open>The loop of \<open>fork\<close> over the open files.\<close>

definition fork_files :: "nat \<Rightarrow> ('z file_state_scheme, unit) kop" where
  "fork_files np = kfor [0..<NOFILE] (\<lambda>fd.
     kbind (kcur (\<lambda>p. p_ofile p ! fd)) (\<lambda>f.
     case f of
       None \<Rightarrow> kret ()
     | Some i \<Rightarrow> kbind (filedup i) (\<lambda>j. kmod (upd_proc np (\<lambda>p. p\<lparr>p_ofile := (p_ofile p)[fd := Some j]\<rparr>)))))"

definition fork :: "linkage \<Rightarrow> ('z file_state_scheme, int) kop" where
  "fork ln = kbind (allocproc ln) (\<lambda>r.
     case r of
       None \<Rightarrow> kret (- 1)
     | Some np \<Rightarrow>
         kbind (kcur id) (\<lambda>p.
         kbind (copyuvm (ln_data ln) (p_pgdir p) (p_sz p)) (\<lambda>pgdir.
         kseq (kmod (upd_proc np (\<lambda>q. q\<lparr>p_pgdir := pgdir\<rparr>)))
         (if pgdir = 0
          then kbind (kget (\<lambda>s. p_kstack (ptable s ! np))) (\<lambda>st.
            kseq (kfree st)
            (kseq (kmod (upd_proc np (\<lambda>q. q\<lparr>p_kstack := 0, p_state := UNUSED\<rparr>)))
            (kret (- 1))))
          else kseq (kmod (\<lambda>s. upd_proc np (\<lambda>q. q\<lparr>p_sz := p_sz p, p_parent := curproc s,
                   p_tf := (p_tf p)\<lparr>tf_eax := 0\<rparr>\<rparr>) s))
            (kseq (fork_files np)
            (kbind (idup (the (p_cwd p))) (\<lambda>cwd.
            kseq (kmod (upd_proc np (\<lambda>q. q\<lparr>p_cwd := Some cwd, p_name := set_name (p_name p) (p_name q)\<rparr>)))
            (kbind (kget (\<lambda>s. p_pid (ptable s ! np))) (\<lambda>pid.
            kseq (lk_acquire LkPtable)
            (kseq (kmod (upd_proc np (\<lambda>q. q\<lparr>p_state := RUNNABLE\<rparr>)))
            (kseq (lk_release LkPtable)
            (kret pid))))))))))))"

section \<open>Ending processes\<close>

definition exit_files :: "('z file_state_scheme, unit) kop" where
  "exit_files = kfor [0..<NOFILE] (\<lambda>fd.
     kbind (kcur (\<lambda>p. p_ofile p ! fd)) (\<lambda>f.
     case f of
       None \<Rightarrow> kret ()
     | Some i \<Rightarrow> kseq (fileclose i)
         (kmod (\<lambda>s. upd_proc (cur s) (\<lambda>p. p\<lparr>p_ofile := (p_ofile p)[fd := None]\<rparr>) s))))"

text \<open>\<open>wakeup1\<close> on a process pointer that may be null; nobody sleeps on address 0.\<close>

definition wakeup_proc :: "nat option \<Rightarrow> ('z kstate_scheme, unit) kop" where
  "wakeup_proc p = (case p of None \<Rightarrow> kret () | Some i \<Rightarrow> wakeup1 (ChProc i))"

definition reparent :: "('z kstate_scheme, unit) kop" where
  "reparent s = kfor [0..<length (ptable s)] (\<lambda>i.
     kbind (kget (\<lambda>s. p_parent (ptable s ! i) = curproc s)) (\<lambda>child.
     if child
     then kseq (kmod (\<lambda>s. upd_proc i (\<lambda>p. p\<lparr>p_parent := initproc s\<rparr>) s))
       (kbind (kget (\<lambda>s. p_state (ptable s ! i) = ZOMBIE)) (\<lambda>zombie.
        if zombie then kbind (kget initproc) wakeup_proc else kret ()))
     else kret ())) s"

definition exit :: "('z file_state_scheme, 'a) kop" where
  "exit = kseq (kpanic_if (\<lambda>s. curproc s = initproc s) ''init exiting'')
     (kseq exit_files
     (kseq begin_op
     (kbind (kcur p_cwd) (\<lambda>cwd.
     kseq (iput (the cwd))
     (kseq end_op
     (kseq (kmod (\<lambda>s. upd_proc (cur s) (\<lambda>p. p\<lparr>p_cwd := None\<rparr>) s))
     (kseq (lk_acquire LkPtable)
     (kbind (kcur p_parent) (\<lambda>parent.
     kseq (wakeup_proc parent)
     (kseq reparent
     (kseq (kmod (\<lambda>s. upd_proc (cur s) (\<lambda>p. p\<lparr>p_state := ZOMBIE\<rparr>) s))
     sched)))))))))))"

text \<open>
  \<open>wait\<close> from the \<open>for(;;)\<close> loop on, with the lock held. A process with living children
  sleeps on its own address and starts again from there.
\<close>

definition wait_loop :: "('z kmem_state_scheme, int) kop" where
  "wait_loop =
     kbind (kget (\<lambda>s. find (\<lambda>i. p_parent (ptable s ! i) = curproc s \<and> p_state (ptable s ! i) = ZOMBIE)
        [0..<length (ptable s)])) (\<lambda>r.
     case r of
       Some i \<Rightarrow>
         kbind (kget (\<lambda>s. ptable s ! i)) (\<lambda>p.
         kseq (kfree (p_kstack p))
         (kseq (kmod (upd_proc i (\<lambda>p. p\<lparr>p_kstack := 0\<rparr>)))
         (kseq (freevm (p_pgdir p))
         (kseq (kmod (upd_proc i (\<lambda>p. p\<lparr>p_state := UNUSED, p_pid := 0, p_parent := None,
              p_name := (p_name p)[0 := 0], p_killed := False\<rparr>)))
         (kseq (lk_release LkPtable)
         (kret (p_pid p)))))))
     | None \<Rightarrow>
         kbind (kget (\<lambda>s. (\<forall>p \<in> set (ptable s). p_parent p \<noteq> curproc s) \<or> p_killed (ptable s ! cur s))) (\<lambda>stop.
         if stop then kseq (lk_release LkPtable) (kret (- 1))
         else (\<lambda>s. sleep (ChProc (cur s)) LkPtable s)))"

definition wait :: "('z kmem_state_scheme, int) kop" where
  "wait = kseq (lk_acquire LkPtable) wait_loop"

definition wait_resume :: "('z kmem_state_scheme, int) kop" where
  "wait_resume = kseq (sleep_resume LkPtable) wait_loop"

definition forkret :: "('z proc_state_scheme, unit) kop" where
  "forkret = kseq (lk_release LkPtable)
     (kbind (kget forkret_first) (\<lambda>first.
      if first
      then kseq (kmod (\<lambda>s. s\<lparr>forkret_first := False\<rparr>))
        (kseq (iinit ROOTDEV) (initlog ROOTDEV))
      else kret ()))"

end
