(* ===== verification/Syscall.thy ===== *)
theory Syscall
  imports Proc
begin

text \<open>
  System call arguments (\<^verbatim>\<open>src/syscall.c\<close>) and the process system calls
  (\<^verbatim>\<open>src/sysproc.c\<close>). The kernel reads and writes user memory through the page table that is
  loaded in \<open>cr3\<close>; an access the page table does not translate is a page fault in the
  kernel, which \<open>trap\<close> answers with a panic.
\<close>

section \<open>User memory\<close>

definition uload :: "uint \<Rightarrow> ('z kmem_state_scheme, byte) kop" where
  "uload va s = (case translate (pmem s) (p2v (cr3 s)) va of
     None \<Rightarrow> Panic ''trap'' | Some a \<Rightarrow> Done (pmem s a) s)"

fun uload_bytes :: "uint \<Rightarrow> nat \<Rightarrow> ('z kmem_state_scheme, byte list) kop" where
  "uload_bytes va 0 = kret []"
| "uload_bytes va (Suc n) = kbind (uload va) (\<lambda>b. kbind (uload_bytes (va + 1) n) (\<lambda>bs. kret (b # bs)))"

definition ustore :: "uint \<Rightarrow> byte \<Rightarrow> ('z kmem_state_scheme, unit) kop" where
  "ustore va b s = (case translate (pmem s) (p2v (cr3 s)) va of
     None \<Rightarrow> Panic ''trap'' | Some a \<Rightarrow> Done () (s\<lparr>pmem := (pmem s)(a := b)\<rparr>))"

fun ustore_bytes :: "uint \<Rightarrow> byte list \<Rightarrow> ('z kmem_state_scheme, unit) kop" where
  "ustore_bytes va [] = kret ()"
| "ustore_bytes va (b # bs) = kseq (ustore va b) (ustore_bytes (va + 1) bs)"

definition word_of_bytes4 :: "byte list \<Rightarrow> uint" where
  "word_of_bytes4 v = ucast (v ! 0) OR push_bit 8 (ucast (v ! 1))
     OR push_bit 16 (ucast (v ! 2)) OR push_bit 24 (ucast (v ! 3))"

definition bytes_of_word :: "uint \<Rightarrow> byte list" where
  "bytes_of_word w = [ucast w, ucast (drop_bit 8 w), ucast (drop_bit 16 w), ucast (drop_bit 24 w)]"

section \<open>Arguments\<close>

text \<open>A fetch gives None where the code returns \<open>-1\<close>.\<close>

definition fetchint :: "uint \<Rightarrow> ('z kmem_state_scheme, uint option) kop" where
  "fetchint addr = kbind (kcur p_sz) (\<lambda>sz.
     if addr \<ge> sz \<or> addr + 4 > sz then kret None
     else kbind (uload_bytes addr 4) (\<lambda>v. kret (Some (word_of_bytes4 v))))"

text \<open>The scan of \<open>fetchstr\<close> over the addresses below \<open>proc->sz\<close>; it gives the string.\<close>

fun fetchstr_scan :: "nat \<Rightarrow> uint \<Rightarrow> ('z kmem_state_scheme, byte list option) kop" where
  "fetchstr_scan 0 a = kret None"
| "fetchstr_scan (Suc n) a = kbind (uload a) (\<lambda>b.
     if b = 0 then kret (Some [])
     else kbind (fetchstr_scan n (a + 1)) (\<lambda>r. kret (map_option ((#) b) r)))"

definition fetchstr :: "uint \<Rightarrow> ('z kmem_state_scheme, byte list option) kop" where
  "fetchstr addr = kbind (kcur p_sz) (\<lambda>sz.
     if addr \<ge> sz then kret None else fetchstr_scan (unat sz - unat addr) addr)"

definition argint :: "nat \<Rightarrow> ('z kmem_state_scheme, uint option) kop" where
  "argint n = kbind (kcur (\<lambda>p. tf_esp (p_tf p))) (\<lambda>esp. fetchint (esp + 4 + 4 * of_nat n))"

definition argptr :: "nat \<Rightarrow> uint \<Rightarrow> ('z kmem_state_scheme, uint option) kop" where
  "argptr n sz = kbind (argint n) (\<lambda>r.
     case r of
       None \<Rightarrow> kret None
     | Some i \<Rightarrow> kbind (kcur p_sz) (\<lambda>psz.
         if i \<ge> psz \<or> i + sz > psz then kret None else kret (Some i)))"

definition argstr :: "nat \<Rightarrow> ('z kmem_state_scheme, byte list option) kop" where
  "argstr n = kbind (argint n) (\<lambda>r. case r of None \<Rightarrow> kret None | Some addr \<Rightarrow> fetchstr addr)"

section \<open>Process system calls\<close>

text \<open>Results are the 32-bit values returned in \<open>eax\<close>.\<close>

definition sys_fork :: "linkage \<Rightarrow> ('z file_state_scheme, uint) kop" where
  "sys_fork ln = kbind (fork ln) (\<lambda>r. kret (word_of_int r))"

definition sys_exit :: "('z file_state_scheme, uint) kop" where
  "sys_exit = exit"

definition sys_wait :: "('z kmem_state_scheme, uint) kop" where
  "sys_wait = kbind wait (\<lambda>r. kret (word_of_int r))"

definition sys_kill :: "('z kmem_state_scheme, uint) kop" where
  "sys_kill = kbind (argint 0) (\<lambda>r.
     case r of None \<Rightarrow> kret (- 1) | Some pid \<Rightarrow> kbind (kill (sint pid)) (\<lambda>r. kret (word_of_int r)))"

definition sys_getpid :: "('z kmem_state_scheme, uint) kop" where
  "sys_getpid = kcur (\<lambda>p. word_of_int (p_pid p))"

definition sys_sbrk :: "('z kmem_state_scheme, uint) kop" where
  "sys_sbrk = kbind (argint 0) (\<lambda>r.
     case r of
       None \<Rightarrow> kret (- 1)
     | Some n \<Rightarrow> kbind (kcur p_sz) (\<lambda>addr.
         kbind (growproc (sint n)) (\<lambda>r.
         if r < 0 then kret (- 1) else kret addr)))"

text \<open>The loop of \<open>sys_sleep\<close>, with the lock held; \<open>ticks - ticks0 < n\<close> compares as unsigned.\<close>

definition sys_sleep_loop :: "uint \<Rightarrow> uint \<Rightarrow> ('z kmem_state_scheme, uint) kop" where
  "sys_sleep_loop ticks0 n = kbind (kget (\<lambda>s. ticks s - ticks0 < n)) (\<lambda>early.
     if early
     then kbind (kcur p_killed) (\<lambda>killed.
       if killed then kseq (lk_release LkTicks) (kret (- 1))
       else sleep ChTicks LkTicks)
     else kseq (lk_release LkTicks) (kret 0))"

definition sys_sleep :: "('z kmem_state_scheme, uint) kop" where
  "sys_sleep = kbind (argint 0) (\<lambda>r.
     case r of
       None \<Rightarrow> kret (- 1)
     | Some n \<Rightarrow> kseq (lk_acquire LkTicks) (kbind (kget ticks) (\<lambda>ticks0. sys_sleep_loop ticks0 n)))"

definition sys_sleep_resume :: "uint \<Rightarrow> uint \<Rightarrow> ('z kmem_state_scheme, uint) kop" where
  "sys_sleep_resume ticks0 n = kseq (sleep_resume LkTicks) (sys_sleep_loop ticks0 n)"

definition sys_uptime :: "('z kmem_state_scheme, uint) kop" where
  "sys_uptime = kseq (lk_acquire LkTicks)
     (kbind (kget ticks) (\<lambda>x. kseq (lk_release LkTicks) (kret x)))"

text \<open>\<open>date\<close> is what \<open>cmostime\<close> stores: a \<open>struct rtcdate\<close> of 24 bytes.\<close>

definition sys_gettime :: "byte list \<Rightarrow> ('z kmem_state_scheme, uint) kop" where
  "sys_gettime date = kbind (argptr 0 24) (\<lambda>r.
     case r of None \<Rightarrow> kret (- 1) | Some d \<Rightarrow> kseq (ustore_bytes d date) (kret 0))"

definition sys_settickets :: "('z kmem_state_scheme, uint) kop" where
  "sys_settickets = kbind (argint 0) (\<lambda>r.
     case r of
       None \<Rightarrow> kret 0
     | Some num \<Rightarrow> kseq (kmod (\<lambda>s. upd_proc (cur s) (\<lambda>p. p\<lparr>p_tickets := num\<rparr>) s)) (kret num))"

end
