(* ===== verification/Exec.thy ===== *)
theory Exec
  imports Syscall
begin

text \<open>
  \<open>exec\<close> (\<^verbatim>\<open>src/exec.c\<close>, with \<open>loaduvm\<close> of \<^verbatim>\<open>src/vm.c\<close>): a new page table with the
  program's segments, the user stack with the arguments, and the switch to it.
\<close>

section \<open>Loading a program\<close>

definition MAXARG :: nat where "MAXARG = 32"
definition ELF_MAGIC :: uint where "ELF_MAGIC = 0x464C457F"
definition ELF_PROG_LOAD :: uint where "ELF_PROG_LOAD = 1"

text \<open>The fields of \<open>struct elfhdr\<close> (52 bytes) and \<open>struct proghdr\<close> (32 bytes) that \<open>exec\<close> uses.\<close>

record elfhdr =
  eh_magic :: uint
  eh_entry :: uint
  eh_phoff :: uint
  eh_phnum :: ushort

definition get_elfhdr :: "byte list \<Rightarrow> elfhdr" where
  "get_elfhdr v = \<lparr>eh_magic = rd32 v 0, eh_entry = rd32 v 24, eh_phoff = rd32 v 28, eh_phnum = rd16 v 44\<rparr>"

record proghdr =
  ph_type :: uint
  ph_off :: uint
  ph_vaddr :: uint
  ph_filesz :: uint
  ph_memsz :: uint

definition get_proghdr :: "byte list \<Rightarrow> proghdr" where
  "get_proghdr v = \<lparr>ph_type = rd32 v 0, ph_off = rd32 v 4, ph_vaddr = rd32 v 8,
     ph_filesz = rd32 v 16, ph_memsz = rd32 v 20\<rparr>"

fun loaduvm_loop :: "('z fs_state_scheme) devsw \<Rightarrow> uint \<Rightarrow> uint \<Rightarrow> nat \<Rightarrow> uint \<Rightarrow> uint \<Rightarrow> uint list \<Rightarrow>
    ('z fs_state_scheme, int) kop" where
  "loaduvm_loop devsw pgdir addr ip offset sz [] = kret 0"
| "loaduvm_loop devsw pgdir addr ip offset sz (i # is) =
     kbind (walkpgdir pgdir (addr + i) False) (\<lambda>pte.
     kseq (kpanic_if (\<lambda>s. pte = 0) ''loaduvm: address should exist'')
     (kbind (ld32 pte) (\<lambda>e.
      let n = (if sz - i < PGSIZE then sz - i else PGSIZE) in
      kbind (readi devsw ip (offset + i) n) (\<lambda>(r, v).
      kseq (kmod (\<lambda>s. s\<lparr>pmem := put_bytes (pmem s) (p2v (PTE_ADDR e)) v\<rparr>))
      (if word_of_int r \<noteq> n then kret (- 1)
       else loaduvm_loop devsw pgdir addr ip offset sz is)))))"

definition loaduvm :: "('z fs_state_scheme) devsw \<Rightarrow> uint \<Rightarrow> uint \<Rightarrow> nat \<Rightarrow> uint \<Rightarrow> uint \<Rightarrow>
    ('z fs_state_scheme, int) kop" where
  "loaduvm devsw pgdir addr ip offset sz =
     kseq (kpanic_if (\<lambda>s. addr mod PGSIZE \<noteq> 0) ''loaduvm: addr must be page aligned'')
     (loaduvm_loop devsw pgdir addr ip offset sz (pages_below 0 sz))"

text \<open>The loop of \<open>exec\<close> over the program headers: the new size, or None for \<open>goto bad\<close>.\<close>

fun load_segments :: "('z fs_state_scheme) devsw \<Rightarrow> uint \<Rightarrow> nat \<Rightarrow> uint \<Rightarrow> uint \<Rightarrow> nat \<Rightarrow>
    ('z fs_state_scheme, uint option) kop" where
  "load_segments devsw pgdir ip off sz 0 = kret (Some sz)"
| "load_segments devsw pgdir ip off sz (Suc k) =
     kbind (readi devsw ip off 32) (\<lambda>(r, v).
     if r \<noteq> 32 then kret None
     else let ph = get_proghdr v in
       if ph_type ph \<noteq> ELF_PROG_LOAD then load_segments devsw pgdir ip (off + 32) sz k
       else if ph_memsz ph < ph_filesz ph then kret None
       else kbind (allocuvm pgdir sz (ph_vaddr ph + ph_memsz ph)) (\<lambda>sz.
         if sz = 0 then kret None
         else kbind (loaduvm devsw pgdir (ph_vaddr ph) ip (ph_off ph) (ph_filesz ph)) (\<lambda>r.
           if r < 0 then kret None
           else load_segments devsw pgdir ip (off + 32) sz k)))"

text \<open>
  The loop of \<open>exec\<close> that pushes the argument strings: the stack pointer and the
  addresses of the strings, or None for \<open>goto bad\<close>.
\<close>

fun push_args :: "uint \<Rightarrow> nat \<Rightarrow> uint \<Rightarrow> byte list list \<Rightarrow> ('z kmem_state_scheme, (uint \<times> uint list) option) kop" where
  "push_args pgdir argc sp [] = kret (Some (sp, []))"
| "push_args pgdir argc sp (a # as) =
     (if argc \<ge> MAXARG then kret None
      else let sp = (sp - (of_nat (length a) + 1)) AND NOT 3 in
        kbind (copyout pgdir sp (a @ [0])) (\<lambda>r.
        if r < 0 then kret None
        else kbind (push_args pgdir (argc + 1) sp as) (\<lambda>r.
          kret (map_option (\<lambda>(sp', us). (sp', sp # us)) r))))"

text \<open>The part of the path after its last slash.\<close>

definition last_elem :: "byte list \<Rightarrow> byte list" where
  "last_elem path = rev (takeWhile (\<lambda>c. c \<noteq> slash) (rev path))"

definition exec_bad :: "uint \<Rightarrow> nat option \<Rightarrow> ('z fs_state_scheme, int) kop" where
  "exec_bad pgdir ip = kseq (if pgdir \<noteq> 0 then freevm pgdir else kret ())
     (kseq (case ip of None \<Rightarrow> kret () | Some i \<Rightarrow> kseq (iunlockput i) end_op)
     (kret (- 1)))"

text \<open>The part of \<open>exec\<close> after the program is loaded: stack, arguments and the switch.\<close>

definition exec_stack :: "uint \<Rightarrow> uint \<Rightarrow> byte list \<Rightarrow> byte list list \<Rightarrow> uint \<Rightarrow> ('z fs_state_scheme, int) kop" where
  "exec_stack pgdir sz path argv entry =
     kbind (allocuvm pgdir (PGROUNDUP sz) (PGROUNDUP sz + 2 * PGSIZE)) (\<lambda>sz.
     if sz = 0 then exec_bad pgdir None
     else kseq (clearpteu pgdir (sz - 2 * PGSIZE))
       (kbind (push_args pgdir 0 sz argv) (\<lambda>r.
        case r of
          None \<Rightarrow> exec_bad pgdir None
        | Some (sp, us) \<Rightarrow>
            let argc = (of_nat (length argv) :: uint);
                ustack = [0xFFFFFFFF, argc, sp - (argc + 1) * 4] @ us @ [0];
                sp = sp - (3 + argc + 1) * 4
            in kbind (copyout pgdir sp (concat (map bytes_of_word ustack))) (\<lambda>r.
               if r < 0 then exec_bad pgdir None
               else kbind (kcur p_pgdir) (\<lambda>oldpgdir.
                 kseq (kmod (\<lambda>s. upd_proc (cur s) (\<lambda>p. p\<lparr>p_name := set_name (last_elem path) (p_name p),
                    p_pgdir := pgdir, p_sz := sz, p_tf := (p_tf p)\<lparr>tf_eip := entry, tf_esp := sp\<rparr>\<rparr>) s))
                 (kseq (\<lambda>s. switchuvm (cur s) s)
                 (kseq (freevm oldpgdir)
                 (kret 0))))))))"

definition exec :: "linkage \<Rightarrow> ('z fs_state_scheme) devsw \<Rightarrow> byte list \<Rightarrow> byte list list \<Rightarrow>
    ('z fs_state_scheme, int) kop" where
  "exec ln devsw path argv = kseq begin_op
     (kbind (namei devsw path) (\<lambda>ip.
      case ip of
        None \<Rightarrow> kseq end_op (kret (- 1))
      | Some i \<Rightarrow>
          kseq (ilock (Some i))
          (kbind (readi devsw i 0 52) (\<lambda>(r, v).
           let elf = get_elfhdr v in
           if (word_of_int r :: uint) < 52 then exec_bad 0 (Some i)
           else if eh_magic elf \<noteq> ELF_MAGIC then exec_bad 0 (Some i)
           else kbind (setupkvm (ln_data ln)) (\<lambda>pgdir.
             if pgdir = 0 then exec_bad 0 (Some i)
             else kbind (load_segments devsw pgdir i (eh_phoff elf) 0 (unat (eh_phnum elf))) (\<lambda>r.
               case r of
                 None \<Rightarrow> exec_bad pgdir (Some i)
               | Some sz \<Rightarrow>
                   kseq (iunlockput i)
                   (kseq end_op
                   (exec_stack pgdir sz path argv (eh_entry elf)))))))))"

end
