(* ===== verification/Sysfile.thy ===== *)
theory Sysfile
  imports Exec
begin

text \<open>
  The file system calls (\<^verbatim>\<open>src/sysfile.c\<close>): argument checking, file descriptors, and the
  operations on paths, each inside a transaction.
\<close>

section \<open>File descriptors\<close>

definition argfd :: "nat \<Rightarrow> ('z file_state_scheme, (nat \<times> nat) option) kop" where
  "argfd n = kbind (argint n) (\<lambda>r.
     case r of
       None \<Rightarrow> kret None
     | Some fd \<Rightarrow>
         if sint fd < 0 \<or> sint fd \<ge> int NOFILE then kret None
         else kbind (kcur (\<lambda>p. p_ofile p ! unat fd)) (\<lambda>f.
           case f of None \<Rightarrow> kret None | Some i \<Rightarrow> kret (Some (unat fd, i))))"

definition fdalloc :: "nat \<Rightarrow> ('z file_state_scheme, nat option) kop" where
  "fdalloc f = kbind (kcur (\<lambda>p. find (\<lambda>fd. p_ofile p ! fd = None) [0..<NOFILE])) (\<lambda>r.
     case r of
       None \<Rightarrow> kret None
     | Some fd \<Rightarrow> kseq (kmod (\<lambda>s. upd_proc (cur s) (\<lambda>p. p\<lparr>p_ofile := (p_ofile p)[fd := Some f]\<rparr>) s))
         (kret (Some fd)))"

abbreviation fail :: "('s, uint) kop" where
  "fail \<equiv> kret (- 1)"

definition sys_dup :: "('z file_state_scheme, uint) kop" where
  "sys_dup = kbind (argfd 0) (\<lambda>r.
     case r of
       None \<Rightarrow> fail
     | Some (_, f) \<Rightarrow> kbind (fdalloc f) (\<lambda>fd.
         case fd of None \<Rightarrow> fail | Some fd \<Rightarrow> kseq (filedup f) (kret (of_nat fd))))"

definition rw_args :: "('z file_state_scheme, (nat \<times> uint \<times> uint) option) kop" where
  "rw_args = kbind (argfd 0) (\<lambda>r.
     case r of
       None \<Rightarrow> kret None
     | Some (_, f) \<Rightarrow> kbind (argint 2) (\<lambda>r.
         case r of
           None \<Rightarrow> kret None
         | Some n \<Rightarrow> kbind (argptr 1 n) (\<lambda>p. kret (map_option (\<lambda>p. (f, n, p)) p))))"

definition sys_read :: "('z file_state_scheme) devsw \<Rightarrow> ('z file_state_scheme, uint) kop" where
  "sys_read devsw = kbind rw_args (\<lambda>r.
     case r of
       None \<Rightarrow> fail
     | Some (f, n, p) \<Rightarrow> kbind (fileread devsw f (sint n)) (\<lambda>(r, v).
         kseq (ustore_bytes p v) (kret (word_of_int r))))"

definition sys_write :: "('z file_state_scheme) devsw \<Rightarrow> ('z file_state_scheme, uint) kop" where
  "sys_write devsw = kbind rw_args (\<lambda>r.
     case r of
       None \<Rightarrow> fail
     | Some (f, n, p) \<Rightarrow> kbind (uload_bytes p (nat (sint n))) (\<lambda>v.
         kbind (filewrite devsw f v (sint n)) (\<lambda>r. kret (word_of_int r))))"

definition sys_close :: "('z file_state_scheme, uint) kop" where
  "sys_close = kbind (argfd 0) (\<lambda>r.
     case r of
       None \<Rightarrow> fail
     | Some (fd, f) \<Rightarrow>
         kseq (kmod (\<lambda>s. upd_proc (cur s) (\<lambda>p. p\<lparr>p_ofile := (p_ofile p)[fd := None]\<rparr>) s))
         (kseq (fileclose f)
         (kret 0)))"

text \<open>\<open>struct stat\<close> in memory: 20 bytes, its two \<open>short\<close>s padded to words; the padding
  is shown as zero.\<close>

definition stat_bytes :: "fstat \<Rightarrow> byte list" where
  "stat_bytes st = concat (map bytes_of_word
     [ucast (st_type st), st_dev st, st_ino st, ucast (st_nlink st), st_size st])"

definition sys_fstat :: "('z file_state_scheme, uint) kop" where
  "sys_fstat = kbind (argfd 0) (\<lambda>r.
     case r of
       None \<Rightarrow> fail
     | Some (_, f) \<Rightarrow> kbind (argptr 1 20) (\<lambda>p.
         case p of
           None \<Rightarrow> fail
         | Some p \<Rightarrow> kbind (filestat f) (\<lambda>st.
             case st of None \<Rightarrow> fail | Some st \<Rightarrow> kseq (ustore_bytes p (stat_bytes st)) (kret 0))))"

definition sys_pipe :: "('z file_state_scheme, uint) kop" where
  "sys_pipe = kbind (argptr 0 8) (\<lambda>r.
     case r of
       None \<Rightarrow> fail
     | Some fd \<Rightarrow> kbind pipealloc (\<lambda>r.
         case r of
           None \<Rightarrow> fail
         | Some (rfile, wfile) \<Rightarrow> kbind (fdalloc rfile) (\<lambda>fd0.
             case fd0 of
               None \<Rightarrow> kseq (fileclose rfile) (kseq (fileclose wfile) fail)
             | Some fd0 \<Rightarrow> kbind (fdalloc wfile) (\<lambda>fd1.
                 case fd1 of
                   None \<Rightarrow>
                     kseq (kmod (\<lambda>s. upd_proc (cur s) (\<lambda>p. p\<lparr>p_ofile := (p_ofile p)[fd0 := None]\<rparr>) s))
                     (kseq (fileclose rfile) (kseq (fileclose wfile) fail))
                 | Some fd1 \<Rightarrow>
                     kseq (ustore_bytes fd (bytes_of_word (of_nat fd0) @ bytes_of_word (of_nat fd1)))
                     (kret 0)))))"

section \<open>Links and directories\<close>

abbreviation op_fail :: "('z log_state_scheme, uint) kop" where
  "op_fail \<equiv> kseq end_op (kret (- 1))"

text \<open>The code after \<open>bad:\<close> in \<open>sys_link\<close>.\<close>

definition link_bad :: "nat \<Rightarrow> ('z fs_state_scheme, uint) kop" where
  "link_bad ip = kseq (ilock (Some ip))
     (kseq (kmod (upd_din ip (\<lambda>d. d\<lparr>di_nlink := di_nlink d - 1\<rparr>)))
     (kseq (iupdate ip)
     (kseq (iunlockput ip)
     op_fail)))"

definition sys_link :: "('z fs_state_scheme) devsw \<Rightarrow> ('z fs_state_scheme, uint) kop" where
  "sys_link devsw = kbind (argstr 0) (\<lambda>old.
     case old of None \<Rightarrow> fail | Some old \<Rightarrow>
     kbind (argstr 1) (\<lambda>new.
     case new of None \<Rightarrow> fail | Some new \<Rightarrow>
         kseq begin_op
         (kbind (namei devsw old) (\<lambda>ip.
          case ip of
            None \<Rightarrow> op_fail
          | Some ip \<Rightarrow>
              kseq (ilock (Some ip))
              (kbind (kinode ip (\<lambda>x. di_type (i_din x))) (\<lambda>type.
               if type = T_DIR then kseq (iunlockput ip) op_fail
               else kseq (kmod (upd_din ip (\<lambda>d. d\<lparr>di_nlink := di_nlink d + 1\<rparr>)))
                 (kseq (iupdate ip)
                 (kseq (iunlock (Some ip))
                 (kbind (nameiparent devsw new) (\<lambda>r.
                  case r of
                    None \<Rightarrow> link_bad ip
                  | Some (dp, name) \<Rightarrow>
                      kseq (ilock (Some dp))
                      (kbind (kget (\<lambda>s. i_dev (icache s ! dp) \<noteq> i_dev (icache s ! ip))) (\<lambda>far.
                       kbind (if far then kret (- 1)
                              else kbind (kinode ip i_inum) (\<lambda>inum. dirlink devsw dp name inum)) (\<lambda>r.
                       if r < 0 then kseq (iunlockput dp) (link_bad ip)
                       else kseq (iunlockput dp)
                         (kseq (iput ip)
                         (kseq end_op
                         (kret 0))))))))))))))))"

fun dir_empty_scan :: "('z fs_state_scheme) devsw \<Rightarrow> nat \<Rightarrow> nat list \<Rightarrow> ('z fs_state_scheme, bool) kop" where
  "dir_empty_scan devsw dp [] = kret True"
| "dir_empty_scan devsw dp (off # offs) =
     kbind (readi devsw dp (of_nat off) 16) (\<lambda>(r, v).
     if r \<noteq> 16 then kpanic ''isdirempty: readi''
     else if de_inum (get_dirent v) \<noteq> 0 then kret False
     else dir_empty_scan devsw dp offs)"

definition isdirempty :: "('z fs_state_scheme) devsw \<Rightarrow> nat \<Rightarrow> ('z fs_state_scheme, bool) kop" where
  "isdirempty devsw dp = kbind (kinode dp (\<lambda>ip. di_size (i_din ip))) (\<lambda>sz.
     dir_empty_scan devsw dp (drop 2 (dir_offs sz)))"

abbreviation dot :: "byte list" where "dot \<equiv> [46]"
abbreviation dotdot :: "byte list" where "dotdot \<equiv> [46, 46]"

definition sys_unlink :: "('z fs_state_scheme) devsw \<Rightarrow> ('z fs_state_scheme, uint) kop" where
  "sys_unlink devsw = kbind (argstr 0) (\<lambda>path.
     case path of
       None \<Rightarrow> fail
     | Some path \<Rightarrow>
         kseq begin_op
         (kbind (nameiparent devsw path) (\<lambda>r.
          case r of
            None \<Rightarrow> op_fail
          | Some (dp, name) \<Rightarrow>
              kseq (ilock (Some dp))
              (if namecmp name dot = 0 \<or> namecmp name dotdot = 0 then kseq (iunlockput dp) op_fail
               else kbind (dirlookup devsw dp name) (\<lambda>r.
                 case r of
                   None \<Rightarrow> kseq (iunlockput dp) op_fail
                 | Some (ip, off) \<Rightarrow>
                     kseq (ilock (Some ip))
                     (kseq (kpanic_if (\<lambda>s. sint (di_nlink (i_din (icache s ! ip))) < 1) ''unlink: nlink < 1'')
                     (kbind (kinode ip (\<lambda>x. di_type (i_din x) = T_DIR)) (\<lambda>isdir.
                      kbind (if isdir then isdirempty devsw ip else kret True) (\<lambda>empty.
                      if isdir \<and> \<not> empty then kseq (iunlockput ip) (kseq (iunlockput dp) op_fail)
                      else kbind (writei devsw dp (replicate 16 0) off) (\<lambda>r.
                        if r \<noteq> 16 then kpanic ''unlink: writei''
                        else kseq (if isdir
                                   then kseq (kmod (upd_din dp (\<lambda>d. d\<lparr>di_nlink := di_nlink d - 1\<rparr>))) (iupdate dp)
                                   else kret ())
                          (kseq (iunlockput dp)
                          (kseq (kmod (upd_din ip (\<lambda>d. d\<lparr>di_nlink := di_nlink d - 1\<rparr>)))
                          (kseq (iupdate ip)
                          (kseq (iunlockput ip)
                          (kseq end_op
                          (kret 0))))))))))))))))"

definition create :: "('z fs_state_scheme) devsw \<Rightarrow> byte list \<Rightarrow> ushort \<Rightarrow> ushort \<Rightarrow> ushort \<Rightarrow>
    ('z fs_state_scheme, nat option) kop" where
  "create devsw path type major minor = kbind (nameiparent devsw path) (\<lambda>r.
     case r of
       None \<Rightarrow> kret None
     | Some (dp, name) \<Rightarrow>
         kseq (ilock (Some dp))
         (kbind (dirlookup devsw dp name) (\<lambda>r.
          case r of
            Some (ip, _) \<Rightarrow>
              kseq (iunlockput dp)
              (kseq (ilock (Some ip))
              (kbind (kinode ip (\<lambda>x. di_type (i_din x))) (\<lambda>t.
               if type = T_FILE \<and> t = T_FILE then kret (Some ip)
               else kseq (iunlockput ip) (kret None))))
          | None \<Rightarrow>
              kbind (kinode dp i_dev) (\<lambda>dev.
              kbind (ialloc dev type) (\<lambda>ip.
              kseq (ilock (Some ip))
              (kseq (kmod (upd_din ip (\<lambda>d. d\<lparr>di_major := major, di_minor := minor, di_nlink := 1\<rparr>)))
              (kseq (iupdate ip)
              (kbind (kinode ip i_inum) (\<lambda>inum.
              kbind (kinode dp i_inum) (\<lambda>dinum.
              kseq (if type = T_DIR
                    then kseq (kmod (upd_din dp (\<lambda>d. d\<lparr>di_nlink := di_nlink d + 1\<rparr>)))
                      (kseq (iupdate dp)
                      (kbind (dirlink devsw ip dot inum) (\<lambda>r.
                       if r < 0 then kpanic ''create dots''
                       else kbind (dirlink devsw ip dotdot dinum) (\<lambda>r.
                         if r < 0 then kpanic ''create dots'' else kret ()))))
                    else kret ())
              (kbind (dirlink devsw dp name inum) (\<lambda>r.
               if r < 0 then kpanic ''create: dirlink''
               else kseq (iunlockput dp) (kret (Some ip))))))))))))))"

definition sys_open :: "('z file_state_scheme) devsw \<Rightarrow> ('z file_state_scheme, uint) kop" where
  "sys_open devsw = kbind (argstr 0) (\<lambda>path.
     case path of None \<Rightarrow> fail | Some path \<Rightarrow>
     kbind (argint 1) (\<lambda>omode.
     case omode of None \<Rightarrow> fail | Some omode \<Rightarrow>
         kseq begin_op
         (kbind (if omode AND 0x200 \<noteq> 0 then create devsw path T_FILE 0 0
                 else kbind (namei devsw path) (\<lambda>ip.
                   case ip of
                     None \<Rightarrow> kret None
                   | Some ip \<Rightarrow> kseq (ilock (Some ip))
                       (kbind (kinode ip (\<lambda>x. di_type (i_din x))) (\<lambda>t.
                        if t = T_DIR \<and> omode \<noteq> 0 then kseq (iunlockput ip) (kret None)
                        else kret (Some ip))))) (\<lambda>ip.
          case ip of
            None \<Rightarrow> op_fail
          | Some ip \<Rightarrow> kbind filealloc (\<lambda>f.
              kbind (case f of None \<Rightarrow> kret None | Some f \<Rightarrow> fdalloc f) (\<lambda>fd.
              case (f, fd) of
                (Some f, Some fd) \<Rightarrow>
                  kseq (iunlock (Some ip))
                  (kseq end_op
                  (kseq (kmod (upd_file f (\<lambda>x. x\<lparr>f_type := FD_INODE, f_ip := ip, f_off := 0,
                     f_readable := (omode AND 1 = 0),
                     f_writable := (omode AND 1 \<noteq> 0 \<or> omode AND 2 \<noteq> 0)\<rparr>)))
                  (kret (of_nat fd))))
              | _ \<Rightarrow>
                  kseq (case f of None \<Rightarrow> kret () | Some f \<Rightarrow> fileclose f)
                  (kseq (iunlockput ip)
                  op_fail)))))))"

definition sys_mkdir :: "('z fs_state_scheme) devsw \<Rightarrow> ('z fs_state_scheme, uint) kop" where
  "sys_mkdir devsw = kseq begin_op (kbind (argstr 0) (\<lambda>path.
     kbind (case path of None \<Rightarrow> kret None | Some path \<Rightarrow> create devsw path T_DIR 0 0) (\<lambda>ip.
     case ip of
       None \<Rightarrow> op_fail
     | Some ip \<Rightarrow> kseq (iunlockput ip) (kseq end_op (kret 0)))))"

definition sys_mknod :: "('z fs_state_scheme) devsw \<Rightarrow> ('z fs_state_scheme, uint) kop" where
  "sys_mknod devsw = kseq begin_op (kbind (argstr 0) (\<lambda>path.
     kbind (case path of
              None \<Rightarrow> kret None
            | Some path \<Rightarrow> kbind (argint 1) (\<lambda>major.
                case major of
                  None \<Rightarrow> kret None
                | Some major \<Rightarrow> kbind (argint 2) (\<lambda>minor.
                    case minor of
                      None \<Rightarrow> kret None
                    | Some minor \<Rightarrow> create devsw path T_DEV (ucast major) (ucast minor)))) (\<lambda>ip.
     case ip of
       None \<Rightarrow> op_fail
     | Some ip \<Rightarrow> kseq (iunlockput ip) (kseq end_op (kret 0)))))"

definition sys_chdir :: "('z fs_state_scheme) devsw \<Rightarrow> ('z fs_state_scheme, uint) kop" where
  "sys_chdir devsw = kseq begin_op (kbind (argstr 0) (\<lambda>path.
     kbind (case path of None \<Rightarrow> kret None | Some path \<Rightarrow> namei devsw path) (\<lambda>ip.
     case ip of
       None \<Rightarrow> op_fail
     | Some ip \<Rightarrow>
         kseq (ilock (Some ip))
         (kbind (kinode ip (\<lambda>x. di_type (i_din x))) (\<lambda>t.
          if t \<noteq> T_DIR then kseq (iunlockput ip) op_fail
          else kseq (iunlock (Some ip))
            (kbind (kcur p_cwd) (\<lambda>cwd.
             kseq (iput (the cwd))
             (kseq end_op
             (kseq (kmod (\<lambda>s. upd_proc (cur s) (\<lambda>p. p\<lparr>p_cwd := Some ip\<rparr>) s))
             (kret 0))))))))))"

text \<open>The loop of \<open>sys_exec\<close> over the argument pointers: \<open>n\<close> entries of \<open>argv\<close> are left.\<close>

fun fetch_argv :: "nat \<Rightarrow> uint \<Rightarrow> ('z kmem_state_scheme, byte list list option) kop" where
  "fetch_argv 0 a = kret None"
| "fetch_argv (Suc n) a = kbind (fetchint a) (\<lambda>r.
     case r of
       None \<Rightarrow> kret None
     | Some uarg \<Rightarrow>
         if uarg = 0 then kret (Some [])
         else kbind (fetchstr uarg) (\<lambda>v.
           case v of
             None \<Rightarrow> kret None
           | Some v \<Rightarrow> kbind (fetch_argv n (a + 4)) (\<lambda>vs. kret (map_option ((#) v) vs))))"

definition sys_exec :: "linkage \<Rightarrow> ('z fs_state_scheme) devsw \<Rightarrow> ('z fs_state_scheme, uint) kop" where
  "sys_exec ln devsw = kbind (argstr 0) (\<lambda>path.
     case path of None \<Rightarrow> fail | Some path \<Rightarrow>
     kbind (argint 1) (\<lambda>uargv.
     case uargv of None \<Rightarrow> fail | Some uargv \<Rightarrow> kbind (fetch_argv MAXARG uargv) (\<lambda>argv.
         case argv of
           None \<Rightarrow> fail
         | Some argv \<Rightarrow> kbind (exec ln devsw path argv) (\<lambda>r. kret (word_of_int r)))))"

end
