(* ===== verification/Console.thy ===== *)
theory Console
  imports Sysfile Printf Ring
begin

text \<open>
  The console (\<^verbatim>\<open>src/console.c\<close>) and the serial port
  (\<^verbatim>\<open>src/uart.c\<close>) as far as they handle characters: the screen, the line-edited input buffer, the
  two device functions and kernel printing. The loop in which \<open>consputc\<close> traps the other CPUs
  after a panic is not modelled: a panic ends a run of the model.
\<close>

section \<open>State\<close>

definition INPUT_BUF :: nat where "INPUT_BUF = 128"
definition BACKSPACE :: int where "BACKSPACE = 0x100"

text \<open>\<open>crt\<close> is the screen memory and \<open>crt_pos\<close> the cursor position kept in the display
  controller; \<open>uart_out\<close> the bytes sent to the serial port, if there is one (\<open>uart\<close>).\<close>

record cons_state = proc_state +
  cons_locking :: bool
  crt :: "ushort list"
  crt_pos :: int
  uart :: bool
  uart_out :: "byte list"
  in_buf :: "byte list"
  in_r :: uint
  in_w :: uint
  in_e :: uint

section \<open>Output\<close>

definition uartputc :: "int \<Rightarrow> ('z cons_state_scheme, unit) kop" where
  "uartputc c = kmod (\<lambda>s. if uart s then s\<lparr>uart_out := uart_out s @ [word_of_int c]\<rparr> else s)"

text \<open>The memory accesses of \<open>cgaputc\<close>: stores to the screen of 25 rows of 80 cells.\<close>

definition cga_scroll :: "ushort list \<Rightarrow> nat \<Rightarrow> ushort list" where
  "cga_scroll m pos = (let m = take (23 * 80) (drop 80 m) @ drop (23 * 80) m
     in take pos m @ replicate (24 * 80 - pos) 0 @ drop (24 * 80) m)"

definition cgaputc :: "int \<Rightarrow> ('z cons_state_scheme, unit) kop" where
  "cgaputc c = kbind (kget crt_pos) (\<lambda>pos.
     kbind (if c = 10 then kret (pos + (80 - pos mod 80))
            else if c = BACKSPACE then kret (if pos > 0 then pos - 1 else pos)
            else kseq (kmod (\<lambda>s. s\<lparr>crt := (crt s)[nat pos := word_of_int (c mod 256) OR 0x0700]\<rparr>))
                   (kret (pos + 1))) (\<lambda>pos.
     kseq (kpanic_if (\<lambda>s. pos < 0 \<or> pos > 25 * 80) ''pos under/overflow'')
     (kbind (if pos div 80 \<ge> 24
             then kseq (kmod (\<lambda>s. s\<lparr>crt := cga_scroll (crt s) (nat (pos - 80))\<rparr>)) (kret (pos - 80))
             else kret pos) (\<lambda>pos.
     kmod (\<lambda>s. s\<lparr>crt_pos := pos, crt := (crt s)[nat pos := 0x20 OR 0x0700]\<rparr>)))))"

definition consputc :: "int \<Rightarrow> ('z cons_state_scheme, unit) kop" where
  "consputc c = kseq (if c = BACKSPACE
       then kseq (uartputc 8) (kseq (uartputc 0x20) (uartputc 8))
       else uartputc c)
     (cgaputc c)"

fun consputs :: "string \<Rightarrow> ('z cons_state_scheme, unit) kop" where
  "consputs [] = kret ()"
| "consputs (c # cs) = kseq (consputc (of_char c)) (consputs cs)"

text \<open>Kernel \<open>printint\<close>, which differs from the user library's in its lower-case digits:
  the characters it prints; None is a write past its buffer of 16 characters.\<close>

definition kdigits :: string where
  "kdigits = ''0123456789abcdef''"

fun kprintint_loop :: "nat \<Rightarrow> uint \<Rightarrow> uint \<Rightarrow> string option" where
  "kprintint_loop 0 x base = None"
| "kprintint_loop (Suc room) x base =
     (let d = kdigits ! unat (x mod base); x' = x div base
      in if x' = 0 then Some [d] else map_option ((#) d) (kprintint_loop room x' base))"

definition kprintint :: "uint \<Rightarrow> uint \<Rightarrow> bool \<Rightarrow> string option" where
  "kprintint xx base sign =
     (let neg = (sign \<and> sint xx < 0)
      in case kprintint_loop 16 (if neg then - xx else xx) base of
           None \<Rightarrow> None
         | Some buf \<Rightarrow> if neg then (if length buf < 16 then Some (rev (buf @ ''-'')) else None)
                       else Some (rev buf))"

definition kprintlong :: "64 word \<Rightarrow> string option" where
  "kprintlong xx =
     (let upper = (ucast (drop_bit 32 xx) :: uint); lower = (ucast xx :: uint)
      in case (if upper \<noteq> 0 then kprintint upper 16 False else Some []) of
           None \<Rightarrow> None
         | Some a \<Rightarrow> map_option ((@) a) (kprintint lower 16 False))"

text \<open>What \<open>cprintf\<close> prints: \<open>argp\<close> gives the words after the format on the stack and
  \<open>str\<close> the C string at an address.\<close>

fun cprintf_chars :: "(uint \<Rightarrow> string) \<Rightarrow> (nat \<Rightarrow> uint) \<Rightarrow> nat \<Rightarrow> string \<Rightarrow> string option" where
  "cprintf_chars str argp k [] = Some []"
| "cprintf_chars str argp k [c] = (if c = CHR ''%'' then Some [] else Some [c])"
| "cprintf_chars str argp k (c # d # fmt) =
     (let out = (\<lambda>r k'. case r of None \<Rightarrow> None
                  | Some a \<Rightarrow> map_option ((@) a) (cprintf_chars str argp k' fmt))
      in if c \<noteq> CHR ''%'' then map_option ((#) c) (cprintf_chars str argp k (d # fmt))
         else if d = CHR ''d'' then out (kprintint (argp k) 10 True) (k + 1)
         else if d = CHR ''l'' then
           out (kprintlong (push_bit 32 (ucast (argp (k + 1))) OR ucast (argp k))) (k + 2)
         else if d = CHR ''x'' \<or> d = CHR ''p'' then out (kprintint (argp k) 16 False) (k + 1)
         else if d = CHR ''s'' then out (Some (if argp k = 0 then ''(null)'' else str (argp k))) (k + 1)
         else if d = CHR ''%'' then out (Some [d]) k
         else out (Some [CHR ''%'', d]) k)"

definition cprintf :: "(uint \<Rightarrow> string) \<Rightarrow> (nat \<Rightarrow> uint) \<Rightarrow> string \<Rightarrow> ('z cons_state_scheme, unit) kop" where
  "cprintf str argp fmt = kbind (kget cons_locking) (\<lambda>locking.
     kseq (if locking then lk_acquire LkCons else kret ())
     (kseq (case cprintf_chars str argp 0 fmt of None \<Rightarrow> kpanic ''trap'' | Some cs \<Rightarrow> consputs cs)
     (if locking then lk_release LkCons else kret ())))"

section \<open>Input\<close>

text \<open>\<open>C('U')\<close>: delete back to the last newline or the committed part. At most \<open>INPUT_BUF\<close>
  characters are in the buffer, which bounds the rounds.\<close>

fun kill_line :: "nat \<Rightarrow> ('z cons_state_scheme, unit) kop" where
  "kill_line 0 = kret ()"
| "kill_line (Suc n) = kbind (kget (\<lambda>s. in_e s \<noteq> in_w s \<and> in_buf s ! (unat (in_e s - 1) mod INPUT_BUF) \<noteq> 10)) (\<lambda>more.
     if more then kseq (kmod (\<lambda>s. s\<lparr>in_e := in_e s - 1\<rparr>)) (kseq (consputc BACKSPACE) (kill_line n))
     else kret ())"

text \<open>One character of \<open>consoleintr\<close>'s loop.\<close>

definition input_char :: "int \<Rightarrow> ('z cons_state_scheme, unit) kop" where
  "input_char c =
     (if c = 16 then kret ()
      else if c = 21 then kill_line INPUT_BUF
      else if c = 8 \<or> c = 0x7F
      then kbind (kget (\<lambda>s. in_e s \<noteq> in_w s)) (\<lambda>more.
        if more then kseq (kmod (\<lambda>s. s\<lparr>in_e := in_e s - 1\<rparr>)) (consputc BACKSPACE) else kret ())
      else kbind (kget (\<lambda>s. c \<noteq> 0 \<and> in_e s - in_r s < of_nat INPUT_BUF)) (\<lambda>room.
        if room
        then let c = (if c = 13 then 10 else c) in
          kseq (kmod (\<lambda>s. s\<lparr>in_buf := (in_buf s)[unat (in_e s) mod INPUT_BUF := word_of_int c], in_e := in_e s + 1\<rparr>))
          (kseq (consputc c)
          (kbind (kget (\<lambda>s. c = 10 \<or> c = 4 \<or> in_e s = in_r s + of_nat INPUT_BUF)) (\<lambda>commit.
           if commit then kseq (kmod (\<lambda>s. s\<lparr>in_w := in_e s\<rparr>)) (wakeup ChInput)
           else kret ())))
        else kret ()))"

fun input_chars :: "int list \<Rightarrow> ('z cons_state_scheme, unit) kop" where
  "input_chars [] = kret ()"
| "input_chars (c # cs) = kseq (input_char c) (input_chars cs)"

text \<open>\<open>cs\<close> are the values \<open>getc\<close> returns before its first negative one. The result says
  whether \<open>procdump\<close> is called at the end.\<close>

definition consoleintr :: "int list \<Rightarrow> ('z cons_state_scheme, bool) kop" where
  "consoleintr cs = kseq (lk_acquire LkCons)
     (kseq (input_chars cs)
     (kseq (lk_release LkCons)
     (kret (16 \<in> set cs))))"

text \<open>
  \<open>consoleread\<close> from its outer loop on, with the lock held: \<open>n\<close> bytes are still wanted of
  \<open>target\<close>, and \<open>got\<close> have been stored. With no input the process sleeps, and goes on
  from there.
\<close>

fun consoleread_loop :: "nat \<Rightarrow> nat \<Rightarrow> nat \<Rightarrow> byte list \<Rightarrow> ('z cons_state_scheme, int \<times> byte list) kop" where
  "consoleread_loop ip target 0 got =
     kseq (lk_release LkCons) (kseq (ilock (Some ip)) (kret (int target, got)))"
| "consoleread_loop ip target (Suc n) got =
     kbind (kget (\<lambda>s. in_r s = in_w s)) (\<lambda>empty.
     if empty
     then kbind (kcur p_killed) (\<lambda>killed.
       if killed then kseq (lk_release LkCons) (kseq (ilock (Some ip)) (kret (- 1, got)))
       else sleep ChInput LkCons)
     else kbind (kget (\<lambda>s. in_buf s ! (unat (in_r s) mod INPUT_BUF))) (\<lambda>c.
       kseq (kmod (\<lambda>s. s\<lparr>in_r := in_r s + 1\<rparr>))
       (if c = 4
        then kseq (if Suc n < target then kmod (\<lambda>s. s\<lparr>in_r := in_r s - 1\<rparr>) else kret ())
          (kseq (lk_release LkCons) (kseq (ilock (Some ip)) (kret (int target - int (Suc n), got))))
        else if c = 10
        then kseq (lk_release LkCons) (kseq (ilock (Some ip)) (kret (int target - int n, got @ [c])))
        else consoleread_loop ip target n (got @ [c]))))"

definition consoleread :: "nat \<Rightarrow> int \<Rightarrow> ('z cons_state_scheme, int \<times> byte list) kop" where
  "consoleread ip n = kseq (iunlock (Some ip))
     (kseq (lk_acquire LkCons)
     (if n \<le> 0 then kseq (lk_release LkCons) (kseq (ilock (Some ip)) (kret (0, [])))
      else consoleread_loop ip (nat n) (nat n) []))"

definition consoleread_resume :: "nat \<Rightarrow> nat \<Rightarrow> nat \<Rightarrow> byte list \<Rightarrow> ('z cons_state_scheme, int \<times> byte list) kop" where
  "consoleread_resume ip target n got = kseq (sleep_resume LkCons) (consoleread_loop ip target n got)"

fun consputbytes :: "byte list \<Rightarrow> ('z cons_state_scheme, unit) kop" where
  "consputbytes [] = kret ()"
| "consputbytes (b # bs) = kseq (consputc (uint b)) (consputbytes bs)"

definition consolewrite :: "nat \<Rightarrow> byte list \<Rightarrow> ('z cons_state_scheme, int) kop" where
  "consolewrite ip buf = kseq (iunlock (Some ip))
     (kseq (lk_acquire LkCons)
     (kseq (consputbytes buf)
     (kseq (lk_release LkCons)
     (kseq (ilock (Some ip))
     (kret (int (length buf)))))))"

text \<open>The table \<open>devsw\<close> as \<open>consoleinit\<close> leaves it: the console is device 1.\<close>

definition console_devsw :: "('z cons_state_scheme) devsw" where
  "console_devsw major = (if major = 1
     then \<lparr>dev_read = Some consoleread, dev_write = Some consolewrite\<rparr>
     else \<lparr>dev_read = None, dev_write = None\<rparr>)"

definition consoleinit :: "('z cons_state_scheme, unit) kop" where
  "consoleinit = kmod (\<lambda>s. s\<lparr>cons_locking := True\<rparr>)"

section \<open>The screen\<close>

definition screen_ok :: "'z cons_state_scheme \<Rightarrow> bool" where
  "screen_ok s \<longleftrightarrow> length (crt s) = 25 * 80 \<and> 0 \<le> crt_pos s \<and> crt_pos s < 24 * 80"

text \<open>Cell and cursor of a character, before scrolling and the new cursor cell.\<close>

definition put_cell :: "int \<Rightarrow> ushort list \<times> nat \<Rightarrow> ushort list \<times> nat" where
  "put_cell c = (\<lambda>(m, pos).
     if c = 10 then (m, pos + (80 - pos mod 80))
     else if c = BACKSPACE then (m, pos - 1)
     else (m[pos := word_of_int (c mod 256) OR 0x0700], Suc pos))"

text \<open>The screen after a character: when the cursor reaches the last row, the rows move up by one.\<close>

definition screen_put :: "int \<Rightarrow> ushort list \<times> nat \<Rightarrow> ushort list \<times> nat" where
  "screen_put c mp = (case put_cell c mp of (m, pos) \<Rightarrow>
     let (m, pos) = (if 24 * 80 \<le> pos then (take (23 * 80) (drop 80 m) @ replicate 80 0 @ drop (24 * 80) m, pos - 80) else (m, pos))
     in (m[pos := 0x720], pos))"

definition screen :: "'z cons_state_scheme \<Rightarrow> ushort list \<times> nat" where
  "screen s = (crt s, nat (crt_pos s))"

lemma put_cell_bounds:
  assumes "length m = 25 * 80" and "pos < 24 * 80"
  shows "length (fst (put_cell c (m, pos))) = 25 * 80" and "snd (put_cell c (m, pos)) \<le> 24 * 80"
proof -
  show "length (fst (put_cell c (m, pos))) = 25 * 80" using assms by (simp add: put_cell_def)
  have "pos + (80 - pos mod 80) \<le> 24 * 80"
  proof -
    have "pos div 80 < 24" using assms(2) by (simp add: div_less_iff_less_mult)
    moreover have "pos + (80 - pos mod 80) = 80 * (pos div 80 + 1)"
      using mod_less_divisor [of 80 pos] by (simp add: algebra_simps minus_mod_eq_mult_div [symmetric])
    ultimately show ?thesis by simp
  qed
  then show "snd (put_cell c (m, pos)) \<le> 24 * 80" using assms by (auto simp: put_cell_def)
qed

lemma cga_scroll_row:
  assumes "length m = 25 * 80"
  shows "cga_scroll m (23 * 80) = take (23 * 80) (drop 80 m) @ replicate 80 0 @ drop (24 * 80) m"
  using assms by (simp add: cga_scroll_def)

lemma cgaputc_exec:
  assumes "screen_ok s"
  shows "cgaputc c s = Done () (s\<lparr>crt := fst (screen_put c (screen s)), crt_pos := int (snd (screen_put c (screen s)))\<rparr>)"
proof -
  obtain pos where pos: "crt_pos s = int pos" "pos < 24 * 80" and l: "length (crt s) = 25 * 80"
    using assms nonneg_int_cases [of "crt_pos s"] by (auto simp: screen_ok_def)
  obtain m q where mq: "put_cell c (crt s, pos) = (m, q)" by (cases "put_cell c (crt s, pos)")
  have b: "length m = 25 * 80" "q \<le> 24 * 80"
    using put_cell_bounds [OF l pos(2), of c] mq by simp_all
  have bp: "BACKSPACE \<noteq> 10" by (simp add: BACKSPACE_def)
  have "int pos + (80 - int pos mod 80) = int (pos + (80 - pos mod 80))"
    using mod_less_divisor [of 80 pos] by (simp add: of_nat_diff of_nat_mod)
  then have nl: "c = 10 \<Longrightarrow> int pos + (80 - int pos mod 80) = int q \<and> crt s = m"
    using mq by (simp only: put_cell_def prod.case if_True prod.inject simp_thms)
  have bs: "c = BACKSPACE \<Longrightarrow> (if int pos > 0 then int pos - 1 else int pos) = int q \<and> crt s = m"
    using mq bp by (auto simp: put_cell_def)
  have oc: "c \<noteq> 10 \<Longrightarrow> c \<noteq> BACKSPACE \<Longrightarrow> int pos + 1 = int q \<and> (crt s)[pos := word_of_int (c mod 256) OR 0x0700] = m"
    using mq by (auto simp: put_cell_def)
  have sm: "s\<lparr>crt := crt s\<rparr> = s" by simp
  have c1: "(if c = 10 then kret (int pos + (80 - int pos mod 80))
      else if c = BACKSPACE then kret (if int pos > 0 then int pos - 1 else int pos)
      else kseq (kmod (\<lambda>s. s\<lparr>crt := (crt s)[nat (int pos) := word_of_int (c mod 256) OR 0x0700]\<rparr>))
             (kret (int pos + 1))) s = Done (int q) (s\<lparr>crt := m\<rparr>)"
  proof (cases "c = 10")
    case True
    with nl have "int pos + (80 - int pos mod 80) = int q" "s\<lparr>crt := m\<rparr> = s" using sm by (simp_all only: simp_thms)
    with True show ?thesis by (simp only: if_True kret_simps simp_thms)
  next
    case False
    then show ?thesis
    proof (cases "c = BACKSPACE")
      case True
      with bs have "(if int pos > 0 then int pos - 1 else int pos) = int q" "s\<lparr>crt := m\<rparr> = s"
        using sm by (simp_all only: simp_thms)
      with True bp show ?thesis by (simp only: if_True if_False kret_simps simp_thms)
    next
      case f: False
      with False oc show ?thesis by (simp only: if_False kseq_kmod kret_simps nat_int simp_thms)
    qed
  qed
  have c2: "\<not> (int q < 0 \<or> int q > 25 * 80)" using b by simp
  let ?mq = "if 24 * 80 \<le> q then (take (23 * 80) (drop 80 m) @ replicate 80 0 @ drop (24 * 80) m, q - 80) else (m, q)"
  have d: "24 \<le> int q div 80 \<longleftrightarrow> 24 * 80 \<le> q" by linarith
  have "q = 24 * 80" if "24 * 80 \<le> q" using that b by simp
  then have c3: "(if int q div 80 \<ge> 24
        then kseq (kmod (\<lambda>s. s\<lparr>crt := cga_scroll (crt s) (nat (int q - 80))\<rparr>)) (kret (int q - 80))
        else kret (int q)) (s\<lparr>crt := m\<rparr>) = Done (int (snd ?mq)) (s\<lparr>crt := fst ?mq\<rparr>)"
    unfolding d using cga_scroll_row [OF b(1)] by auto
  have sp: "screen_put c (screen s) = ((fst ?mq)[snd ?mq := 0x720], snd ?mq)"
    unfolding screen_put_def screen_def pos(1) nat_int mq by (simp add: case_prod_beta Let_def)
  have p: "kpanic_if (\<lambda>s. int q < 0 \<or> int q > 25 * 80) ''pos under/overflow'' u = Done () u" for u :: "'a cons_state_scheme"
    using c2 by simp
  have "cgaputc c s = kmod (\<lambda>s. s\<lparr>crt_pos := int (snd ?mq), crt := (crt s)[nat (int (snd ?mq)) := 0x20 OR 0x0700]\<rparr>) (s\<lparr>crt := fst ?mq\<rparr>)"
    by (simp only: cgaputc_def kbind_kget pos(1) kbind_exec(1) c1 c3 kseq_exec(1) p)
  then show ?thesis by (simp add: sp)
qed

lemma screen_put_ok:
  assumes "length m = 25 * 80" and "pos < 24 * 80"
  shows "length (fst (screen_put c (m, pos))) = 25 * 80" and "snd (screen_put c (m, pos)) < 24 * 80"
proof -
  obtain k q where kq: "put_cell c (m, pos) = (k, q)" by (cases "put_cell c (m, pos)")
  with put_cell_bounds [OF assms, of c] have b: "length k = 25 * 80" "q \<le> 24 * 80" by simp_all
  then show "length (fst (screen_put c (m, pos))) = 25 * 80" and "snd (screen_put c (m, pos)) < 24 * 80"
    by (simp_all add: screen_put_def kq split_beta)
qed

definition uart_chars :: "int \<Rightarrow> byte list" where
  "uart_chars c = (if c = BACKSPACE then [8, 0x20, 8] else [word_of_int c])"

text \<open>The state after a character on the console.\<close>

definition echoed :: "int \<Rightarrow> 'z cons_state_scheme \<Rightarrow> 'z cons_state_scheme" where
  "echoed c s = s\<lparr>crt := fst (screen_put c (screen s)), crt_pos := int (snd (screen_put c (screen s))),
     uart_out := uart_out s @ (if uart s then uart_chars c else [])\<rparr>"

lemma consputc_exec:
  assumes "screen_ok s"
  shows "consputc c s = Done () (echoed c s)"
proof -
  define u where "u = s\<lparr>uart_out := uart_out s @ (if uart s then uart_chars c else [])\<rparr>"
  have su: "s\<lparr>uart_out := uart_out s\<rparr> = s" by simp
  have 1: "(if c = BACKSPACE then kseq (uartputc 8) (kseq (uartputc 0x20) (uartputc 8)) else uartputc c) s = Done () u"
    by (cases "uart s") (simp_all add: uartputc_def u_def uart_chars_def)
  have "screen_ok u" and sc: "screen u = screen s" using assms by (simp_all add: u_def screen_ok_def screen_def)
  from cgaputc_exec [OF this(1), of c] have "cgaputc c u = Done () (echoed c s)"
    by (simp add: sc echoed_def) (simp add: u_def)
  with 1 show ?thesis by (simp only: consputc_def kseq_exec(1))
qed

lemma echoed_simps [simp]:
  "in_buf (echoed c s) = in_buf s" "in_r (echoed c s) = in_r s" "in_w (echoed c s) = in_w s"
  "in_e (echoed c s) = in_e s" "held (echoed c s) = held s" "ptable (echoed c s) = ptable s"
  "curproc (echoed c s) = curproc s" "icache (echoed c s) = icache s" "uart (echoed c s) = uart s"
  "cons_locking (echoed c s) = cons_locking s"
  by (simp_all add: echoed_def)

lemma screen_echoed: "screen (echoed c s) = screen_put c (screen s)"
  by (simp add: screen_def echoed_def)

lemma screen_ok_iff: "screen_ok s \<longleftrightarrow> 0 \<le> crt_pos s \<and> length (fst (screen s)) = 25 * 80 \<and> snd (screen s) < 24 * 80"
  by (auto simp: screen_ok_def screen_def)

lemma screen_ok_echoed: "screen_ok s \<Longrightarrow> screen_ok (echoed c s)"
proof -
  assume "screen_ok s"
  then have "length (fst (screen s)) = 25 * 80" "snd (screen s) < 24 * 80" by (simp_all add: screen_ok_iff)
  then have "length (fst (screen_put c (screen s))) = 25 * 80" "snd (screen_put c (screen s)) < 24 * 80"
    by (cases "screen s", simp only: screen_put_ok fst_conv snd_conv)+
  then show ?thesis by (simp add: screen_ok_def echoed_def)
qed

section \<open>Line editing\<close>

text \<open>What has been committed for reading, and what is still being edited.\<close>

definition in_line :: "'z cons_state_scheme \<Rightarrow> byte list" where
  "in_line s = ring (in_buf s) (in_r s) (in_w s)"

definition in_edit :: "'z cons_state_scheme \<Rightarrow> byte list" where
  "in_edit s = ring (in_buf s) (in_w s) (in_e s)"

definition input_ok :: "'z cons_state_scheme \<Rightarrow> bool" where
  "input_ok s \<longleftrightarrow> length (in_buf s) = INPUT_BUF \<and> length (in_line s) + length (in_edit s) \<le> INPUT_BUF \<and>
     10 \<notin> set (in_edit s)"

lemma INPUT_BUF_ring [simp]: "ring_size INPUT_BUF"
  by (simp add: ring_size_def INPUT_BUF_def)

lemma in_simps [simp]:
  "in_line (echoed c s) = in_line s" "in_edit (echoed c s) = in_edit s"
  "in_line (s\<lparr>ptable := pt\<rparr>) = in_line s" "in_edit (s\<lparr>ptable := pt\<rparr>) = in_edit s"
  "in_line (s\<lparr>held := h\<rparr>) = in_line s" "in_edit (s\<lparr>held := h\<rparr>) = in_edit s"
  by (simp_all add: in_line_def in_edit_def)

definition input_put :: "byte \<Rightarrow> 'z cons_state_scheme \<Rightarrow> 'z cons_state_scheme" where
  "input_put b s = s\<lparr>in_buf := (in_buf s)[unat (in_e s) mod INPUT_BUF := b], in_e := in_e s + 1\<rparr>"

lemma input_put_line:
  assumes "length (in_buf s) = INPUT_BUF" and "length (in_line s) + length (in_edit s) < INPUT_BUF"
  shows "in_line (input_put b s) = in_line s" and "in_edit (input_put b s) = in_edit s @ [b]"
proof -
  have r: "ring_size (length (in_buf s))" by (simp add: assms(1))
  from assms(2) have l: "unat (in_w s - in_r s) + unat (in_e s - in_w s) < length (in_buf s)"
    by (simp add: in_line_def in_edit_def assms(1))
  from ring_put_prefix [OF r l, of b] show "in_line (input_put b s) = in_line s"
    by (simp add: in_line_def input_put_def assms(1))
  from l have "unat (in_e s - in_w s) < length (in_buf s)" by simp
  from ring_put [OF r this, of b] show "in_edit (input_put b s) = in_edit s @ [b]"
    by (simp add: in_edit_def input_put_def assms(1))
qed

lemma in_room_iff:
  assumes "length (in_line s) + length (in_edit s) \<le> INPUT_BUF"
  shows "unat (in_e s - in_r s) = length (in_line s) + length (in_edit s)"
    and "in_e s - in_r s < of_nat INPUT_BUF \<longleftrightarrow> length (in_line s) + length (in_edit s) < INPUT_BUF"
    and "in_e s = in_r s + of_nat INPUT_BUF \<longleftrightarrow> length (in_line s) + length (in_edit s) = INPUT_BUF"
proof -
  have "in_e s - in_r s = (in_w s - in_r s) + (in_e s - in_w s)" by simp
  moreover have "unat (in_w s - in_r s) + unat (in_e s - in_w s) < 2 ^ 32"
    using assms by (simp add: in_line_def in_edit_def INPUT_BUF_def)
  ultimately show u: "unat (in_e s - in_r s) = length (in_line s) + length (in_edit s)"
    by (simp only: unat_add_acc) (simp add: in_line_def in_edit_def)
  have n: "unat (of_nat INPUT_BUF :: uint) = INPUT_BUF" by (simp add: INPUT_BUF_def)
  show "in_e s - in_r s < of_nat INPUT_BUF \<longleftrightarrow> length (in_line s) + length (in_edit s) < INPUT_BUF"
    by (simp only: word_less_nat_alt u n)
  have "in_e s = in_r s + of_nat INPUT_BUF \<longleftrightarrow> in_e s - in_r s = of_nat INPUT_BUF"
    by (simp add: diff_eq_eq add.commute)
  also have "\<dots> \<longleftrightarrow> unat (in_e s - in_r s) = INPUT_BUF" by (simp only: word_unat_eq_iff n)
  finally show "in_e s = in_r s + of_nat INPUT_BUF \<longleftrightarrow> length (in_line s) + length (in_edit s) = INPUT_BUF"
    by (simp only: u)
qed

lemma input_unput:
  assumes "in_edit s \<noteq> []"
  shows "in_line (s\<lparr>in_e := in_e s - 1\<rparr>) = in_line s" and "in_edit (s\<lparr>in_e := in_e s - 1\<rparr>) = butlast (in_edit s)"
  using assms by (simp_all add: in_line_def in_edit_def ring_unput)

lemma in_edit_empty: "in_e s = in_w s \<longleftrightarrow> in_edit s = []"
  by (auto simp: in_edit_def)

lemma in_edit_last:
  assumes "length (in_buf s) = INPUT_BUF" and "in_edit s \<noteq> []"
  shows "in_buf s ! (unat (in_e s - 1) mod INPUT_BUF) = last (in_edit s)"
  using assms ring_last [of "in_buf s" "in_w s" "in_e s"] by (simp add: in_edit_def)

lemma input_commit:
  assumes "length (in_line s) + length (in_edit s) \<le> INPUT_BUF"
  shows "in_line (s\<lparr>in_w := in_e s\<rparr>) = in_line s @ in_edit s" and "in_edit (s\<lparr>in_w := in_e s\<rparr>) = []"
proof -
  have "unat (in_w s - in_r s) + unat (in_e s - in_w s) < 2 ^ 32"
    using assms by (simp add: in_line_def in_edit_def INPUT_BUF_def)
  from ring_split [OF this, of "in_buf s"] show "in_line (s\<lparr>in_w := in_e s\<rparr>) = in_line s @ in_edit s"
    by (simp add: in_line_def in_edit_def)
qed (simp add: in_edit_def)

text \<open>The console's state, and what handling input leaves as it was.\<close>

definition console_ok :: "'z cons_state_scheme \<Rightarrow> bool" where
  "console_ok s \<longleftrightarrow> screen_ok s \<and> input_ok s"

definition in_frame :: "'z cons_state_scheme \<Rightarrow> 'z cons_state_scheme \<Rightarrow> bool" where
  "in_frame s t \<longleftrightarrow> held t = held s \<and> curproc t = curproc s \<and> icache t = icache s \<and> in_r t = in_r s \<and>
     length (ptable t) = length (ptable s) \<and> (\<forall>c. asleep c t \<longrightarrow> asleep c s)"

lemma in_frame_refl [simp]: "in_frame s s"
  by (simp add: in_frame_def)

lemma in_frame_trans: "in_frame s t \<Longrightarrow> in_frame t u \<Longrightarrow> in_frame s u"
  by (simp add: in_frame_def)

text \<open>The line editor: a key acts on the committed input and the line being edited.\<close>

definition edit_char :: "int \<Rightarrow> byte list \<times> byte list \<Rightarrow> byte list \<times> byte list" where
  "edit_char c = (\<lambda>(line, ed).
     if c = 16 then (line, ed)
     else if c = 21 then (line, [])
     else if c = 8 \<or> c = 127 then (line, butlast ed)
     else if c = 0 \<or> INPUT_BUF \<le> length line + length ed then (line, ed)
     else let ed = ed @ [word_of_int (if c = 13 then 10 else c)]
          in if c = 10 \<or> c = 13 \<or> c = 4 \<or> length line + length ed = INPUT_BUF then (line @ ed, [])
             else (line, ed))"

lemma asleep_cons [simp]:
  "asleep c (echoed d s) = asleep c s" "asleep c (input_put b s) = asleep c s"
  "asleep c (s\<lparr>in_e := e\<rparr>) = asleep c s" "asleep c (s\<lparr>in_w := e\<rparr>) = asleep c s"
  by (simp_all add: asleep_def input_put_def)

lemma screen_ok_input [simp]:
  "screen_ok (s\<lparr>in_e := e\<rparr>) = screen_ok s" "screen_ok (s\<lparr>in_w := e\<rparr>) = screen_ok s"
  "screen_ok (input_put b s) = screen_ok s" "screen_ok (s\<lparr>ptable := pt\<rparr>) = screen_ok s"
  "screen_ok (s\<lparr>held := h\<rparr>) = screen_ok s"
  by (simp_all add: screen_ok_def input_put_def)

lemma rubout_exec:
  assumes "console_ok s" and "in_edit s \<noteq> []"
  shows "\<exists>t. kseq (kmod (\<lambda>s. s\<lparr>in_e := in_e s - 1\<rparr>)) (consputc BACKSPACE) s = Done () t \<and> console_ok t \<and>
    in_frame s t \<and> in_line t = in_line s \<and> in_edit t = butlast (in_edit s)"
proof (intro exI conjI)
  let ?u = "s\<lparr>in_e := in_e s - 1\<rparr>"
  have u: "screen_ok ?u" "length (in_buf ?u) = INPUT_BUF" using assms(1) by (simp_all add: console_ok_def input_ok_def)
  show "kseq (kmod (\<lambda>s. s\<lparr>in_e := in_e s - 1\<rparr>)) (consputc BACKSPACE) s = Done () (echoed BACKSPACE ?u)"
    by (simp only: kseq_kmod consputc_exec [OF u(1)])
  show "in_line (echoed BACKSPACE ?u) = in_line s" and "in_edit (echoed BACKSPACE ?u) = butlast (in_edit s)"
    by (simp_all add: input_unput [OF assms(2)])
  then show "console_ok (echoed BACKSPACE ?u)"
    using assms(1) screen_ok_echoed [OF u(1)] by (auto simp: console_ok_def input_ok_def dest: in_set_butlastD)
  show "in_frame s (echoed BACKSPACE ?u)" by (simp add: in_frame_def)
qed

lemma kill_line_exec:
  assumes "console_ok s" and "length (in_edit s) \<le> n"
  shows "\<exists>t. kill_line n s = Done () t \<and> console_ok t \<and> in_frame s t \<and> in_line t = in_line s \<and> in_edit t = []"
  using assms
proof (induction n arbitrary: s)
  case 0
  then show ?case by simp
next
  case (Suc n)
  show ?case
  proof (cases "in_edit s = []")
    case True
    then have "in_e s = in_w s" by (simp add: in_edit_empty)
    with Suc.prems True show ?thesis by (simp add: kapply)
  next
    case False
    have "10 \<notin> set (in_edit s)" using Suc.prems(1) by (simp add: console_ok_def input_ok_def)
    with last_in_set [OF False] have "last (in_edit s) \<noteq> 10" by metis
    moreover have "length (in_buf s) = INPUT_BUF" using Suc.prems(1) by (simp add: console_ok_def input_ok_def)
    ultimately have more: "in_e s \<noteq> in_w s \<and> in_buf s ! (unat (in_e s - 1) mod INPUT_BUF) \<noteq> 10"
      using False in_edit_last in_edit_empty [of s] by (simp add: in_edit_last)
    obtain u where u: "kseq (kmod (\<lambda>s. s\<lparr>in_e := in_e s - 1\<rparr>)) (consputc BACKSPACE) s = Done () u" "console_ok u"
        "in_frame s u" "in_line u = in_line s" "in_edit u = butlast (in_edit s)"
      using rubout_exec [OF Suc.prems(1) False] by blast
    from Suc.prems(2) u(5) have "length (in_edit u) \<le> n" by simp
    from Suc.IH [OF u(2) this] obtain t where t: "kill_line n u = Done () t" "console_ok t" "in_frame u t"
        "in_line t = in_line u" "in_edit t = []" by blast
    have cu: "consputc BACKSPACE (s\<lparr>in_e := in_e s - 1\<rparr>) = Done () u" using u(1) by (simp only: kseq_kmod)
    have "kill_line (Suc n) s = Done () t"
      using more by (simp only: kill_line.simps kapply if_True simp_thms kseq_exec(1) cu t(1))
    with t u(4) in_frame_trans [OF u(3) t(3)] show ?thesis by (auto simp del: kill_line.simps)
  qed
qed

lemma word_of_int_byte_eq:
  assumes "0 \<le> c" and "c < 256"
  shows "(word_of_int c :: byte) = 10 \<longleftrightarrow> c = 10"
proof -
  have "(word_of_int c :: byte) = word_of_int 10 \<longleftrightarrow> take_bit 8 c = take_bit 8 10"
    by (simp only: word_of_int_eq_iff) simp
  moreover have "take_bit 8 c = c" using assms by (simp add: take_bit_eq_mod)
  ultimately show ?thesis by simp
qed

lemma input_plain_exec:
  assumes "console_ok s" and "0 \<le> c" and "c < 256" and "LkPtable \<notin> held s"
    and 5: "c \<notin> {16, 21, 8, 127}" "c \<noteq> 0" "length (in_line s) + length (in_edit s) < INPUT_BUF"
  shows "\<exists>t. input_char c s = Done () t \<and> console_ok t \<and> in_frame s t \<and>
    (in_line t, in_edit t) = edit_char c (in_line s, in_edit s) \<and>
    (in_line t = in_line s \<or> \<not> asleep ChInput t)"
proof -
  have ok: "screen_ok s" "length (in_buf s) = INPUT_BUF" "length (in_line s) + length (in_edit s) \<le> INPUT_BUF"
    "10 \<notin> set (in_edit s)"
    using assms(1) by (simp_all add: console_ok_def input_ok_def)
  define d where "d = (if c = 13 then 10 else c)"
  define u where "u = echoed d (input_put (word_of_int d) s)"
  note room = 5(3)
  note p = input_put_line [OF ok(2) room, of "word_of_int d"]
  have u: "in_line u = in_line s" "in_edit u = in_edit s @ [word_of_int d]" "screen_ok u" "length (in_buf u) = INPUT_BUF"
    "LkPtable \<notin> held u" "in_frame s u"
    using ok p screen_ok_echoed [of "input_put (word_of_int d) s" d] assms(4)
    by (simp_all add: u_def) (simp_all add: input_put_def in_frame_def asleep_def)
  define commit where "commit \<longleftrightarrow> d = 10 \<or> d = 4 \<or> length (in_line s) + length (in_edit u) = INPUT_BUF"
  have lu: "length (in_line u) + length (in_edit u) \<le> INPUT_BUF" using u room by simp
  have k: "kbind (kget (\<lambda>s. d = 10 \<or> d = 4 \<or> in_e s = in_r s + of_nat INPUT_BUF)) (\<lambda>commit.
         if commit then kseq (kmod (\<lambda>s. s\<lparr>in_w := in_e s\<rparr>)) (wakeup ChInput) else kret ()) u =
       (if commit then wakeup ChInput (u\<lparr>in_w := in_e u\<rparr>) else Done () u)"
    by (simp only: kapply in_room_iff(3) [OF lu] commit_def u(1) kret_simps)
  have "screen_ok (input_put (word_of_int d) s)" using ok(1) by simp
  note cu = consputc_exec [OF this, of d, folded u_def]
  have "input_char c s = (kseq (kmod (input_put (word_of_int d))) (kseq (consputc d)
      (kbind (kget (\<lambda>s. d = 10 \<or> d = 4 \<or> in_e s = in_r s + of_nat INPUT_BUF)) (\<lambda>commit.
         if commit then kseq (kmod (\<lambda>s. s\<lparr>in_w := in_e s\<rparr>)) (wakeup ChInput) else kret ())))) s"
    using 5 in_room_iff(2) [OF ok(3)] room
    unfolding input_char_def kapply Let_def d_def [symmetric] input_put_def [abs_def] by simp
  also have "\<dots> = (if commit then wakeup ChInput (u\<lparr>in_w := in_e u\<rparr>) else Done () u)"
    by (simp only: kseq_kmod kseq_exec(1) cu k)
  finally have i: "input_char c s = (if commit then wakeup ChInput (u\<lparr>in_w := in_e u\<rparr>) else Done () u)" .
  have dc: "d = 10 \<or> d = 4 \<longleftrightarrow> c = 10 \<or> c = 13 \<or> c = 4" by (auto simp: d_def)
  have e: "edit_char c (in_line s, in_edit s) = (if commit then (in_line u @ in_edit u, []) else (in_line u, in_edit u))"
    using 5 dc unfolding edit_char_def d_def [symmetric] Let_def commit_def u by auto
  show ?thesis
  proof (cases commit)
    case True
    let ?t = "(u\<lparr>in_w := in_e u\<rparr>)\<lparr>ptable := map (wake_proc ChInput) (ptable u)\<rparr>"
    have "input_char c s = Done () ?t" using i True u(5) by simp
    moreover have "in_line ?t = in_line u @ in_edit u" "in_edit ?t = []" using input_commit [OF lu] by simp_all
    moreover from this have "console_ok ?t" using u lu by (simp add: console_ok_def input_ok_def)
    moreover have a: "asleep x ?t \<longleftrightarrow> x \<noteq> ChInput \<and> asleep x u" for x
      using asleep_simps(1) [of x ChInput "u\<lparr>in_w := in_e u\<rparr>"] by simp
    moreover have "in_frame s ?t" using u(6) by (simp add: in_frame_def a)
    ultimately show ?thesis using e True by (intro exI [of _ ?t]) simp
  next
    case False
    then have "d \<noteq> 10" by (simp add: commit_def)
    then have "(word_of_int d :: byte) \<noteq> 10" using assms(2,3) word_of_int_byte_eq [of d] by (simp add: d_def split: if_splits)
    with ok(4) u lu have "console_ok u" by (simp add: console_ok_def input_ok_def)
    with i e False u show ?thesis by (intro exI [of _ u]) simp
  qed
qed

lemma input_char_exec:
  assumes "console_ok s" and "0 \<le> c" and "c < 256" and "LkPtable \<notin> held s"
  shows "\<exists>t. input_char c s = Done () t \<and> console_ok t \<and> in_frame s t \<and>
    (in_line t, in_edit t) = edit_char c (in_line s, in_edit s) \<and>
    (in_line t = in_line s \<or> \<not> asleep ChInput t)"
proof -
  let ?full = "INPUT_BUF \<le> length (in_line s) + length (in_edit s)"
  have ok: "screen_ok s" "length (in_buf s) = INPUT_BUF" "length (in_line s) + length (in_edit s) \<le> INPUT_BUF"
    "10 \<notin> set (in_edit s)"
    using assms(1) by (simp_all add: console_ok_def input_ok_def)
  consider "c = 16" | "c = 21" | "c = 8 \<or> c = 127" | "c \<notin> {16, 21, 8, 127}" "c = 0 \<or> ?full"
    | "c \<notin> {16, 21, 8, 127}" "c \<noteq> 0" "\<not> ?full" by blast
  then show ?thesis
  proof cases
    case 1
    then show ?thesis using assms(1) by (simp add: input_char_def edit_char_def)
  next
    case 2
    then have "input_char c s = kill_line INPUT_BUF s" by (simp add: input_char_def)
    moreover have "length (in_edit s) \<le> INPUT_BUF" using ok(3) by simp
    ultimately show ?thesis using kill_line_exec [OF assms(1), of INPUT_BUF] 2 by (auto simp: edit_char_def)
  next
    case 3
    then have i: "input_char c s = (if in_edit s \<noteq> [] then kseq (kmod (\<lambda>s. s\<lparr>in_e := in_e s - 1\<rparr>)) (consputc BACKSPACE) s else Done () s)"
      by (auto simp: input_char_def kapply in_edit_empty)
    have e: "edit_char c (in_line s, in_edit s) = (in_line s, butlast (in_edit s))"
      using 3 by (auto simp: edit_char_def)
    show ?thesis
    proof (cases "in_edit s = []")
      case True
      then show ?thesis using i e assms(1) by simp
    next
      case False
      with rubout_exec [OF assms(1) False] i e show ?thesis by auto
    qed
  next
    case 4
    then have "input_char c s = Done () s"
      using in_room_iff(2) [OF ok(3)] by (auto simp: input_char_def kapply)
    moreover have "edit_char c (in_line s, in_edit s) = (in_line s, in_edit s)"
      using 4 by (auto simp: edit_char_def)
    ultimately show ?thesis using assms(1) by simp
  next
    case 5
    with input_plain_exec [OF assms] show ?thesis by simp
  qed
qed

lemma input_chars_exec:
  assumes "console_ok s" and "\<forall>c \<in> set cs. 0 \<le> c \<and> c < 256" and "LkPtable \<notin> held s"
  shows "\<exists>t. input_chars cs s = Done () t \<and> console_ok t \<and> in_frame s t \<and>
    (in_line t, in_edit t) = fold edit_char cs (in_line s, in_edit s) \<and>
    (in_line t = in_line s \<or> \<not> asleep ChInput t)"
  using assms
proof (induction cs arbitrary: s)
  case Nil
  then show ?case by simp
next
  case (Cons c cs)
  then obtain u where u: "input_char c s = Done () u" "console_ok u" "in_frame s u"
      "(in_line u, in_edit u) = edit_char c (in_line s, in_edit s)" "in_line u = in_line s \<or> \<not> asleep ChInput u"
    using input_char_exec [of s c] by auto
  have "LkPtable \<notin> held u" using u(3) Cons.prems(3) by (simp add: in_frame_def)
  with Cons.IH [OF u(2)] Cons.prems(2) obtain t where t: "input_chars cs u = Done () t" "console_ok t" "in_frame u t"
      "(in_line t, in_edit t) = fold edit_char cs (in_line u, in_edit u)" "in_line t = in_line u \<or> \<not> asleep ChInput t"
    by auto
  have "in_line t = in_line s \<or> \<not> asleep ChInput t"
    using t(5) u(5) t(3) by (auto simp: in_frame_def)
  moreover have "input_chars (c # cs) s = Done () t" by (simp only: input_chars.simps kseq_exec(1) u(1) t(1))
  moreover have "(in_line t, in_edit t) = fold edit_char (c # cs) (in_line s, in_edit s)" using t(4) u(4) by simp
  ultimately show ?case using t(2) in_frame_trans [OF u(3) t(3)] by blast
qed

lemma consoleintr_exec:
  assumes "console_ok s" and "\<forall>c \<in> set cs. 0 \<le> c \<and> c < 256" and "LkPtable \<notin> held s" and "LkCons \<notin> held s"
  shows "\<exists>t. consoleintr cs s = Done (16 \<in> set cs) t \<and> console_ok t \<and> in_frame s t \<and>
    (in_line t, in_edit t) = fold edit_char cs (in_line s, in_edit s) \<and>
    (in_line t = in_line s \<or> \<not> asleep ChInput t)"
proof -
  let ?s = "s\<lparr>held := insert LkCons (held s)\<rparr>"
  have s: "console_ok ?s" "LkPtable \<notin> held ?s" "in_line ?s = in_line s" "in_edit ?s = in_edit s"
    using assms by (simp_all add: console_ok_def input_ok_def)
  from input_chars_exec [OF s(1) assms(2) s(2)] obtain u where u: "input_chars cs ?s = Done () u" "console_ok u" "in_frame ?s u"
      "(in_line u, in_edit u) = fold edit_char cs (in_line s, in_edit s)" "in_line u = in_line s \<or> \<not> asleep ChInput u"
    unfolding s(3,4) by blast
  have h: "held u = insert LkCons (held s)" using u(3) by (simp add: in_frame_def)
  let ?t = "u\<lparr>held := held s\<rparr>"
  have "consoleintr cs s = Done (16 \<in> set cs) ?t"
    unfolding consoleintr_def using assms(4) u(1) h by simp
  moreover have "console_ok ?t" using u(2) by (simp add: console_ok_def input_ok_def)
  moreover have "in_frame s ?t" using u(3) by (simp add: in_frame_def)
  ultimately show ?thesis using u(4,5) by (intro exI [of _ ?t]) simp
qed

section \<open>Reading a line\<close>

text \<open>What a read of at most \<open>n\<close> bytes takes from the committed input, and what it leaves; None
  if it has to wait for more. The end-of-file key is consumed only by a read that got nothing.\<close>

fun line_take :: "bool \<Rightarrow> nat \<Rightarrow> byte list \<Rightarrow> (byte list \<times> byte list) option" where
  "line_take start 0 l = Some ([], l)"
| "line_take start (Suc n) [] = None"
| "line_take start (Suc n) (c # l) =
     (if c = 4 then Some ([], if start then l else c # l)
      else if c = 10 then Some ([c], l)
      else map_option (\<lambda>(cs, r). (c # cs, r)) (line_take False n l))"

lemma in_line_take:
  assumes "length (in_buf s) = INPUT_BUF" and "in_line s \<noteq> []"
  shows "in_line s = in_buf s ! (unat (in_r s) mod INPUT_BUF) # in_line (s\<lparr>in_r := in_r s + 1\<rparr>)"
  using assms ring_take [of "in_buf s" "in_r s" "in_w s"] by (simp add: in_line_def)

lemma read_end:
  assumes "held s = {LkCons}" and "inode_free ip s"
  shows "kseq (lk_release LkCons) (kseq (ilock (Some ip)) (kret x)) s =
    Done x (upd_inode ip (\<lambda>i. i\<lparr>i_busy := True\<rparr>) (s\<lparr>held := {}\<rparr>))"
proof -
  have "lk_release LkCons s = Done () (s\<lparr>held := {}\<rparr>)" using assms(1) by simp
  moreover have "ilock (Some ip) (s\<lparr>held := {}\<rparr>) = Done () (upd_inode ip (\<lambda>i. i\<lparr>i_busy := True\<rparr>) (s\<lparr>held := {}\<rparr>))"
    using assms(2) by (intro ilock_exec) (simp_all add: inode_free_def)
  ultimately show ?thesis by (simp only: kseq_exec(1) kret_simps)
qed

text \<open>The loop takes the bytes the specification says and stops there.\<close>

lemma consoleread_loop_exec:
  assumes "input_ok s" and "held s = {LkCons}" and "inode_free ip s"
    and "line_take (got = []) n (in_line s) = Some (cs, rest)" and "target = n + length got"
  shows "\<exists>r. consoleread_loop ip target n got s = Done (int (length (got @ cs)), got @ cs)
       (upd_inode ip (\<lambda>i. i\<lparr>i_busy := True\<rparr>) (s\<lparr>in_r := r, held := {}\<rparr>)) \<and>
     in_line (s\<lparr>in_r := r\<rparr>) = rest"
  using assms
proof (induction n arbitrary: got s cs)
  case 0
  have "s\<lparr>in_r := in_r s\<rparr> = s" by simp
  moreover have "s\<lparr>in_r := in_r s, held := {}\<rparr> = s\<lparr>held := {}\<rparr>" by simp
  ultimately show ?case using 0 by (intro exI [of _ "in_r s"]) (simp add: read_end del: kseq_exec)
next
  case (Suc n)
  define c where "c = in_buf s ! (unat (in_r s) mod INPUT_BUF)"
  define u where "u = s\<lparr>in_r := in_r s + 1\<rparr>"
  have ne: "in_line s \<noteq> []" using Suc.prems(4) by (cases "in_line s") simp_all
  then have e: "in_r s \<noteq> in_w s" by (auto simp: in_line_def)
  have l: "in_line s = c # in_line u"
    using in_line_take [OF _ ne] Suc.prems(1) by (simp add: input_ok_def c_def u_def)
  have u: "held u = {LkCons}" "inode_free ip u" using Suc.prems(2,3) by (simp_all add: u_def inode_free_def)
  have step: "consoleread_loop ip target (Suc n) got s =
      (if c = 4 then kseq (if Suc n < target then kmod (\<lambda>s. s\<lparr>in_r := in_r s - 1\<rparr>) else kret ())
          (kseq (lk_release LkCons) (kseq (ilock (Some ip)) (kret (int target - int (Suc n), got)))) u
        else if c = 10 then kseq (lk_release LkCons) (kseq (ilock (Some ip)) (kret (int target - int n, got @ [c]))) u
        else consoleread_loop ip target n (got @ [c]) u)"
    using e by (simp only: consoleread_loop.simps kapply if_False simp_thms c_def u_def)
  show ?case
  proof (cases "c = 4")
    case True
    with Suc.prems(4) l have cs: "cs = []" "rest = (if got = [] then in_line u else in_line s)" by auto
    show ?thesis
    proof (cases "got = []")
      case g: True
      with Suc.prems(5) show ?thesis unfolding step using True cs read_end [OF u]
        by (intro exI [of _ "in_r s + 1"]) (simp add: u_def kseq_kret del: kseq_exec(1))
    next
      case g: False
      then have lt: "Suc n < target" using Suc.prems(5) by (cases got) simp_all
      have "kseq (if Suc n < target then kmod (\<lambda>s. s\<lparr>in_r := in_r s - 1\<rparr>) else kret ()) m u = m s" for m :: "('a cons_state_scheme, int \<times> byte list) kop"
        using lt by (simp add: u_def kapply)
      then show ?thesis unfolding step using True cs g read_end [OF Suc.prems(2,3)] Suc.prems(5)
        by (intro exI [of _ "in_r s"]) (simp del: kseq_exec(1))
    qed
  next
    case c4: False
    show ?thesis
    proof (cases "c = 10")
      case True
      with Suc.prems(4) l have cs: "cs = [c]" "rest = in_line u" by auto
      then show ?thesis unfolding step using True c4 read_end [OF u] Suc.prems(5)
        by (intro exI [of _ "in_r s + 1"]) (simp add: u_def del: kseq_exec(1))
    next
      case c10: False
      with c4 Suc.prems(4) l obtain cs' where cs: "cs = c # cs'" "line_take False n (in_line u) = Some (cs', rest)" by auto
      have "length (in_line s) = Suc (length (in_line u))" by (simp add: l)
      then have iu: "input_ok u" using Suc.prems(1) by (simp add: input_ok_def u_def in_edit_def)
      have "\<exists>r. consoleread_loop ip target n (got @ [c]) u = Done (int (length ((got @ [c]) @ cs')), (got @ [c]) @ cs')
          (upd_inode ip (\<lambda>i. i\<lparr>i_busy := True\<rparr>) (u\<lparr>in_r := r, held := {}\<rparr>)) \<and> in_line (u\<lparr>in_r := r\<rparr>) = rest"
        using Suc.prems(5) cs(2) by (intro Suc.IH iu u) simp_all
      then show ?thesis unfolding step using c4 c10 cs(1) by (simp add: u_def)
    qed
  qed
qed

lemma line_take_length: "line_take start n l = Some (cs, rest) \<Longrightarrow> length rest \<le> length l"
  by (induction start n l arbitrary: cs rest rule: line_take.induct) (fastforce split: if_splits)+

lemma consoleread_exec:
  assumes "console_ok s" and "held s = {}" and "inode_locked ip s" and "0 \<le> n"
    and "line_take True (nat n) (in_line s) = Some (cs, rest)"
  shows "\<exists>t. consoleread ip n s = Done (int (length cs), cs) t \<and> in_line t = rest \<and> in_edit t = in_edit s \<and>
    console_ok t \<and> held t = {} \<and> icache t = icache s"
proof -
  define u where "u = (upd_inode ip (\<lambda>i. i\<lparr>i_busy := False\<rparr>) s)\<lparr>ptable := map (wake_proc (ChInode ip)) (ptable s)\<rparr>"
  have ul: "iunlock (Some ip) s = Done () u"
    unfolding u_def using assms(2,3) by (intro iunlock_exec) (simp_all add: inode_locked_def)
  have hu: "held u = {}" and lu: "in_line (u\<lparr>held := {LkCons}\<rparr>) = in_line s" and ok: "input_ok (u\<lparr>held := {LkCons}\<rparr>)"
    using assms(1,2) by (simp_all add: u_def upd_inode_def in_line_def console_ok_def input_ok_def in_edit_def)
  have fr: "inode_free ip (u\<lparr>held := {LkCons}\<rparr>)"
    using assms(3) by (simp add: inode_free_def inode_locked_def u_def upd_inode_def)
  have aq: "lk_acquire LkCons u = Done () (u\<lparr>held := {LkCons}\<rparr>)" using hu by simp
  have "\<exists>r. (if n \<le> 0 then kseq (lk_release LkCons) (kseq (ilock (Some ip)) (kret (0, [])))
      else consoleread_loop ip (nat n) (nat n) []) (u\<lparr>held := {LkCons}\<rparr>) =
      Done (int (length cs), cs) (upd_inode ip (\<lambda>i. i\<lparr>i_busy := True\<rparr>) ((u\<lparr>held := {LkCons}\<rparr>)\<lparr>in_r := r, held := {}\<rparr>)) \<and>
      in_line ((u\<lparr>held := {LkCons}\<rparr>)\<lparr>in_r := r\<rparr>) = rest"
  proof (cases "n = 0")
    case True
    have "(u\<lparr>held := {LkCons}\<rparr>)\<lparr>in_r := in_r u, held := {}\<rparr> = (u\<lparr>held := {LkCons}\<rparr>)\<lparr>held := {}\<rparr>"
      "(u\<lparr>held := {LkCons}\<rparr>)\<lparr>in_r := in_r u\<rparr> = u\<lparr>held := {LkCons}\<rparr>" by simp_all
    then show ?thesis using True assms(5) lu read_end [OF _ fr]
      by (intro exI [of _ "in_r u"]) (simp del: kseq_exec)
  next
    case False
    with assms(4,5) lu consoleread_loop_exec [OF ok _ fr, of "[]" "nat n" cs rest "nat n"] show ?thesis by simp
  qed
  then obtain r where r: "consoleread ip n s = Done (int (length cs), cs)
      (upd_inode ip (\<lambda>i. i\<lparr>i_busy := True\<rparr>) (u\<lparr>in_r := r, held := {}\<rparr>))" and rest: "in_line (u\<lparr>in_r := r\<rparr>) = rest"
    unfolding consoleread_def by (auto simp only: kseq_exec(1) ul aq) (simp add: in_line_def)
  let ?t = "upd_inode ip (\<lambda>i. i\<lparr>i_busy := True\<rparr>) (u\<lparr>in_r := r, held := {}\<rparr>)"
  have t: "in_line ?t = rest" "in_edit ?t = in_edit s" "held ?t = {}" "length (in_buf ?t) = INPUT_BUF" "screen_ok ?t"
    using rest assms(1)
    by (simp_all add: in_line_def in_edit_def u_def upd_inode_def console_ok_def input_ok_def screen_ok_def)
  have "(icache s ! ip)\<lparr>i_busy := True\<rparr> = icache s ! ip"
    using assms(3) by (intro inode.equality) (simp_all add: inode_locked_def)
  then have "(icache s)[ip := (icache s ! ip)\<lparr>i_busy := True\<rparr>] = icache s" by (metis list_update_id)
  then have "icache ?t = icache s" using assms(3) by (simp add: u_def upd_inode_def inode_locked_def)
  moreover have "console_ok ?t"
    using t assms(1) line_take_length [OF assms(5)] by (simp add: console_ok_def input_ok_def)
  ultimately show ?thesis using r t by blast
qed

section \<open>Properties\<close>

text \<open>A machine with the console's inode open and locked, and a serial port.\<close>

definition boot_cons_state :: cons_state where
  "boot_cons_state = proc_state.extend (file_state.extend
     (boot_file_state\<lparr>icache := [\<lparr>i_dev = 1, i_inum = 5, i_ref = 1, i_busy = True, i_valid = True,
        i_din = \<lparr>di_type = T_DEV, di_major = 1, di_minor = 1, di_nlink = 1, di_size = 0, di_addrs = replicate 13 0\<rparr>\<rparr>]\<rparr>)
       \<lparr>forkret_first = False\<rparr>)
     \<lparr>cons_locking = True, crt = replicate 2000 0, crt_pos = 0, uart = True, uart_out = [],
      in_buf = replicate INPUT_BUF 0, in_r = 0, in_w = 0, in_e = 0\<rparr>"

lemma boot_cons_fields:
  "held boot_cons_state = {}" "inode_locked 0 boot_cons_state" "screen boot_cons_state = (replicate 2000 0, 0)"
  "screen_ok boot_cons_state" "in_line boot_cons_state = []" "in_edit boot_cons_state = []"
  "console_ok boot_cons_state" "uart boot_cons_state" "uart_out boot_cons_state = []"
  by (simp_all add: boot_cons_state_def proc_state.defs file_state.defs boot_file_state_def boot_disk_state_def bare_kstate_def
      fs_state.defs log_state.defs disk_state.defs kmem_state.defs inode_locked_def screen_def screen_ok_def in_line_def
      in_edit_def console_ok_def input_ok_def)

lemma consputbytes_exec:
  assumes "screen_ok s"
  shows "\<exists>t. consputbytes bs s = Done () t \<and> t = fold (\<lambda>b. echoed (uint b)) bs s \<and> screen_ok t"
  using assms
proof (induction bs arbitrary: s)
  case (Cons b bs)
  have "consputbytes (b # bs) s = consputbytes bs (echoed (uint b) s)"
    by (simp only: consputbytes.simps kseq_exec(1) consputc_exec [OF Cons.prems])
  with Cons.IH [OF screen_ok_echoed [OF Cons.prems, of "uint b"]] show ?case by simp
qed simp

lemma echoed_byte: "uart_out (echoed (uint b) s) = uart_out s @ (if uart s then [b] else [])"
  for b :: byte
  using uint_lt2p [of b] by (simp add: echoed_def uart_chars_def BACKSPACE_def)

lemma echo_bytes:
  "screen (fold (\<lambda>b. echoed (uint b)) bs s) = fold screen_put (map uint bs) (screen s)"
  "uart (fold (\<lambda>b. echoed (uint b)) bs s) = uart s"
  "uart_out (fold (\<lambda>b. echoed (uint b)) bs s) = uart_out s @ (if uart s then bs else [])"
  "held (fold (\<lambda>b. echoed (uint b)) bs s) = held s"
  "icache (fold (\<lambda>b. echoed (uint b)) bs s) = icache s"
  for bs :: "byte list"
  by (induction bs arbitrary: s) (simp_all add: screen_echoed echoed_byte)

text \<open>C19: Writing to the console stays on the screen. Whatever bytes a write consists of, starting
  from a cursor in the first 24 rows it returns their number without a panic, leaves the cursor in
  those rows and the display memory at its 25 rows of 80 cells, puts every character into the cell
  of the cursor and scrolls as the reference screen does, and sends the bytes to the serial port
  exactly if there is one.\<close>

theorem consolewrite_screen:
  assumes "screen_ok s" and "held s = {}" and "inode_locked ip s"
  shows "\<exists>t. consolewrite ip bs s = Done (int (length bs)) t \<and> screen_ok t \<and>
    screen t = fold screen_put (map uint bs) (screen s) \<and>
    uart_out t = uart_out s @ (if uart s then bs else [])"
proof -
  define u where "u = (upd_inode ip (\<lambda>i. i\<lparr>i_busy := False\<rparr>) s)\<lparr>ptable := map (wake_proc (ChInode ip)) (ptable s), held := {LkCons}\<rparr>"
  have ul: "kseq (iunlock (Some ip)) (kseq (lk_acquire LkCons) m) s = m u" for m :: "('a cons_state_scheme, int) kop"
    using iunlock_exec [of s ip] assms(2,3) by (simp add: inode_locked_def u_def upd_inode_def)
  have u: "screen_ok u" "screen u = screen s" "uart_out u = uart_out s" "uart u = uart s" "held u = {LkCons}" "inode_free ip u"
    using assms by (simp_all add: u_def upd_inode_def screen_ok_def screen_def inode_free_def inode_locked_def)
  obtain v where v: "consputbytes bs u = Done () v" "v = fold (\<lambda>b. echoed (uint b)) bs u" "screen_ok v"
    using consputbytes_exec [OF u(1)] by blast
  have "held v = {LkCons}" "inode_free ip v" using u(5,6) by (simp_all add: v(2) echo_bytes inode_free_def)
  note e = read_end [OF this]
  let ?t = "upd_inode ip (\<lambda>i. i\<lparr>i_busy := True\<rparr>) (v\<lparr>held := {}\<rparr>)"
  have "consolewrite ip bs s = Done (int (length bs)) ?t"
    unfolding consolewrite_def ul by (simp only: kseq_exec(1) v(1) e)
  moreover have "screen_ok ?t" "screen ?t = screen v" "uart_out ?t = uart_out v"
    using v(3) by (simp_all add: upd_inode_def screen_ok_def screen_def)
  ultimately show ?thesis using u by (auto simp: v(2) echo_bytes)
qed

theorem consolewrite_screen_witness:
  "\<exists>t. consolewrite 0 [72, 10] boot_cons_state = Done 2 t \<and> screen t = ((replicate 2000 0)[0 := 0x748, 1 := 0x720, 80 := 0x720], 80) \<and>
    uart_out t = [72, 10]"
  using consolewrite_screen [OF boot_cons_fields(4,1,2), of "[72, 10]"]
  by (simp add: boot_cons_fields screen_put_def put_cell_def BACKSPACE_def) blast

text \<open>C18: The console's input is a line editor. For every sequence of characters the keyboard or
  the serial port delivers, handling them returns and acts on the committed input and the line
  being edited as the reference editor does (erase, erase line, ignore when 128 bytes are
  pending, commit at the end of a line, at the end-of-file key and when the buffer fills up), the
  buffer's invariant holds again, and if anything was committed no reader is left asleep.\<close>

theorem consoleintr_edits:
  assumes "console_ok s" and "\<forall>c \<in> set cs. 0 \<le> c \<and> c < 256" and "LkPtable \<notin> held s" and "LkCons \<notin> held s"
  shows "\<exists>t. consoleintr cs s = Done (16 \<in> set cs) t \<and> console_ok t \<and>
    (in_line t, in_edit t) = fold edit_char cs (in_line s, in_edit s) \<and>
    (in_line t = in_line s \<or> \<not> asleep ChInput t)"
  using consoleintr_exec [OF assms] by blast

theorem consoleintr_edits_witness:
  "\<exists>t. consoleintr [97, 98, 8, 99, 13, 100] boot_cons_state = Done False t \<and> in_line t = [97, 99, 10] \<and> in_edit t = [100]"
  using consoleintr_edits [OF boot_cons_fields(7), of "[97, 98, 8, 99, 13, 100]"]
  by (simp add: boot_cons_fields edit_char_def INPUT_BUF_def) blast

lemma edit_room:
  assumes "length l + length e < INPUT_BUF \<or> e = []"
  shows "length (fst (fold edit_char cs (l, e))) + length (snd (fold edit_char cs (l, e))) < INPUT_BUF \<or>
    snd (fold edit_char cs (l, e)) = []"
  using assms
proof (induction cs arbitrary: l e)
  case (Cons c cs)
  obtain l' e' where le: "edit_char c (l, e) = (l', e')" by (cases "edit_char c (l, e)")
  then have "length l' + length e' < INPUT_BUF \<or> e' = []"
    using Cons.prems by (auto simp: edit_char_def Let_def split: if_splits)
  with Cons.IH [of l' e'] le show ?case by simp
qed simp

lemma line_take_all:
  assumes "4 \<notin> set ed" and "10 \<notin> set ed" and "length ed < n"
  shows "line_take start n (ed @ [10]) = Some (ed @ [10], [])"
  using assms
proof (induction ed arbitrary: n start)
  case Nil
  then show ?case by (cases n) simp_all
next
  case (Cons c ed)
  then show ?case by (cases n) auto
qed

text \<open>C17: A line typed at the console is the line read. When no input is pending and keys are typed
  that leave the line \<open>ed\<close> in the editor, the Enter key completes it: a reader that was waiting is
  woken, and a read of the console with room for the line returns exactly \<open>ed\<close> and the newline,
  after which no input is pending.\<close>

theorem console_types_line:
  assumes "console_ok s" and "held s = {}" and "inode_locked ip s" and "in_line s = []" and "in_edit s = []"
    and "\<forall>c \<in> set keys. 0 \<le> c \<and> c < 256" and "fold edit_char keys ([], []) = ([], ed)"
    and "4 \<notin> set ed" and "int (length ed) < n"
  shows "\<exists>b t u. consoleintr (keys @ [13]) s = Done b t \<and> \<not> asleep ChInput t \<and>
    consoleread ip n t = Done (int (length ed) + 1, ed @ [10]) u \<and> in_line u = [] \<and> in_edit u = []"
proof -
  from edit_room [of "[]" "[]" keys] assms(7) have room: "length ed < INPUT_BUF" by (auto simp: INPUT_BUF_def)
  from consoleintr_exec [OF assms(1,6)] assms(2,4,5,7) have nl: "10 \<notin> set ed"
    by (auto simp: console_ok_def input_ok_def)
  have "\<forall>c \<in> set (keys @ [13]). 0 \<le> c \<and> c < 256" using assms(6) by simp
  from consoleintr_exec [OF assms(1) this] assms(2,4,5) obtain t where
    t: "consoleintr (keys @ [13]) s = Done (16 \<in> set (keys @ [13])) t" "console_ok t" "in_frame s t"
      "(in_line t, in_edit t) = fold edit_char (keys @ [13]) ([], [])" "in_line t = [] \<or> \<not> asleep ChInput t" by auto
  have "fold edit_char (keys @ [13]) ([], []) = (ed @ [10], [])"
    using assms(7) room by (simp add: edit_char_def Let_def)
  with t(4) have l: "in_line t = ed @ [10]" "in_edit t = []" by simp_all
  have f: "held t = {}" "inode_locked ip t" using t(3) assms(2,3) by (simp_all add: in_frame_def inode_locked_def)
  have "line_take True (nat n) (in_line t) = Some (ed @ [10], [])"
    unfolding l(1) using assms(8,9) nl by (intro line_take_all) simp_all
  from consoleread_exec [OF t(2) f _ this] assms(9) l(2) obtain u where
    "consoleread ip n t = Done (int (length (ed @ [10])), ed @ [10]) u" "in_line u = []" "in_edit u = []" by auto
  with t(1,5) l(1) show ?thesis by (intro exI [of _ "16 \<in> set (keys @ [13])"] exI [of _ t] exI [of _ u]) simp
qed

theorem console_types_line_witness:
  "\<exists>b t u. consoleintr [108, 120, 127, 115, 13] boot_cons_state = Done b t \<and>
    consoleread 0 100 t = Done (3, [108, 115, 10]) u"
  using console_types_line [OF boot_cons_fields(7,1,2,5,6), of "[108, 120, 127, 115]" "[108, 115]" 100]
  by (simp add: edit_char_def INPUT_BUF_def) blast

end
