(* ===== verification/Trap.thy ===== *)
theory Trap
  imports Console Spinlock
begin

text \<open>
  Traps (\<^verbatim>\<open>src/trap.c\<close>), the system call table (\<open>syscall\<close> of \<^verbatim>\<open>src/syscall.c\<close>) and the
  keyboard decoder (\<^verbatim>\<open>src/kbd.c\<close>). What the devices deliver at an interrupt, the date of the
  real-time clock, which CPU runs and the addresses the linker fixes are arguments.
\<close>

section \<open>System call dispatch\<close>

record machine =
  mc_link :: linkage
  mc_cpu :: uint
  mc_mem :: mem
  mc_cr2 :: uint
  mc_date :: "byte list"
  mc_ide_ok :: bool
  mc_kbd :: "byte list"
  mc_uart :: "byte list"

definition syscalls :: "machine \<Rightarrow> nat \<Rightarrow> ('z cons_state_scheme, uint) kop option" where
  "syscalls mc num =
     (let ln = mc_link mc; d = console_devsw in
      if num = 1 then Some (sys_fork ln)
      else if num = 2 then Some sys_exit
      else if num = 3 then Some sys_wait
      else if num = 4 then Some sys_pipe
      else if num = 5 then Some (sys_read d)
      else if num = 6 then Some sys_kill
      else if num = 7 then Some (sys_exec ln d)
      else if num = 8 then Some sys_fstat
      else if num = 9 then Some (sys_chdir d)
      else if num = 10 then Some sys_dup
      else if num = 11 then Some sys_getpid
      else if num = 12 then Some sys_sbrk
      else if num = 13 then Some sys_sleep
      else if num = 14 then Some sys_uptime
      else if num = 15 then Some (sys_open d)
      else if num = 16 then Some (sys_write d)
      else if num = 17 then Some (sys_mknod d)
      else if num = 18 then Some (sys_unlink d)
      else if num = 19 then Some (sys_link d)
      else if num = 20 then Some (sys_mkdir d)
      else if num = 21 then Some sys_close
      else if num = 22 then Some (sys_gettime (mc_date mc))
      else if num = 23 then Some sys_settickets
      else None)"

definition set_eax :: "uint \<Rightarrow> ('z kstate_scheme, unit) kop" where
  "set_eax v = kmod (\<lambda>s. upd_proc (cur s) (\<lambda>p. p\<lparr>p_tf := (p_tf p)\<lparr>tf_eax := v\<rparr>\<rparr>) s)"

text \<open>\<open>cprintf\<close> with the arguments \<open>args\<close>; at most one of them is a string, \<open>str\<close>, whose
  address is the word 1 here.\<close>

definition cprintf_args :: "string \<Rightarrow> string \<Rightarrow> uint list \<Rightarrow> ('z cons_state_scheme, unit) kop" where
  "cprintf_args fmt str args = cprintf (\<lambda>_. str) (\<lambda>k. args ! k) fmt"

definition cstr :: "byte list \<Rightarrow> string" where
  "cstr bs = map (\<lambda>b. char_of (unat b)) (takeWhile (\<lambda>b. b \<noteq> 0) bs)"

definition syscall_unknown :: "uint \<Rightarrow> ('z cons_state_scheme, unit) kop" where
  "syscall_unknown num = kbind (kget (\<lambda>s. ptable s ! cur s)) (\<lambda>p.
     kseq (cprintf_args ''%d %s: unknown sys call %d\<newline>'' (cstr (p_name p)) [word_of_int (p_pid p), 1, num])
     (set_eax (- 1)))"

definition syscall :: "machine \<Rightarrow> ('z cons_state_scheme, unit) kop" where
  "syscall mc = kbind (kcur (\<lambda>p. tf_eax (p_tf p))) (\<lambda>num.
     case (if sint num > 0 \<and> sint num < 24 then syscalls mc (unat num) else None) of
       Some f \<Rightarrow> kbind f set_eax
     | None \<Rightarrow> syscall_unknown num)"

section \<open>Traps\<close>

definition T_SYSCALL :: uint where "T_SYSCALL = 64"
definition T_IRQ0 :: uint where "T_IRQ0 = 32"
definition IRQ_TIMER :: uint where "IRQ_TIMER = 0"
definition IRQ_KBD :: uint where "IRQ_KBD = 1"
definition IRQ_COM1 :: uint where "IRQ_COM1 = 4"
definition IRQ_IDE :: uint where "IRQ_IDE = 14"
definition IRQ_SPURIOUS :: uint where "IRQ_SPURIOUS = 31"

definition timer_tick :: "('z kstate_scheme, unit) kop" where
  "timer_tick = kseq (lk_acquire LkTicks)
     (kseq (kmod (\<lambda>s. s\<lparr>ticks := ticks s + 1\<rparr>))
     (kseq (wakeup ChTicks)
     (lk_release LkTicks)))"

text \<open>\<open>if(proc->killed) exit();\<close>\<close>

definition exit_if :: "('z file_state_scheme \<Rightarrow> bool) \<Rightarrow> ('z file_state_scheme, unit) kop" where
  "exit_if c s = (if c s then exit s else Done () s)"

definition user_mode :: "trapframe \<Rightarrow> bool" where
  "user_mode tf \<longleftrightarrow> tf_cs tf AND 3 = DPL_USER"

text \<open>The keyboard keeps the modifier keys that are down in a static variable.\<close>

record kbd_state = cons_state +
  kbd_shift :: uint

definition KBD_SHIFT :: uint where "KBD_SHIFT = 1"
definition KBD_CTL :: uint where "KBD_CTL = 2"
definition KBD_CAPSLOCK :: uint where "KBD_CAPSLOCK = 8"
definition KBD_E0ESC :: uint where "KBD_E0ESC = 64"

text \<open>The keyboard tables: modifiers, toggles and the characters of the keys, which the code
  keeps as arrays of 256 entries, zero where they say nothing.\<close>

definition shiftcode :: "uint \<Rightarrow> uint" where
  "shiftcode k = (if k = 0x1D \<or> k = 0x9D then 2 else if k = 0x2A \<or> k = 0x36 then 1
     else if k = 0x38 \<or> k = 0xB8 then 4 else 0)"

definition togglecode :: "uint \<Rightarrow> uint" where
  "togglecode k = (if k = 0x3A then 8 else if k = 0x45 then 16 else if k = 0x46 then 32 else 0)"

definition special_keys :: "(nat \<times> nat) list" where
  "special_keys = [(0xC8, 0xE2), (0xD0, 0xE3), (0xC9, 0xE6), (0xD1, 0xE7), (0xCB, 0xE4), (0xCD, 0xE5),
     (0x97, 0xE0), (0xCF, 0xE1), (0xD2, 0xE8), (0xD3, 0xE9)]"

definition key_rows :: "char list \<Rightarrow> nat list" where
  "key_rows cs = map of_char cs"

definition normal_keys :: "nat list" where
  "normal_keys = [0, 0x1B] @ key_rows ''1234567890-='' @ [8, 9] @ key_rows ''qwertyuiop[]'' @ [10, 0] @
     key_rows ''asdfghjkl;'' @ [39] @ [96, 0, 92] @ key_rows ''zxcvbnm,./'' @ [0, 42, 0, 32] @ replicate 13 0 @
     key_rows ''789-456+1230.'' @ replicate 4 0"

definition shift_keys :: "nat list" where
  "shift_keys = [0, 0x1B] @ key_rows ''!@#$%^&*()_+'' @ [8, 9] @ key_rows ''QWERTYUIOP{}'' @ [10, 0] @
     key_rows ''ASDFGHJKL:'' @ [34] @ key_rows ''~'' @ [0] @ key_rows ''|ZXCVBNM<>?'' @ [0, 42, 0, 32] @ replicate 13 0 @
     key_rows ''789-456+1230.'' @ replicate 4 0"

definition ctl_keys :: "nat list" where
  "ctl_keys = replicate 16 0 @ map (\<lambda>c. of_char c - 64) ''QWERTYUIOP'' @ [0, 0, 13, 0] @
     map (\<lambda>c. of_char c - 64) ''ASDFGHJKL'' @ [0, 0, 0, 0, 28] @ map (\<lambda>c. of_char c - 64) ''ZXCVBNM'' @
     [0, 0, 239, 0, 0]"

definition key_map :: "nat list \<Rightarrow> nat \<Rightarrow> nat \<Rightarrow> nat \<Rightarrow> nat" where
  "key_map keys enter div' k =
     (if k < length keys then keys ! k
      else if k = 0x9C then enter
      else if k = 0xB5 then div'
      else case map_of special_keys k of Some c \<Rightarrow> c | None \<Rightarrow> 0)"

definition charcode :: "uint \<Rightarrow> uint \<Rightarrow> uint" where
  "charcode m data = of_nat
     (if m = 0 then key_map normal_keys 10 47 (unat data)
      else if m = 1 then key_map shift_keys 10 47 (unat data)
      else key_map ctl_keys 13 239 (unat data))"

text \<open>One call of \<open>kbdgetc\<close>: \<open>data\<close> is the byte the controller has, None when it has none. The
  result is the character, 0 for none, and the new modifier state.\<close>

definition kbdgetc :: "uint \<Rightarrow> byte option \<Rightarrow> int \<times> uint" where
  "kbdgetc shift inp = (case inp of None \<Rightarrow> (- 1, shift) | Some b \<Rightarrow>
     (let data = ucast b in
      if data = 0xE0 then (0, shift OR KBD_E0ESC)
      else if data AND 0x80 \<noteq> 0
      then let data = (if shift AND KBD_E0ESC \<noteq> 0 then data else data AND 0x7F)
           in (0, shift AND NOT (shiftcode data OR KBD_E0ESC))
      else let (data, shift) = (if shift AND KBD_E0ESC \<noteq> 0 then (data OR 0x80, shift AND NOT KBD_E0ESC) else (data, shift));
               shift = (shift OR shiftcode data) XOR togglecode data;
               c = charcode (shift AND (KBD_CTL OR KBD_SHIFT)) data;
               c = (if shift AND KBD_CAPSLOCK \<noteq> 0
                    then if 97 \<le> c \<and> c \<le> 122 then c - 32 else if 65 \<le> c \<and> c \<le> 90 then c + 32 else c
                    else c)
           in (sint c, shift)))"

text \<open>The calls of \<open>kbdgetc\<close> that \<open>consoleintr\<close> makes until the controller is empty.\<close>

fun kbd_run :: "uint \<Rightarrow> byte list \<Rightarrow> int list \<times> uint" where
  "kbd_run shift [] = ([], snd (kbdgetc shift None))"
| "kbd_run shift (b # bs) = (let (c, shift) = kbdgetc shift (Some b); (cs, shift) = kbd_run shift bs in (c # cs, shift))"

text \<open>\<open>procdump\<close>: the contexts of sleeping processes give the call stacks to print.\<close>

fun dump_pcs :: "uint list \<Rightarrow> ('z cons_state_scheme, unit) kop" where
  "dump_pcs [] = kret ()"
| "dump_pcs (pc # ps) = (if pc = 0 then kret ()
     else kseq (cprintf_args '' %p'' [] [pc]) (dump_pcs ps))"

definition state_name :: "procstate \<Rightarrow> string" where
  "state_name st = (case st of UNUSED \<Rightarrow> ''unused'' | EMBRYO \<Rightarrow> ''embryo'' | SLEEPING \<Rightarrow> ''sleep ''
     | RUNNABLE \<Rightarrow> ''runble'' | RUNNING \<Rightarrow> ''run   '' | ZOMBIE \<Rightarrow> ''zombie'')"

definition dump_proc :: "mem \<Rightarrow> proc \<Rightarrow> ('z cons_state_scheme, unit) kop" where
  "dump_proc m p = (if p_state p = UNUSED then kret ()
     else kseq (cprintf (\<lambda>a. if a = 1 then state_name (p_state p) else cstr (p_name p))
         (\<lambda>k. [word_of_int (p_pid p), 1, 2] ! k) ''%d %s %s'')
       (kseq (if p_state p = SLEEPING then dump_pcs (getcallerpcs m (c_ebp (p_context p) + 8)) else kret ())
       (cprintf_args ''\<newline>'' [] [])))"

definition procdump :: "mem \<Rightarrow> ('z cons_state_scheme, unit) kop" where
  "procdump m = kbind (kget (\<lambda>s. length (ptable s))) (\<lambda>n.
     kfor [0..<n] (\<lambda>i. kbind (kget (\<lambda>s. ptable s ! i)) (dump_proc m)))"

definition console_interrupt :: "mem \<Rightarrow> int list \<Rightarrow> ('z cons_state_scheme, unit) kop" where
  "console_interrupt m cs = kbind (consoleintr cs) (\<lambda>doprocdump. if doprocdump then procdump m else kret ())"

text \<open>\<open>kbdintr\<close> and \<open>uartintr\<close>, with the bytes the device has ready.\<close>

definition kbdintr :: "mem \<Rightarrow> byte list \<Rightarrow> ('z kbd_state_scheme, unit) kop" where
  "kbdintr m datas = kbind (kget (\<lambda>s. kbd_run (kbd_shift s) datas)) (\<lambda>(cs, shift).
     kseq (kmod (\<lambda>s. s\<lparr>kbd_shift := shift\<rparr>)) (console_interrupt m cs))"

definition uartintr :: "mem \<Rightarrow> byte list \<Rightarrow> ('z cons_state_scheme, unit) kop" where
  "uartintr m datas = kbind (kget uart) (\<lambda>present. console_interrupt m (if present then map uint datas else []))"

text \<open>The \<open>switch\<close> of \<open>trap\<close>; acknowledging the interrupt at the local APIC is left out.\<close>

definition trap_spurious :: "machine \<Rightarrow> trapframe \<Rightarrow> ('z cons_state_scheme, unit) kop" where
  "trap_spurious mc tf = cprintf_args ''cpu%d: spurious interrupt at %x:%x\<newline>'' []
     [mc_cpu mc, ucast (tf_cs tf), tf_eip tf]"

definition trap_default :: "machine \<Rightarrow> trapframe \<Rightarrow> ('z cons_state_scheme, unit) kop" where
  "trap_default mc tf = kbind (kget (\<lambda>s. curproc s = None \<or> tf_cs tf AND 3 = 0)) (\<lambda>kernel.
     if kernel
     then kseq (cprintf_args ''unexpected trap %d from cpu %d eip %x (cr2=0x%x)\<newline>'' []
           [tf_trapno tf, mc_cpu mc, tf_eip tf, mc_cr2 mc])
         (kpanic ''trap'')
     else kbind (kget (\<lambda>s. ptable s ! cur s)) (\<lambda>p.
         kseq (cprintf_args ''pid %d %s: trap %d err %d on cpu %d eip 0x%x addr 0x%x--kill proc\<newline>''
           (cstr (p_name p)) [word_of_int (p_pid p), 1, tf_trapno tf, tf_err tf, mc_cpu mc, tf_eip tf, mc_cr2 mc])
         (kmod (\<lambda>s. upd_proc (cur s) (\<lambda>p. p\<lparr>p_killed := True\<rparr>) s))))"

definition trap_switch :: "machine \<Rightarrow> trapframe \<Rightarrow> ('z kbd_state_scheme, unit) kop" where
  "trap_switch mc tf =
     (if tf_trapno tf = T_IRQ0 + IRQ_TIMER then (if mc_cpu mc = 0 then timer_tick else kret ())
      else if tf_trapno tf = T_IRQ0 + IRQ_IDE then ideintr (mc_ide_ok mc)
      else if tf_trapno tf = T_IRQ0 + IRQ_IDE + 1 then kret ()
      else if tf_trapno tf = T_IRQ0 + IRQ_KBD then kbdintr (mc_mem mc) (mc_kbd mc)
      else if tf_trapno tf = T_IRQ0 + IRQ_COM1 then uartintr (mc_mem mc) (mc_uart mc)
      else if tf_trapno tf = T_IRQ0 + 7 \<or> tf_trapno tf = T_IRQ0 + IRQ_SPURIOUS then trap_spurious mc tf
      else trap_default mc tf)"

definition killed_user :: "trapframe \<Rightarrow> 'z kstate_scheme \<Rightarrow> bool" where
  "killed_user tf s \<longleftrightarrow> curproc s \<noteq> None \<and> p_killed (ptable s ! cur s) \<and> user_mode tf"

definition trap :: "machine \<Rightarrow> trapframe \<Rightarrow> ('z kbd_state_scheme, unit) kop" where
  "trap mc tf =
     (if tf_trapno tf = T_SYSCALL
      then kseq (exit_if (\<lambda>s. p_killed (ptable s ! cur s)))
        (kseq (kmod (\<lambda>s. upd_proc (cur s) (\<lambda>p. p\<lparr>p_tf := tf\<rparr>) s))
        (kseq (syscall mc)
        (exit_if (\<lambda>s. p_killed (ptable s ! cur s)))))
      else kseq (trap_switch mc tf)
        (kseq (exit_if (killed_user tf))
        (kseq (\<lambda>s. if curproc s \<noteq> None \<and> p_state (ptable s ! cur s) = RUNNING \<and>
                 tf_trapno tf = T_IRQ0 + IRQ_TIMER then yield s else Done () s)
        (exit_if (killed_user tf)))))"

text \<open>The rest of \<open>trap\<close> for a process that slept in a system call, \<open>f\<close> being what is left of
  the call, and for one that yielded at a clock tick.\<close>

definition trap_syscall_resume :: "('z file_state_scheme, uint) kop \<Rightarrow> ('z file_state_scheme, unit) kop" where
  "trap_syscall_resume f = kseq (kbind f set_eax) (exit_if (\<lambda>s. p_killed (ptable s ! cur s)))"

definition trap_resume :: "trapframe \<Rightarrow> ('z file_state_scheme, unit) kop" where
  "trap_resume tf = kseq yield_resume (exit_if (killed_user tf))"

section \<open>Interrupt gates\<close>

record gatedesc =
  g_istrap :: bool
  g_sel :: ushort
  g_off :: uint
  g_dpl :: ushort

definition SEG_KCODE :: ushort where "SEG_KCODE = 1"

definition tvinit :: "(nat \<Rightarrow> uint) \<Rightarrow> gatedesc list" where
  "tvinit vectors = (map (\<lambda>i. \<lparr>g_istrap = False, g_sel = SEG_KCODE * 8, g_off = vectors i, g_dpl = 0\<rparr>) [0..<256])
     [unat T_SYSCALL := \<lparr>g_istrap = True, g_sel = SEG_KCODE * 8, g_off = vectors (unat T_SYSCALL), g_dpl = 3\<rparr>]"

section \<open>Killed processes\<close>

lemma sched_not_Done: "sched s \<noteq> Done x t"
  by (auto simp: sched_def kDone_iffs)

lemma exit_not_Done: "exit s \<noteq> Done x t"
  by (auto simp: exit_def kDone_iffs sched_not_Done)

lemma exit_if_Done: "exit_if c s = Done x t \<Longrightarrow> t = s \<and> \<not> c s"
  by (auto simp: exit_if_def exit_not_Done split: if_splits)

text \<open>C15: A killed process does not get back to user space. Whatever trap brought it into the
  kernel, a system call or an interrupt or fault in user mode, and whether the handler ran
  through or the process yielded or slept on the way, when the handler returns the current
  process is not marked killed.\<close>

theorem killed_never_returns:
  assumes "tf_trapno tf = T_SYSCALL \<and> (trap mc tf s = Done () t \<or> trap_syscall_resume f s = Done () t) \<or>
    user_mode tf \<and> (trap mc tf s = Done () t \<or> trap_resume tf s = Done () t)"
    and "curproc t = Some i"
  shows "\<not> p_killed (ptable t ! i)"
  using assms by (auto simp: trap_def trap_resume_def trap_syscall_resume_def kDone_iffs killed_user_def cur_def
      dest!: exit_if_Done split: if_splits)

definition boot_kbd_state :: kbd_state where
  "boot_kbd_state = cons_state.extend boot_cons_state \<lparr>kbd_shift = 0\<rparr>"

lemma boot_kbd_fields:
  "curproc boot_kbd_state = Some 0" "cur boot_kbd_state = 0" "ptable boot_kbd_state = replicate NPROC zero_proc" "held boot_kbd_state = {}"
  by (simp_all add: boot_kbd_state_def cons_state.defs boot_cons_state_def proc_state.defs file_state.defs boot_file_state_def
      boot_disk_state_def bare_kstate_def fs_state.defs log_state.defs disk_state.defs kmem_state.defs cur_def)

definition idle_machine :: machine where
  "idle_machine = \<lparr>mc_link = \<lparr>ln_data = 0, ln_forkret = 0, ln_trapret = 0\<rparr>, mc_cpu = 0, mc_mem = (\<lambda>_. 0), mc_cr2 = 0,
     mc_date = [], mc_ide_ok = True, mc_kbd = [], mc_uart = []\<rparr>"

theorem killed_never_returns_witness:
  "\<exists>t. trap idle_machine (zero_tf\<lparr>tf_trapno := 47, tf_cs := 0x23\<rparr>) boot_kbd_state = Done () t \<and> \<not> p_killed (ptable t ! 0)"
proof -
  let ?tf = "zero_tf\<lparr>tf_trapno := 47, tf_cs := 0x23\<rparr>"
  have "\<not> killed_user ?tf boot_kbd_state"
    by (simp add: killed_user_def boot_kbd_fields zero_proc_def NPROC_def)
  then have e: "exit_if (killed_user ?tf) boot_kbd_state = Done () boot_kbd_state" by (simp add: exit_if_def)
  have "trap_switch idle_machine ?tf boot_kbd_state = Done () boot_kbd_state"
    by (simp add: trap_switch_def T_IRQ0_def IRQ_TIMER_def IRQ_IDE_def)
  then have t: "trap idle_machine ?tf boot_kbd_state = Done () boot_kbd_state"
    unfolding trap_def by (simp add: T_SYSCALL_def T_IRQ0_def IRQ_TIMER_def e)
  have "user_mode ?tf" by (simp add: user_mode_def DPL_USER_def)
  with t boot_kbd_fields(1) killed_never_returns [of ?tf idle_machine boot_kbd_state boot_kbd_state] show ?thesis by blast
qed

section \<open>Sleeping for a number of ticks\<close>

text \<open>
  A process in \<open>sys_sleep\<close> while the clock ticks: \<open>m\<close> ticks pass, then the scheduler runs the
  process. If it goes back to sleep the scheduler takes over again and the next number of
  ticks follows. The result is the outcome of the call when it returns.
\<close>

fun sleeper :: "nat \<Rightarrow> uint \<Rightarrow> uint \<Rightarrow> nat list \<Rightarrow> 'z kmem_state_scheme \<Rightarrow> ('z kmem_state_scheme, uint) outcome option" where
  "sleeper i ticks0 n [] s = None"
| "sleeper i ticks0 n (m # ms) s =
     (case kseq (kfor [0..<m] (\<lambda>_. timer_tick)) (kseq (lk_acquire LkPtable) (kseq (run_proc i) (sys_sleep_resume ticks0 n))) s of
        Swtch t \<Rightarrow> (case scheduler_resume t of Done _ u \<Rightarrow> sleeper i ticks0 n ms u | _ \<Rightarrow> None)
      | r \<Rightarrow> Some r)"

text \<open>The process sleeps in the call, and the CPU is in the scheduler.\<close>

definition sleeping :: "nat \<Rightarrow> 'z kstate_scheme \<Rightarrow> bool" where
  "sleeping i s \<longleftrightarrow> held s = {} \<and> i < length (ptable s) \<and> p_state (ptable s ! i) = SLEEPING \<and>
     p_chan (ptable s ! i) = Some ChTicks \<and> \<not> p_killed (ptable s ! i) \<and> p_pgdir (ptable s ! i) \<noteq> 0"

lemma timer_tick_exec:
  assumes "held s = {}"
  shows "timer_tick s = Done () (s\<lparr>ticks := ticks s + 1, ptable := map (wake_proc ChTicks) (ptable s)\<rparr>)"
  using assms by (simp add: timer_tick_def)

lemma wake_proc_idem: "map (wake_proc c) (map (wake_proc c) ps) = map (wake_proc c) ps"
  by (auto simp: wake_proc_def)

lemma timer_ticks_exec:
  assumes "held s = {}"
  shows "kfor (j # js) (\<lambda>_. timer_tick) s =
    Done () (s\<lparr>ticks := ticks s + of_nat (length (j # js)), ptable := map (wake_proc ChTicks) (ptable s)\<rparr>)"
  using assms
proof (induction js arbitrary: j s)
  case Nil
  then show ?case by (simp add: timer_tick_exec)
next
  case (Cons k js)
  let ?s = "s\<lparr>ticks := ticks s + 1, ptable := map (wake_proc ChTicks) (ptable s)\<rparr>"
  have "kfor (j # k # js) (\<lambda>_. timer_tick) s = kfor (k # js) (\<lambda>_. timer_tick) ?s"
    using timer_tick_exec [OF Cons.prems] by (simp del: kfor.simps(2) add: kfor.simps(2) [of j])
  with Cons.IH [of ?s k] Cons.prems wake_proc_idem [of ChTicks "ptable s"] show ?case
    by (simp del: kfor.simps map_map add: algebra_simps)
qed

text \<open>The process running again after \<open>m\<close> ticks, and the call's test of the clock.\<close>

lemma sleeper_wakes:
  assumes "sleeping i s" and "0 < m"
  shows "\<exists>d. kseq (kfor [0..<m] (\<lambda>_. timer_tick)) (kseq (lk_acquire LkPtable) (kseq (run_proc i) (sys_sleep_resume ticks0 n))) s =
      sys_sleep_loop ticks0 n d \<and> held d = {LkTicks} \<and> curproc d = Some i \<and> ticks d = ticks s + of_nat m \<and>
      i < length (ptable d) \<and> \<not> p_killed (ptable d ! i) \<and> p_pgdir (ptable d ! i) \<noteq> 0"
proof -
  from assms(2) obtain j js where js: "[0..<m] = j # js" by (cases "[0..<m]") simp_all
  then have l: "length (j # js) = m" by (metis length_upt minus_nat.diff_0)
  have s: "held s = {}" "i < length (ptable s)" "\<not> p_killed (ptable s ! i)" "p_pgdir (ptable s ! i) \<noteq> 0"
    using assms(1) by (simp_all add: sleeping_def)
  define b where "b = s\<lparr>ticks := ticks s + of_nat m, ptable := map (wake_proc ChTicks) (ptable s), held := {LkPtable}\<rparr>"
  have w: "p_killed (wake_proc ChTicks q) = p_killed q" "p_pgdir (wake_proc ChTicks q) = p_pgdir q" for q
    by (simp_all add: wake_proc_def)
  have ab: "kseq (kfor [0..<m] (\<lambda>_. timer_tick)) (kseq (lk_acquire LkPtable) k) s = k b" for k :: "('a kmem_state_scheme, uint) kop"
    using timer_ticks_exec [OF s(1), of j js] s(1) unfolding js l by (simp add: b_def)
  have pb: "p_pgdir (ptable b ! i) \<noteq> 0" using s w by (simp add: b_def)
  define c where "c = b\<lparr>ptable := (ptable b)[i := (ptable b ! i)\<lparr>p_state := RUNNING\<rparr>], curproc := Some i,
    cr3 := v2p (p_pgdir (ptable b ! i)), ts_esp0 := p_kstack (ptable b ! i) + KSTACKSIZE\<rparr>"
  have bc: "run_proc i b = Done () c" unfolding c_def by (rule run_proc_exec [OF pb])
  define d where "d = (upd_proc i (\<lambda>p. p\<lparr>p_chan := None\<rparr>) c)\<lparr>held := {LkTicks}\<rparr>"
  have hc: "held c = {LkPtable}" "cur c = i" "curproc c = Some i" by (simp_all add: c_def b_def cur_def)
  have cd: "sleep_resume LkTicks c = Done () d" using sleep_resume_exec [OF hc(1), of LkTicks] by (simp add: d_def hc(2))
  have "kseq (run_proc i) (sys_sleep_resume ticks0 n) b = sys_sleep_loop ticks0 n d"
    by (simp only: kseq_exec(1) bc sys_sleep_resume_def cd)
  moreover have "held d = {LkTicks}" "curproc d = Some i" "ticks d = ticks s + of_nat m" "i < length (ptable d)"
      "\<not> p_killed (ptable d ! i)" "p_pgdir (ptable d ! i) \<noteq> 0"
    using s w hc by (simp_all add: d_def c_def b_def upd_proc_def)
  ultimately show ?thesis unfolding ab by blast
qed

lemma sleep_loop_early:
  assumes "held d = {LkTicks}" and "curproc d = Some i" and "i < length (ptable d)" and "\<not> p_killed (ptable d ! i)"
    and "p_pgdir (ptable d ! i) \<noteq> 0" and "ticks d - ticks0 < n"
  shows "\<exists>u v. sys_sleep_loop ticks0 n d = Swtch u \<and> scheduler_resume u = Done () v \<and> ticks v = ticks d \<and> sleeping i v"
proof -
  let ?u = "upd_proc i (\<lambda>p. p\<lparr>p_chan := Some ChTicks, p_state := SLEEPING\<rparr>) (d\<lparr>held := {LkPtable}\<rparr>)"
  let ?v = "?u\<lparr>cr3 := v2p (kpgdir ?u), curproc := None, held := {}\<rparr>"
  have c: "cur d = i" using assms(2) by (simp add: cur_def)
  have "sys_sleep_loop ticks0 n d = Swtch ?u"
    using assms sleep_exec [OF assms(2,3,1), of ChTicks] unfolding sys_sleep_loop_def kapply c by simp
  moreover have "scheduler_resume ?u = Done () ?v" by (simp add: scheduler_resume_def switchkvm_def)
  moreover have "ticks ?v = ticks d" by (simp add: upd_proc_def)
  moreover have "sleeping i ?v" using assms by (simp add: sleeping_def upd_proc_def)
  ultimately show ?thesis by blast
qed

lemma sleep_loop_late:
  assumes "held d = {LkTicks}" and "\<not> ticks d - ticks0 < n"
  shows "sys_sleep_loop ticks0 n d = Done 0 (d\<lparr>held := {}\<rparr>)"
  using assms by (simp add: sys_sleep_loop_def kapply)


definition sleeping_state :: kmem_state where
  "sleeping_state = bare_kstate\<lparr>ptable := [zero_proc\<lparr>p_state := SLEEPING, p_chan := Some ChTicks, p_pgdir := 0x80100000\<rparr>],
     ticks := 0xFFFFFFFE\<rparr>"


section \<open>The keyboard decoder\<close>

lemma key_tables: "list_all (\<lambda>k. k < 256) normal_keys" "list_all (\<lambda>k. k < 256) shift_keys" "list_all (\<lambda>k. k < 256) ctl_keys"
  "list_all (\<lambda>(_, k). k < 256) special_keys"
  by code_simp+

lemma key_map_byte:
  assumes "list_all (\<lambda>k. k < 256) keys" and "a < 256" and "b < 256"
  shows "key_map keys a b k < 256"
proof -
  have "c < 256" if "map_of special_keys k = Some c" for c
    using key_tables(4) map_of_SomeD [OF that] by (auto simp: list_all_iff)
  with assms show ?thesis by (auto simp: key_map_def list_all_length split: option.split)
qed

lemma charcode_byte: "unat (charcode m data) < 256"
proof -
  have "key_map normal_keys 10 47 k < 256" "key_map shift_keys 10 47 k < 256" "key_map ctl_keys 13 239 k < 256" for k
    by (simp_all add: key_map_byte key_tables)
  moreover have "unat (of_nat k :: uint) = k" if "k < 256" for k
    using that by (simp add: unat_of_nat take_bit_nat_eq_self)
  ultimately show ?thesis by (simp add: charcode_def)
qed

definition caps :: "uint \<Rightarrow> uint" where
  "caps c = (if 97 \<le> c \<and> c \<le> 122 then c - 32 else if 65 \<le> c \<and> c \<le> 90 then c + 32 else c)"

lemma caps_byte:
  assumes "unat c < 256"
  shows "unat (caps c) < 256"
proof -
  have "unat (c - 32) < 256" if "97 \<le> c"
    using that assms by (simp add: word_le_nat_alt unat_sub)
  moreover have "unat (c + 32) < 256" if "c \<le> 90"
    using that by (simp add: word_le_nat_alt unat_add_acc)
  ultimately show ?thesis using assms by (simp add: caps_def)
qed

lemma sint_byte: "unat c < 256 \<Longrightarrow> 0 \<le> sint c \<and> sint c < 256" for c :: uint
proof -
  assume "unat c < 256"
  moreover from this have "sint c = int (unat c)" by (intro sint_nonneg) simp
  ultimately show ?thesis by linarith
qed

text \<open>Only the seven modifier bits are ever set.\<close>

definition mods_ok :: "uint \<Rightarrow> bool" where
  "mods_ok m \<longleftrightarrow> take_bit 7 m = m"

lemma mods_codes: "mods_ok (shiftcode d)" "mods_ok (togglecode d)" "mods_ok KBD_E0ESC"
  by (simp_all add: mods_ok_def shiftcode_def togglecode_def KBD_E0ESC_def)

lemma mods_ops:
  assumes "mods_ok a"
  shows "mods_ok b \<Longrightarrow> mods_ok (a OR b)" and "mods_ok b \<Longrightarrow> mods_ok (a XOR b)" and "mods_ok (a AND c)"
proof -
  show "mods_ok b \<Longrightarrow> mods_ok (a OR b)" "mods_ok b \<Longrightarrow> mods_ok (a XOR b)" using assms by (simp_all add: mods_ok_def)
  have "take_bit 7 (a AND c) = take_bit 7 (take_bit 7 a AND c)" by (simp add: ac_simps)
  also have "\<dots> = take_bit 7 a AND c" by (rule bit_eqI) (auto simp: bit_take_bit_iff bit_and_iff)
  finally show "mods_ok (a AND c)" using assms by (simp add: mods_ok_def)
qed

lemma kbdgetc_ok:
  assumes "mods_ok shift"
  shows "0 \<le> fst (kbdgetc shift (Some b)) \<and> fst (kbdgetc shift (Some b)) < 256 \<and> mods_ok (snd (kbdgetc shift (Some b)))"
proof -
  define d0 :: uint where "d0 = ucast b"
  consider "d0 = 0xE0" | "d0 \<noteq> 0xE0" "d0 AND 0x80 \<noteq> 0" | "d0 \<noteq> 0xE0" "d0 AND 0x80 = 0" by blast
  then show ?thesis
  proof cases
    case 1
    then show ?thesis using assms mods_codes mods_ops(1) by (simp add: kbdgetc_def d0_def [symmetric])
  next
    case 2
    then show ?thesis using assms mods_ops(3) by (simp add: kbdgetc_def d0_def [symmetric] Let_def)
  next
    case 3
    define d where "d = (if shift AND KBD_E0ESC \<noteq> 0 then d0 OR 0x80 else d0)"
    define m where "m = ((if shift AND KBD_E0ESC \<noteq> 0 then shift AND NOT KBD_E0ESC else shift) OR shiftcode d) XOR togglecode d"
    define c where "c = charcode (m AND (KBD_CTL OR KBD_SHIFT)) d"
    have k: "kbdgetc shift (Some b) = (sint (if m AND KBD_CAPSLOCK \<noteq> 0 then caps c else c), m)"
      using 3 by (simp add: kbdgetc_def d0_def [symmetric] Let_def caps_def m_def d_def c_def)
    have "unat c < 256" by (simp add: c_def charcode_byte)
    moreover have "mods_ok m" unfolding m_def using assms by (simp add: mods_ops mods_codes)
    ultimately show ?thesis using sint_byte caps_byte by (simp add: k)
  qed
qed



end
