(* ===== verification/Intr.thy ===== *)
theory Intr
  imports Trap
begin

text \<open>
  The interrupt controllers and the clock (\<^verbatim>\<open>src/picirq.c\<close>, \<^verbatim>\<open>src/ioapic.c\<close>, \<^verbatim>\<open>src/lapic.c\<close>, \<^verbatim>\<open>src/timer.c\<close>,
  \<open>uartinit\<close> of \<^verbatim>\<open>src/uart.c\<close>) and the tables that describe the processors (\<^verbatim>\<open>src/mp.c\<close>). The hardware is
  known by its accesses: the code produces a history of them, and what a register answers is a
  function of that history, the argument \<open>dv\<close>. A wait for a device that need not end is a
  \<open>partial_function\<close>.
\<close>

section \<open>Accesses to devices\<close>

datatype io = Outb ushort byte | Inb ushort byte | Store uint uint | Load uint uint

datatype place = Port ushort | Mem uint

type_synonym dev = "io list \<Rightarrow> place \<Rightarrow> uint"

definition outb :: "ushort \<Rightarrow> byte \<Rightarrow> io list \<Rightarrow> io list" where
  "outb p v h = h @ [Outb p v]"

definition inb :: "dev \<Rightarrow> ushort \<Rightarrow> io list \<Rightarrow> byte \<times> io list" where
  "inb dv p h = (let v = ucast (dv h (Port p)) in (v, h @ [Inb p v]))"

definition mstore :: "uint \<Rightarrow> uint \<Rightarrow> io list \<Rightarrow> io list" where
  "mstore a v h = h @ [Store a v]"

definition mload :: "dev \<Rightarrow> uint \<Rightarrow> io list \<Rightarrow> uint \<times> io list" where
  "mload dv a h = (let v = dv h (Mem a) in (v, h @ [Load a v]))"

text \<open>The variables of these files, and the history.\<close>

record hw =
  irqmask :: ushort
  ismp :: bool
  ncpu :: nat
  bcpu :: nat
  cpu_ids :: "byte list"
  ioapicid :: byte
  lapic :: uint
  io :: "io list"

definition NCPU :: nat where "NCPU = 8"

section \<open>The 8259A interrupt controllers\<close>

definition IO_PIC1 :: ushort where "IO_PIC1 = 0x20"
definition IO_PIC2 :: ushort where "IO_PIC2 = 0xA0"
definition IRQ_SLAVE :: nat where "IRQ_SLAVE = 2"

definition irqmask0 :: ushort where
  "irqmask0 = 0xFFFF AND NOT (push_bit IRQ_SLAVE 1)"

definition picsetmask :: "ushort \<Rightarrow> hw \<Rightarrow> hw" where
  "picsetmask m s = s\<lparr>irqmask := m,
     io := outb (IO_PIC2 + 1) (ucast (drop_bit 8 m)) (outb (IO_PIC1 + 1) (ucast m) (io s))\<rparr>"

definition picenable :: "nat \<Rightarrow> hw \<Rightarrow> hw" where
  "picenable irq s = picsetmask (irqmask s AND NOT (push_bit irq 1)) s"

definition picinit :: "hw \<Rightarrow> hw" where
  "picinit s =
     (let s = s\<lparr>io := io s @ [
        Outb (IO_PIC1 + 1) 0xFF, Outb (IO_PIC2 + 1) 0xFF,
        Outb IO_PIC1 0x11, Outb (IO_PIC1 + 1) (ucast T_IRQ0), Outb (IO_PIC1 + 1) (push_bit IRQ_SLAVE 1), Outb (IO_PIC1 + 1) 0x3,
        Outb IO_PIC2 0x11, Outb (IO_PIC2 + 1) (ucast (T_IRQ0 + 8)), Outb (IO_PIC2 + 1) (of_nat IRQ_SLAVE), Outb (IO_PIC2 + 1) 0x3,
        Outb IO_PIC1 0x68, Outb IO_PIC1 0x0A,
        Outb IO_PIC2 0x68, Outb IO_PIC2 0x0A]\<rparr>
      in if irqmask s \<noteq> 0xFFFF then picsetmask (irqmask s) s else s)"

definition TIMER_DIV :: "nat \<Rightarrow> nat" where
  "TIMER_DIV x = (1193182 + x div 2) div x"

definition IO_TIMER1 :: ushort where "IO_TIMER1 = 0x40"

definition timerinit :: "hw \<Rightarrow> hw" where
  "timerinit s = picenable (unat IRQ_TIMER) (s\<lparr>io := io s @ [
     Outb (IO_TIMER1 + 3) (0x00 OR 0x04 OR 0x30),
     Outb IO_TIMER1 (of_nat (TIMER_DIV 100 mod 256)),
     Outb IO_TIMER1 (of_nat (TIMER_DIV 100 div 256))]\<rparr>)"

section \<open>The I/O APIC\<close>

definition IOAPIC :: uint where "IOAPIC = 0xFEC00000"
definition REG_ID :: uint where "REG_ID = 0"
definition REG_VER :: uint where "REG_VER = 1"
definition REG_TABLE :: uint where "REG_TABLE = 0x10"
definition INT_DISABLED :: uint where "INT_DISABLED = 0x00010000"

text \<open>\<open>reg\<close> is at the start of the structure, \<open>data\<close> 16 bytes on.\<close>

definition ioapicread :: "dev \<Rightarrow> uint \<Rightarrow> io list \<Rightarrow> uint \<times> io list" where
  "ioapicread dv reg h = mload dv (IOAPIC + 16) (mstore IOAPIC reg h)"

definition ioapicwrite :: "uint \<Rightarrow> uint \<Rightarrow> io list \<Rightarrow> io list" where
  "ioapicwrite reg v h = mstore (IOAPIC + 16) v (mstore IOAPIC reg h)"

text \<open>\<open>ioapicinit\<close>; the message when the identifiers differ is left out.\<close>

definition ioapicinit :: "dev \<Rightarrow> hw \<Rightarrow> hw" where
  "ioapicinit dv s = (if \<not> ismp s then s else
     let (v, h) = ioapicread dv REG_VER (io s);
         maxintr = unat (drop_bit 16 v AND 0xFF);
         (w, h) = ioapicread dv REG_ID h
     in s\<lparr>io := fold (\<lambda>i h. ioapicwrite (REG_TABLE + 2 * of_nat i + 1) 0
          (ioapicwrite (REG_TABLE + 2 * of_nat i) (INT_DISABLED OR (T_IRQ0 + of_nat i)) h)) [0..<Suc maxintr] h\<rparr>)"

definition ioapicenable :: "nat \<Rightarrow> nat \<Rightarrow> hw \<Rightarrow> hw" where
  "ioapicenable irq cpunum s = (if \<not> ismp s then s else
     s\<lparr>io := ioapicwrite (REG_TABLE + 2 * of_nat irq + 1) (push_bit 24 (of_nat cpunum))
       (ioapicwrite (REG_TABLE + 2 * of_nat irq) (T_IRQ0 + of_nat irq) (io s))\<rparr>)"

section \<open>The local APIC\<close>

definition LAPIC_ID :: uint where "LAPIC_ID = 0x0020 div 4"
definition LAPIC_VER :: uint where "LAPIC_VER = 0x0030 div 4"
definition TPR :: uint where "TPR = 0x0080 div 4"
definition EOI :: uint where "EOI = 0x00B0 div 4"
definition SVR :: uint where "SVR = 0x00F0 div 4"
definition LAPIC_ENABLE :: uint where "LAPIC_ENABLE = 0x00000100"
definition ESR :: uint where "ESR = 0x0280 div 4"
definition ICRLO :: uint where "ICRLO = 0x0300 div 4"
definition LAPIC_INIT :: uint where "LAPIC_INIT = 0x00000500"
definition STARTUP :: uint where "STARTUP = 0x00000600"
definition DELIVS :: uint where "DELIVS = 0x00001000"
definition ASSERT :: uint where "ASSERT = 0x00004000"
definition LEVEL :: uint where "LEVEL = 0x00008000"
definition BCAST :: uint where "BCAST = 0x00080000"
definition ICRHI :: uint where "ICRHI = 0x0310 div 4"
definition TIMER :: uint where "TIMER = 0x0320 div 4"
definition LAPIC_X1 :: uint where "LAPIC_X1 = 0x0000000B"
definition PERIODIC :: uint where "PERIODIC = 0x00020000"
definition PCINT :: uint where "PCINT = 0x0340 div 4"
definition LINT0 :: uint where "LINT0 = 0x0350 div 4"
definition LINT1 :: uint where "LINT1 = 0x0360 div 4"
definition LAPIC_ERROR :: uint where "LAPIC_ERROR = 0x0370 div 4"
definition MASKED :: uint where "MASKED = 0x00010000"
definition TICR :: uint where "TICR = 0x0380 div 4"
definition TDCR :: uint where "TDCR = 0x03E0 div 4"
definition IRQ_ERROR :: uint where "IRQ_ERROR = 19"

text \<open>\<open>lapic\<close> points to 32-bit registers; a write is followed by a read that waits for it.\<close>

definition lapicr :: "dev \<Rightarrow> uint \<Rightarrow> hw \<Rightarrow> uint \<times> hw" where
  "lapicr dv index s = (let (v, h) = mload dv (lapic s + 4 * index) (io s) in (v, s\<lparr>io := h\<rparr>))"

definition lapicw :: "dev \<Rightarrow> uint \<Rightarrow> uint \<Rightarrow> hw \<Rightarrow> hw" where
  "lapicw dv index v s = snd (lapicr dv LAPIC_ID (s\<lparr>io := mstore (lapic s + 4 * index) v (io s)\<rparr>))"

partial_function (option) wait_delivery :: "dev \<Rightarrow> hw \<Rightarrow> hw option" where
  "wait_delivery dv s = (let (v, s) = lapicr dv ICRLO s in if v AND DELIVS \<noteq> 0 then wait_delivery dv s else Some s)"

definition lapicinit :: "dev \<Rightarrow> hw \<Rightarrow> hw option" where
  "lapicinit dv s = (if lapic s = 0 then Some s else
     let s = lapicw dv SVR (LAPIC_ENABLE OR (T_IRQ0 + IRQ_SPURIOUS)) s;
         s = lapicw dv TDCR LAPIC_X1 s;
         s = lapicw dv TIMER (PERIODIC OR (T_IRQ0 + IRQ_TIMER)) s;
         s = lapicw dv TICR 10000000 s;
         s = lapicw dv LINT0 MASKED s;
         s = lapicw dv LINT1 MASKED s;
         (v, s) = lapicr dv LAPIC_VER s;
         s = (if 4 \<le> drop_bit 16 v AND 0xFF then lapicw dv PCINT MASKED s else s);
         s = lapicw dv LAPIC_ERROR (T_IRQ0 + IRQ_ERROR) s;
         s = lapicw dv ESR 0 s;
         s = lapicw dv ESR 0 s;
         s = lapicw dv EOI 0 s;
         s = lapicw dv ICRHI 0 s;
         s = lapicw dv ICRLO (BCAST OR LAPIC_INIT OR LEVEL) s
     in map_option (lapicw dv TPR 0) (wait_delivery dv s))"

text \<open>\<open>cpunum\<close>; its warning about enabled interrupts is left out.\<close>

definition cpunum :: "dev \<Rightarrow> hw \<Rightarrow> uint \<times> hw" where
  "cpunum dv s = (if lapic s \<noteq> 0 then let (v, s) = lapicr dv LAPIC_ID s in (drop_bit 24 v, s) else (0, s))"

definition lapiceoi :: "dev \<Rightarrow> hw \<Rightarrow> hw" where
  "lapiceoi dv s = (if lapic s \<noteq> 0 then lapicw dv EOI 0 s else s)"

definition CMOS_PORT :: ushort where "CMOS_PORT = 0x70"

text \<open>The warm reset vector is two 16-bit words in memory; they are stored as one access each.\<close>

definition lapicstartap :: "dev \<Rightarrow> byte \<Rightarrow> uint \<Rightarrow> hw \<Rightarrow> hw" where
  "lapicstartap dv apicid addr s =
     (let wrv = p2v (push_bit 4 0x40 OR 0x67);
          s = s\<lparr>io := io s @ [Outb CMOS_PORT 0xF, Outb (CMOS_PORT + 1) 0x0A, Store wrv 0, Store (wrv + 2) (ucast (ucast (drop_bit 4 addr) :: ushort))]\<rparr>;
          s = lapicw dv ICRHI (push_bit 24 (ucast apicid)) s;
          s = lapicw dv ICRLO (LAPIC_INIT OR LEVEL OR ASSERT) s;
          s = lapicw dv ICRLO (LAPIC_INIT OR LEVEL) s
      in ((\<lambda>s. lapicw dv ICRLO (STARTUP OR drop_bit 12 addr) (lapicw dv ICRHI (push_bit 24 (ucast apicid)) s)) ^^ 2) s)"

section \<open>The clock\<close>

definition CMOS_RETURN :: ushort where "CMOS_RETURN = 0x71"
definition CMOS_STATA :: byte where "CMOS_STATA = 0x0A"
definition CMOS_STATB :: byte where "CMOS_STATB = 0x0B"
definition CMOS_UIP :: uint where "CMOS_UIP = push_bit 7 1"

record rtcdate =
  second :: uint
  minute :: uint
  hour :: uint
  day :: uint
  month :: uint
  year :: uint

definition cmos_read :: "dev \<Rightarrow> byte \<Rightarrow> io list \<Rightarrow> uint \<times> io list" where
  "cmos_read dv reg h = (let (v, h) = inb dv CMOS_RETURN (outb CMOS_PORT reg h) in (ucast v, h))"

definition fill_rtcdate :: "dev \<Rightarrow> io list \<Rightarrow> rtcdate \<times> io list" where
  "fill_rtcdate dv h =
     (let (s, h) = cmos_read dv 0x00 h; (m, h) = cmos_read dv 0x02 h; (u, h) = cmos_read dv 0x04 h;
          (d, h) = cmos_read dv 0x07 h; (n, h) = cmos_read dv 0x08 h; (y, h) = cmos_read dv 0x09 h
      in (\<lparr>second = s, minute = m, hour = u, day = d, month = n, year = y\<rparr>, h))"

text \<open>The loop of \<open>cmostime\<close>: until two readings with no update in progress between them agree.\<close>

partial_function (option) stable_date :: "dev \<Rightarrow> io list \<Rightarrow> (rtcdate \<times> io list) option" where
  "stable_date dv h =
     (let (t1, h) = fill_rtcdate dv h; (a, h) = cmos_read dv CMOS_STATA h
      in if a AND CMOS_UIP \<noteq> 0 then stable_date dv h
         else let (t2, h) = fill_rtcdate dv h
              in if t1 = t2 then Some (t1, h) else stable_date dv h)"

definition CONV :: "uint \<Rightarrow> uint" where
  "CONV x = drop_bit 4 x * 10 + (x AND 0xF)"

definition cmostime :: "dev \<Rightarrow> io list \<Rightarrow> (rtcdate \<times> io list) option" where
  "cmostime dv h =
     (let (sb, h) = cmos_read dv CMOS_STATB h; bcd = (sb AND push_bit 2 1 = 0)
      in map_option (\<lambda>(t, h).
           let t = (if bcd then \<lparr>second = CONV (second t), minute = CONV (minute t), hour = CONV (hour t),
                 day = CONV (day t), month = CONV (month t), year = CONV (year t)\<rparr> else t)
           in (t\<lparr>year := year t + 2000\<rparr>, h)) (stable_date dv h))"

definition unixtime :: "dev \<Rightarrow> io list \<Rightarrow> (uint \<times> io list) option" where
  "unixtime dv h = map_option (\<lambda>(t, h).
     ((year t - 1970) * 365 * 24 * 60 * 60 + month t * 30 * 24 * 60 * 60 + day t * 24 * 60 * 60 +
      hour t * 60 * 60 + minute t * 60 + second t, h)) (cmostime dv h)"

section \<open>The serial port\<close>

definition COM1 :: ushort where "COM1 = 0x3F8"

text \<open>\<open>uartinit\<close> up to its greeting, with whether there is a serial port.\<close>

definition uartinit :: "dev \<Rightarrow> hw \<Rightarrow> bool \<times> hw" where
  "uartinit dv s =
     (let h = io s @ [Outb (COM1 + 2) 0, Outb (COM1 + 3) 0x80, Outb (COM1 + 0) (115200 div 9600), Outb (COM1 + 1) 0,
            Outb (COM1 + 3) 0x03, Outb (COM1 + 4) 0, Outb (COM1 + 1) 0x01];
          (v, h) = inb dv (COM1 + 5) h
      in if v = 0xFF then (False, s\<lparr>io := h\<rparr>)
         else let (_, h) = inb dv (COM1 + 2) h; (_, h) = inb dv (COM1 + 0) h
              in (True, ioapicenable (unat IRQ_COM1) 0 (picenable (unat IRQ_COM1) (s\<lparr>io := h\<rparr>))))"

section \<open>The processor tables\<close>

definition mpbcpu :: "hw \<Rightarrow> nat" where
  "mpbcpu s = bcpu s"

definition mbytes :: "mem \<Rightarrow> uint \<Rightarrow> nat \<Rightarrow> byte list" where
  "mbytes m a n = map (\<lambda>i. m (a + of_nat i)) [0..<n]"

definition mp_sum :: "mem \<Rightarrow> uint \<Rightarrow> nat \<Rightarrow> byte" where
  "mp_sum m a len = sum_list (mbytes m a len)"

definition load16 :: "mem \<Rightarrow> uint \<Rightarrow> ushort" where
  "load16 m a = ucast (m a) OR push_bit 8 (ucast (m (a + 1)))"

text \<open>\<open>"_MP_"\<close> and \<open>"PCMP"\<close>.\<close>

definition mp_sig :: "byte list" where "mp_sig = [0x5F, 0x4D, 0x50, 0x5F]"
definition mpconf_sig :: "byte list" where "mpconf_sig = [0x50, 0x43, 0x4D, 0x50]"

definition mpsearch1 :: "mem \<Rightarrow> uint \<Rightarrow> nat \<Rightarrow> uint option" where
  "mpsearch1 m a len = find (\<lambda>p. mbytes m p 4 = mp_sig \<and> mp_sum m p 16 = 0)
     (map (\<lambda>i. p2v a + 16 * of_nat i) [0..<(len + 15) div 16])"

definition mpsearch :: "mem \<Rightarrow> uint option" where
  "mpsearch m =
     (let bda = p2v 0x400;
          p = push_bit 4 (push_bit 8 (ucast (m (bda + 0x0F))) OR ucast (m (bda + 0x0E)));
          q = (push_bit 8 (ucast (m (bda + 0x14))) OR ucast (m (bda + 0x13))) * 1024
      in case (if p \<noteq> 0 then mpsearch1 m p 1024 else mpsearch1 m (q - 1024) 1024) of
           Some mp \<Rightarrow> Some mp
         | None \<Rightarrow> mpsearch1 m 0xF0000 0x10000)"

text \<open>The floating pointer and the configuration table it points to.\<close>

definition mpconfig :: "mem \<Rightarrow> (uint \<times> uint) option" where
  "mpconfig m = (case mpsearch m of
       None \<Rightarrow> None
     | Some mp \<Rightarrow>
         let physaddr = load32 m (mp + 4); conf = p2v physaddr; version = m (conf + 6) in
         if physaddr = 0 then None
         else if mbytes m conf 4 \<noteq> mpconf_sig then None
         else if version \<noteq> 1 \<and> version \<noteq> 4 then None
         else if mp_sum m conf (unat (load16 m (conf + 4))) \<noteq> 0 then None
         else Some (mp, conf))"

definition MPPROC :: byte where "MPPROC = 0"
definition MPBUS :: byte where "MPBUS = 1"
definition MPIOAPIC :: byte where "MPIOAPIC = 2"
definition MPIOINTR :: byte where "MPIOINTR = 3"
definition MPLINTR :: byte where "MPLINTR = 4"
definition MPBOOT :: byte where "MPBOOT = 2"

text \<open>
  The entry of a processor. \<open>cpus\<close> has \<open>NCPU\<close> elements; the store to an element beyond them, for which
  C gives no meaning, is the error \<open>None\<close>.
\<close>

definition mp_cpu :: "byte \<Rightarrow> byte \<Rightarrow> hw \<Rightarrow> hw option" where
  "mp_cpu apicid flags s =
     (let s = (if ncpu s \<noteq> unat apicid then s\<lparr>ismp := False\<rparr> else s);
          s = (if flags AND MPBOOT \<noteq> 0 then s\<lparr>bcpu := ncpu s\<rparr> else s)
      in if ncpu s < NCPU then Some (s\<lparr>cpu_ids := (cpu_ids s)[ncpu s := of_nat (ncpu s)], ncpu := ncpu s + 1\<rparr>) else None)"

text \<open>
  The loop over the entries: \<open>None\<close> if it does not end, \<open>Some None\<close> if it stores beyond \<open>cpus\<close>.
\<close>

partial_function (option) mp_entries :: "mem \<Rightarrow> uint \<Rightarrow> uint \<Rightarrow> hw \<Rightarrow> hw option option" where
  "mp_entries m p e s =
     (if p < e
      then if m p = MPPROC
           then case mp_cpu (m (p + 1)) (m (p + 3)) s of
                  None \<Rightarrow> Some None
                | Some t \<Rightarrow> mp_entries m (p + 20) e t
           else if m p = MPIOAPIC
           then mp_entries m (p + 8) e (s\<lparr>ioapicid := m (p + 1)\<rparr>)
           else if m p = MPBUS \<or> m p = MPIOINTR \<or> m p = MPLINTR
           then mp_entries m (p + 8) e s
           else mp_entries m p e (s\<lparr>ismp := False\<rparr>)
      else Some (Some s))"

text \<open>\<open>mpinit\<close>; its messages are left out.\<close>

definition mpinit :: "dev \<Rightarrow> mem \<Rightarrow> hw \<Rightarrow> hw option option" where
  "mpinit dv m s =
     (let s = s\<lparr>bcpu := 0\<rparr> in
      case mpconfig m of
        None \<Rightarrow> Some (Some s)
      | Some (mp, conf) \<Rightarrow>
          map_option (map_option (\<lambda>s.
            if \<not> ismp s then s\<lparr>ncpu := 1, lapic := 0, ioapicid := 0\<rparr>
            else if m (mp + 12) \<noteq> 0
            then let (v, h) = inb dv 0x23 (outb 0x22 0x70 (io s)) in s\<lparr>io := outb 0x23 (v OR 1) h\<rparr>
            else s))
          (mp_entries m (conf + 44) (conf + ucast (load16 m (conf + 4))) (s\<lparr>ismp := True, lapic := load32 m (conf + 36)\<rparr>)))"

section \<open>Lines and vectors\<close>

text \<open>Lines that have been enabled are those whose bit in the mask is clear.\<close>

lemma picenable_mask:
  assumes "irq < 16" and "i < 16"
  shows "bit (irqmask (picenable irq s)) i \<longleftrightarrow> bit (irqmask s) i \<and> i \<noteq> irq"
    "\<exists>h. io (picenable irq s) = h @ [Outb 0x21 (ucast (irqmask (picenable irq s))), Outb 0xA1 (ucast (drop_bit 8 (irqmask (picenable irq s))))]"
  using assms by (auto simp: picenable_def picsetmask_def bit_simps outb_def IO_PIC1_def IO_PIC2_def)

text \<open>The registers of the I/O APIC after a history: the selected register and the contents.\<close>

fun apic_step :: "io \<Rightarrow> uint \<times> (uint \<Rightarrow> uint) \<Rightarrow> uint \<times> (uint \<Rightarrow> uint)" where
  "apic_step (Store a v) (r, f) = (if a = IOAPIC then (v, f) else if a = IOAPIC + 16 then (r, f(r := v)) else (r, f))"
| "apic_step _ x = x"

definition apic_regs :: "io list \<Rightarrow> uint \<Rightarrow> uint" where
  "apic_regs h = snd (fold apic_step h (0, \<lambda>_. 0))"

lemma apic_write: "apic_regs (ioapicwrite reg v h) = (apic_regs h)(reg := v)"
  by (cases "fold apic_step h (0, \<lambda>_. 0)") (simp add: apic_regs_def ioapicwrite_def mstore_def IOAPIC_def)

lemma apic_read: "apic_regs (snd (ioapicread dv reg h)) = apic_regs h"
  by (cases "fold apic_step h (0, \<lambda>_. 0)") (simp add: apic_regs_def ioapicread_def mstore_def mload_def Let_def IOAPIC_def)

text \<open>The entry of line \<open>i\<close>: its two registers.\<close>

definition redirect :: "io list \<Rightarrow> nat \<Rightarrow> uint \<times> uint" where
  "redirect h i = (apic_regs h (REG_TABLE + 2 * of_nat i), apic_regs h (REG_TABLE + 2 * of_nat i + 1))"

lemma reg_inj:
  assumes "i < 256" and "j < 256"
  shows "REG_TABLE + 2 * of_nat i = REG_TABLE + 2 * of_nat j \<longleftrightarrow> i = j"
    "REG_TABLE + 2 * of_nat i \<noteq> REG_TABLE + 2 * of_nat j + 1" "REG_TABLE + 2 * of_nat i + 1 \<noteq> REG_TABLE + 2 * of_nat j"
proof -
  have u: "unat (REG_TABLE + 2 * of_nat k) = 16 + 2 * k" "unat (REG_TABLE + 2 * of_nat k + 1) = 17 + 2 * k" if "k < 256" for k
    using that by (simp_all add: REG_TABLE_def unat_word_ariths unat_of_nat)
  show "REG_TABLE + 2 * of_nat i = REG_TABLE + 2 * of_nat j \<longleftrightarrow> i = j"
    "REG_TABLE + 2 * of_nat i \<noteq> REG_TABLE + 2 * of_nat j + 1" "REG_TABLE + 2 * of_nat i + 1 \<noteq> REG_TABLE + 2 * of_nat j"
    using u assms by (auto simp: word_unat_eq_iff) presburger+
qed

lemma redirect_write:
  assumes "i < 256" and "j < 256"
  shows "redirect (ioapicwrite (REG_TABLE + 2 * of_nat i + 1) w (ioapicwrite (REG_TABLE + 2 * of_nat i) v h)) j =
    (if j = i then (v, w) else redirect h j)"
  using reg_inj [OF assms(2,1)] reg_inj [OF assms] by (auto simp: redirect_def apic_write)

lemma unat_and_byte: "unat (w AND 0xFF) < 256" for w :: uint
proof -
  have "w AND 0xFF = take_bit 8 w" by (simp add: take_bit_eq_mask mask_eq_exp_minus_1)
  then show ?thesis using take_bit_nat_less_exp [of 8 "unat w"] by (simp add: unsigned_take_bit_eq)
qed

text \<open>C26: Device interrupts are routed. On a multiprocessor, after \<open>ioapicinit\<close> every line the controller
  has is disabled and goes to no CPU; \<open>ioapicenable\<close> makes the line it is given deliver the vector that
  \<open>trap\<close> dispatches on to the CPU it is given, and changes no other line.\<close>

theorem ioapic_routes:
  assumes "ismp s" and "maxintr = unat (drop_bit 16 (fst (ioapicread dv REG_VER (io s))) AND 0xFF)" and "irq < 256" and "i < 256"
  shows "redirect (io (ioapicenable irq cpu s)) i = (if i = irq then (T_IRQ0 + of_nat irq, push_bit 24 (of_nat cpu)) else redirect (io s) i) \<and>
    redirect (io (ioapicinit dv s)) i = (if i \<le> maxintr then (INT_DISABLED OR (T_IRQ0 + of_nat i), 0) else redirect (io s) i)"
proof -
  have m: "maxintr < 256" unfolding assms(2) by (rule unat_and_byte)
  have f: "redirect (fold (\<lambda>i h. ioapicwrite (REG_TABLE + 2 * of_nat i + 1) 0
          (ioapicwrite (REG_TABLE + 2 * of_nat i) (INT_DISABLED OR (T_IRQ0 + of_nat i)) h)) [0..<n] h) i =
      (if i < n then (INT_DISABLED OR (T_IRQ0 + of_nat i), 0) else redirect h i)" if "n \<le> 256" for n h
    using that by (induction n) (auto simp: redirect_write assms(4))
  have "redirect (snd (ioapicread dv r h)) i = redirect h i" for r h by (simp add: redirect_def apic_read)
  then have "redirect (io (ioapicinit dv s)) i = (if i \<le> maxintr then (INT_DISABLED OR (T_IRQ0 + of_nat i), 0) else redirect (io s) i)"
    using f [of "Suc maxintr"] m assms(1,2) by (simp add: ioapicinit_def case_prod_beta Let_def less_Suc_eq_le del: upt_Suc)
  then show ?thesis using assms(1,3,4) by (simp add: ioapicenable_def redirect_write)
qed

definition demo_hw :: hw where
  "demo_hw = \<lparr>irqmask = irqmask0, ismp = True, ncpu = 0, bcpu = 0, cpu_ids = replicate NCPU 0, ioapicid = 0, lapic = 0xFEE00000, io = []\<rparr>"

theorem ioapic_routes_witness:
  "redirect (io (ioapicenable (unat IRQ_KBD) 1 demo_hw)) 1 = (33, 0x01000000)"
  using ioapic_routes [of demo_hw _ "\<lambda>_ _. 0" "unat IRQ_KBD" 1 1]
  by (simp add: demo_hw_def IRQ_KBD_def T_IRQ0_def)

section \<open>Reading the tables\<close>

text \<open>The entries of a configuration table.\<close>

datatype mpent = MpProc byte byte | MpIoapic byte | MpOther byte

fun ent_size :: "mpent \<Rightarrow> nat" where
  "ent_size (MpProc a f) = 20"
| "ent_size _ = 8"

fun ent_at :: "mem \<Rightarrow> uint \<Rightarrow> mpent \<Rightarrow> bool" where
  "ent_at m p (MpProc a f) \<longleftrightarrow> m p = MPPROC \<and> m (p + 1) = a \<and> m (p + 3) = f"
| "ent_at m p (MpIoapic a) \<longleftrightarrow> m p = MPIOAPIC \<and> m (p + 1) = a"
| "ent_at m p (MpOther t) \<longleftrightarrow> m p = t \<and> (t = MPBUS \<or> t = MPIOINTR \<or> t = MPLINTR)"

fun table_at :: "mem \<Rightarrow> uint \<Rightarrow> mpent list \<Rightarrow> bool" where
  "table_at m p [] \<longleftrightarrow> True"
| "table_at m p (x # xs) \<longleftrightarrow> ent_at m p x \<and> table_at m (p + of_nat (ent_size x)) xs"

definition span :: "mpent list \<Rightarrow> nat" where
  "span xs = sum_list (map ent_size xs)"

text \<open>The processors, by their identifiers.\<close>

fun proc_ids :: "mpent list \<Rightarrow> nat list" where
  "proc_ids [] = []"
| "proc_ids (MpProc a f # xs) = unat a # proc_ids xs"
| "proc_ids (_ # xs) = proc_ids xs"

text \<open>What an entry says.\<close>

fun ent_step :: "mpent \<Rightarrow> hw \<Rightarrow> hw" where
  "ent_step (MpProc a f) s = s\<lparr>ismp := (ismp s \<and> ncpu s = unat a), bcpu := (if f AND MPBOOT \<noteq> 0 then ncpu s else bcpu s),
     cpu_ids := (cpu_ids s)[ncpu s := of_nat (ncpu s)], ncpu := Suc (ncpu s)\<rparr>"
| "ent_step (MpIoapic a) s = s\<lparr>ioapicid := a\<rparr>"
| "ent_step (MpOther t) s = s"

lemma mp_cpu_step: "mp_cpu a f s = (if ncpu s < NCPU then Some (ent_step (MpProc a f) s) else None)"
  by (cases s) (simp add: mp_cpu_def Let_def)

lemma ent_steps_ncpu: "ncpu (fold ent_step xs s) = ncpu s + length (proc_ids xs)"
  by (induction xs arbitrary: s rule: proc_ids.induct) simp_all

lemma ent_steps_ismp:
  "ismp (fold ent_step xs s) \<longleftrightarrow> ismp s \<and> proc_ids xs = [ncpu s..<ncpu s + length (proc_ids xs)]"
  by (induction xs arbitrary: s rule: proc_ids.induct) (auto simp: upt_conv_Cons simp del: upt_Suc)

lemma unknown_type: "4 < t \<Longrightarrow> t \<noteq> MPPROC \<and> t \<noteq> MPIOAPIC \<and> t \<noteq> MPBUS \<and> t \<noteq> MPIOINTR \<and> t \<noteq> MPLINTR"
  by (auto simp: MPPROC_def MPIOAPIC_def MPBUS_def MPIOINTR_def MPLINTR_def)

text \<open>An entry of a type that is not known is never left.\<close>

lemma mp_stuck:
  assumes "mp_entries m p e s = Some r"
  shows "\<not> (p < e \<and> 4 < m p)"
proof (rule mp_entries.raw_induct [where P = "\<lambda>m p e s r. \<not> (p < e \<and> 4 < m p)", OF _ assms])
  fix loop :: "mem \<Rightarrow> uint \<Rightarrow> uint \<Rightarrow> hw \<Rightarrow> hw option option" and m :: mem and p e :: uint and s r
  assume IH: "\<And>m p e s r. loop m p e s = Some r \<Longrightarrow> \<not> (p < e \<and> 4 < m p)"
    and eq: "(if p < e
      then if m p = MPPROC
           then case mp_cpu (m (p + 1)) (m (p + 3)) s of None \<Rightarrow> Some None | Some t \<Rightarrow> loop m (p + 20) e t
           else if m p = MPIOAPIC then loop m (p + 8) e (s\<lparr>ioapicid := m (p + 1)\<rparr>)
           else if m p = MPBUS \<or> m p = MPIOINTR \<or> m p = MPLINTR then loop m (p + 8) e s
           else loop m p e (s\<lparr>ismp := False\<rparr>)
      else Some (Some s)) = Some r"
  show "\<not> (p < e \<and> 4 < m p)"
  proof
    assume a: "p < e \<and> 4 < m p"
    then have "loop m p e (s\<lparr>ismp := False\<rparr>) = Some r"
      using eq unknown_type [of "m p"] by simp
    with IH a show False by blast
  qed
qed

lemma mp_entries_table:
  assumes "table_at m p xs" and "unat p + span xs < 2 ^ 32" and "unat p + span xs \<le> unat e" and "ncpu s \<le> NCPU"
    and "unat p + span xs = unat e \<or> 4 < m (p + of_nat (span xs))"
  shows "mp_entries m p e s = (if NCPU < ncpu s + length (proc_ids xs) then Some None
    else if unat p + span xs = unat e then Some (Some (fold ent_step xs s)) else None)"
  using assms
proof (induction xs arbitrary: p s)
  case Nil
  show ?case
  proof (cases "unat p = unat e")
    case True
    then show ?thesis using Nil.prems(4) by (subst mp_entries.simps) (simp add: span_def word_less_nat_alt)
  next
    case False
    then have "p < e \<and> 4 < m p" using Nil.prems by (auto simp: span_def word_less_nat_alt)
    then have "mp_entries m p e s = None" using mp_stuck by (metis option.exhaust)
    then show ?thesis using False Nil.prems(4) by (simp add: span_def)
  qed
next
  case (Cons x xs)
  let ?p = "p + of_nat (ent_size x)"
  have sz: "0 < ent_size x" "ent_size x < 2 ^ 32" by (cases x; simp)+
  have sp: "span (x # xs) = ent_size x + span xs" by (simp add: span_def)
  have up: "unat ?p = unat p + ent_size x" using Cons.prems(2) sz(2) by (simp add: sp unat_word_ariths unat_of_nat)
  have lt: "p < e" using Cons.prems(3) sz(1) by (simp add: sp word_less_nat_alt)
  have eq: "p + of_nat (span (x # xs)) = ?p + of_nat (span xs)" by (simp add: sp)
  have IH: "mp_entries m ?p e t = (if NCPU < ncpu t + length (proc_ids xs) then Some None
    else if unat p + span (x # xs) = unat e then Some (Some (fold ent_step xs t)) else None)" if "ncpu t \<le> NCPU" for t
    using that Cons.prems Cons.IH [of ?p t] unfolding eq by (simp add: sp up add.assoc)
  show ?case
  proof (cases x)
    case (MpProc a f)
    then have st: "m p = MPPROC" "m (p + 1) = a" "m (p + 3) = f" using Cons.prems(1) by simp_all
    show ?thesis
    proof (cases "ncpu s < NCPU")
      case True
      then show ?thesis using MpProc lt st IH [of "ent_step (MpProc a f) s"] by (subst mp_entries.simps) (simp add: mp_cpu_step)
    next
      case False
      then show ?thesis using MpProc lt st by (subst mp_entries.simps) (simp add: mp_cpu_step)
    qed
  next
    case (MpIoapic a)
    then show ?thesis using lt Cons.prems(1,4) IH [of "ent_step (MpIoapic a) s"]
      by (subst mp_entries.simps) (simp add: MPPROC_def MPIOAPIC_def)
  next
    case (MpOther t)
    then show ?thesis using lt Cons.prems(1,4) IH [of s]
      by (subst mp_entries.simps) (auto simp: MPPROC_def MPIOAPIC_def MPBUS_def MPIOINTR_def MPLINTR_def)
  qed
qed

text \<open>C25: Reading the processor table. When \<open>mpinit\<close> goes through a table of entries of the types it knows,
  followed by its end or by an entry of another type, then it stores beyond \<open>cpus\<close> if there are more than
  \<open>NCPU\<close> processors, it never ends if there is an entry of another type, and otherwise it counts the
  processors, and the machine is taken for a multiprocessor only if their identifiers are 0, 1, 2
  and so on.\<close>

theorem mp_entries_result:
  assumes "table_at m p xs" and "unat p + span xs < 2 ^ 32" and "unat p + span xs \<le> unat e" and "ncpu s = 0"
    and "unat p + span xs = unat e \<or> 4 < m (p + of_nat (span xs))"
  shows "if NCPU < length (proc_ids xs) then mp_entries m p e s = Some None
    else if unat p + span xs \<noteq> unat e then mp_entries m p e s = None
    else \<exists>t. mp_entries m p e s = Some (Some t) \<and> ncpu t = length (proc_ids xs) \<and>
      (ismp t \<longleftrightarrow> ismp s \<and> proc_ids xs = [0..<length (proc_ids xs)])"
  using mp_entries_table [OF assms(1-3) _ assms(5), of s] assms(4) ent_steps_ncpu [of xs s] ent_steps_ismp [of xs s] by auto

text \<open>Two processors and an I/O APIC; and a table with an entry of type 9.\<close>

definition demo_table :: "byte \<Rightarrow> mem" where
  "demo_table t a = (if a = 0x1000 then MPPROC else if a = 0x1003 then MPBOOT else if a = 0x1014 then MPPROC else if a = 0x1015 then 1
     else if a = 0x1028 then t else 0)"

theorem mp_entries_result_witness:
  "(\<exists>t. mp_entries (demo_table MPIOAPIC) 0x1000 0x1030 demo_hw = Some (Some t) \<and> ncpu t = Suc (Suc 0) \<and> ismp t) \<and>
    mp_entries (demo_table 9) 0x1000 0x1030 demo_hw = None"
proof -
  have "table_at (demo_table MPIOAPIC) 0x1000 [MpProc 0 MPBOOT, MpProc 1 0, MpIoapic 0]" "table_at (demo_table 9) 0x1000 [MpProc 0 MPBOOT, MpProc 1 0]"
    by (simp_all add: demo_table_def MPPROC_def MPIOAPIC_def MPBOOT_def)
  then show ?thesis
    using mp_entries_result [of "demo_table MPIOAPIC" "0x1000" "[MpProc 0 MPBOOT, MpProc 1 0, MpIoapic 0]" "0x1030" demo_hw]
      mp_entries_result [of "demo_table 9" "0x1000" "[MpProc 0 MPBOOT, MpProc 1 0]" "0x1030" demo_hw]
    by (simp add: span_def demo_hw_def NCPU_def) (simp add: demo_table_def)
qed

section \<open>Reading the clock\<close>

text \<open>A clock that stands still: register \<open>r\<close> has the value \<open>reg r\<close> whenever it is selected.\<close>

definition clock_shows :: "dev \<Rightarrow> (byte \<Rightarrow> byte) \<Rightarrow> bool" where
  "clock_shows dv reg \<longleftrightarrow> (\<forall>h r. dv (h @ [Outb CMOS_PORT r]) (Port CMOS_RETURN) = ucast (reg r))"

lemma ucast_byte: "ucast (ucast b :: uint) = (b :: byte)"
  by (rule bit_word_eqI) (auto simp: bit_simps)

lemma ucast_and: "(ucast (a AND b) :: uint) = ucast a AND ucast b" for a b :: byte
  by (rule bit_word_eqI) (auto simp: bit_simps)

lemma cmos_read_clock: "clock_shows dv reg \<Longrightarrow> fst (cmos_read dv r h) = ucast (reg r)"
  by (simp add: clock_shows_def cmos_read_def inb_def outb_def Let_def ucast_byte)

definition to_bcd :: "nat \<Rightarrow> byte" where
  "to_bcd n = of_nat (16 * (n div 10) + n mod 10)"

lemma CONV_bcd:
  assumes "n < 100"
  shows "CONV (ucast (to_bcd n)) = of_nat n"
proof -
  have "\<forall>n \<in> {0..<100::nat}. CONV (ucast (to_bcd n)) = of_nat n" by code_simp
  then show ?thesis using assms by simp
qed

lemma cmostime_bcd:
  assumes "clock_shows dv reg" and "reg CMOS_STATA AND 0x80 = 0" and "reg CMOS_STATB AND 4 = 0"
    and "reg 0 = to_bcd s" "reg 2 = to_bcd m" "reg 4 = to_bcd u" "reg 7 = to_bcd d" "reg 8 = to_bcd n" "reg 9 = to_bcd y"
    and "s < 60" "m < 60" "u < 24" "d \<le> 31" "n \<le> 12" "y < 100"
  shows "\<exists>h'. cmostime dv h = Some (\<lparr>second = of_nat s, minute = of_nat m, hour = of_nat u, day = of_nat d,
    month = of_nat n, year = 2000 + of_nat y\<rparr>, h')"
proof -
  note r = cmos_read_clock [OF assms(1)]
  let ?t = "\<lparr>second = ucast (reg 0), minute = ucast (reg 2), hour = ucast (reg 4), day = ucast (reg 7), month = ucast (reg 8), year = ucast (reg 9)\<rparr>"
  have f: "fst (fill_rtcdate dv h) = ?t" for h by (simp add: fill_rtcdate_def r case_prod_beta Let_def)
  have a: "(ucast (reg CMOS_STATA) :: uint) AND 0x80 = 0" "(ucast (reg CMOS_STATB) :: uint) AND 4 = 0"
    using ucast_and [of "reg CMOS_STATA" "0x80"] ucast_and [of "reg CMOS_STATB" 4] assms(2,3) by simp_all
  have "\<exists>h'. stable_date dv h = Some (?t, h')" for h
    by (subst stable_date.simps) (simp add: f r a CMOS_UIP_def case_prod_beta Let_def)
  then obtain h' where h': "stable_date dv (snd (cmos_read dv CMOS_STATB h)) = Some (?t, h')" by blast
  show ?thesis
    using h' assms(4-) by (simp add: cmostime_def case_prod_beta Let_def r a CONV_bcd)
qed

end
