(* ===== verification/Spec2Isabelle.thy ===== *)
theory Spec2Isabelle
  imports Ring Cstring Spinlock Ptable Rand Kalloc Disk Bio Layout Log Log_Crash Log_Txn Ulib Sh_Parse Sh_Print Sh_Run
    Printf Textutils Fs Fs_Block Fs_Content Pipe File Vm Proc Syscall Exec Sysfile Console Trap Intr
begin

text \<open>
  A verification of xv6, a teaching operating system in C for the x86, in the version whose
  scheduler holds a lottery. The program is the kernel, its drivers, and the user programs that come
  with it. A user program enters the kernel by a system call (\<^verbatim>\<open>trap.c\<close>, \<^verbatim>\<open>syscall.c\<close>), which works on
  processes (\<^verbatim>\<open>proc.c\<close>, \<^verbatim>\<open>vm.c\<close>, \<^verbatim>\<open>kalloc.c\<close>) or on files (\<^verbatim>\<open>sysfile.c\<close>, \<^verbatim>\<open>file.c\<close>). Files are pipes
  (\<^verbatim>\<open>pipe.c\<close>), the console (\<^verbatim>\<open>console.c\<close>, \<^verbatim>\<open>kbd.c\<close>, \<^verbatim>\<open>uart.c\<close>) or inodes of a file system (\<^verbatim>\<open>fs.c\<close>) whose
  blocks are written through a log (\<^verbatim>\<open>log.c\<close>), a cache of buffers (\<^verbatim>\<open>bio.c\<close>) and the disk driver
  (\<^verbatim>\<open>ide.c\<close>). Locks (\<^verbatim>\<open>spinlock.c\<close>) and the pair \<open>sleep\<close> and \<open>wakeup\<close> order all of this. File
  names below are those of \<^verbatim>\<open>src/\<close>.

  \<^bold>\<open>How code is modelled.\<close> A kernel function that can panic or give up the CPU is a function of
  type \<open>('s, 'a) kop\<close>, from the state to an outcome: \<open>Done x s\<close> (it returned \<open>x\<close>), \<open>Panic msg\<close>, or
  \<open>Swtch s\<close> (it called \<open>swtch\<close> in state \<open>s\<close>). \<open>XV6_Prelude\<close> has the combinators that compose them,
  their execution rules and a weakest-precondition calculus. Code that continues after a \<open>sleep\<close> is
  a definition of its own, with the suffix \<open>_resume\<close>, which starts where the process is switched
  to again. The kernel state is a record that each component extends with its variables, in
  the order \<open>kstate\<close> (processes, locks), \<open>kmem_state\<close>, \<open>disk_state\<close>, \<open>log_state\<close>, \<open>fs_state\<close>,
  \<open>file_state\<close>, \<open>proc_state\<close>, \<open>cons_state\<close>, \<open>kbd_state\<close>. C integers keep their width (\<open>byte\<close>, \<open>ushort\<close>,
  \<open>uint\<close>), so that every wrap-around of the code is one of the model. A lock that a kernel function
  takes is an element of \<open>held\<close>, and taking a lock that is held is the panic of \<open>acquire\<close>; how
  several CPUs compete for a lock word is modelled in \<open>Spinlock\<close>, step by step.

  \<^bold>\<open>Base\<close>
  \<^item> \<open>XV6_Prelude\<close>: types, outcomes, combinators, shared facts.
  \<^item> \<open>Cstring\<close> (\<^verbatim>\<open>string.c\<close>): the memory and string routines on a byte-addressed memory. They are
    proved equal to their specifications, overlapping copies and both store paths included.
  \<^item> \<open>Ring\<close>: the contract of a first-in first-out buffer as a locale, and ring buffers with
    free-running 32-bit counters; used by \<open>Pipe\<close> and \<open>Console\<close>.
  \<^item> \<open>Allocator\<close>: the contract of an allocator as a locale, with the client's theorem that no
    resource has two owners; interpreted on the page allocator in \<open>Kalloc\<close>.

  \<^bold>\<open>Processes and memory\<close>
  \<^item> \<open>Spinlock\<close> (\<^verbatim>\<open>spinlock.c\<close>): locks on any number of CPUs, as operations and as a step relation
    with every interleaving; mutual exclusion, and the discipline of \<open>pushcli\<close> and \<open>popcli\<close>.
  \<^item> \<open>Ptable\<close> (\<^verbatim>\<open>proc.c\<close>): the process table, \<open>sleep\<close>, \<open>wakeup\<close>, \<open>kill\<close> and one round of the lottery
    scheduler; the chance of a process is its share of the tickets, a sleeper misses no wakeup.
  \<^item> \<open>Rand\<close> (\<^verbatim>\<open>rand.c\<close>): the Mersenne twister refined to its recurrence, and that the rejection
    sampling draws uniformly. The loop that may not end is a \<open>partial_function\<close>, and when it
    returns is part of the theorem.
  \<^item> \<open>Kalloc\<close> (\<^verbatim>\<open>kalloc.c\<close>): the page allocator with its free list in memory.
  \<^item> \<open>Vm\<close> (\<^verbatim>\<open>vm.c\<close>), \<open>Proc\<close> (\<^verbatim>\<open>proc.c\<close>), \<open>Exec\<close> (\<^verbatim>\<open>exec.c\<close>), \<open>Syscall\<close> (\<^verbatim>\<open>syscall.c\<close>, \<^verbatim>\<open>sysproc.c\<close>), \<open>Trap\<close>
    (\<^verbatim>\<open>trap.c\<close>, \<^verbatim>\<open>kbd.c\<close>): page tables, the life of a process, the system calls, the trap handler and
    the keyboard decoder; a killed process never gets back to user space, \<open>sleep(n)\<close> returns,
    the keyboard delivers bytes.
  \<^item> \<open>Intr\<close> (\<^verbatim>\<open>picirq.c\<close>, \<^verbatim>\<open>ioapic.c\<close>, \<^verbatim>\<open>lapic.c\<close>, \<^verbatim>\<open>timer.c\<close>, \<^verbatim>\<open>mp.c\<close>): interrupt controllers, clock and
    processor tables, as histories of accesses to devices; lines reach their vectors, and when
    reading the processor table ends and what it finds.

  \<^bold>\<open>Files\<close>
  \<^item> \<open>Disk\<close> (\<^verbatim>\<open>ide.c\<close>, \<^verbatim>\<open>memide.c\<close>): the two drivers, proved to have the same effect.
  \<^item> \<open>Bio\<close> (\<^verbatim>\<open>bio.c\<close>): the buffer cache, transparent to its callers.
  \<^item> \<open>Layout\<close> (\<^verbatim>\<open>fs.h\<close>): the on-disk structures and their byte encodings.
  \<^item> \<open>Log\<close>, \<open>Log_Crash\<close>, \<open>Log_Txn\<close> (\<^verbatim>\<open>log.c\<close>): the log; a commit is atomic when the disk stops after any
    of its writes, recovery can itself be interrupted, and ending the last operation commits.
  \<^item> \<open>Fs\<close> (\<^verbatim>\<open>fs.c\<close>): blocks, inodes, directories and paths.
  \<^item> \<open>Fs_Block\<close>, \<open>Fs_Content\<close>: what these operations do inside a transaction. A step of \<open>fs.c\<close> is described
    by how it changes the blocks as the kernel sees them, \<open>view\<close>; on top of that the block allocator
    is correct with respect to the set of free blocks, and \<open>readi\<close> and \<open>writei\<close> refine taking and
    overwriting bytes of a list, through \<open>bmap\<close>, direct and indirect blocks.
  \<^item> \<open>Pipe\<close> (\<^verbatim>\<open>pipe.c\<close>): pipes; a pipe is a stream under every interleaving, nobody sleeps on it in
    vain, a waiting reader is served.
  \<^item> \<open>File\<close> (\<^verbatim>\<open>file.c\<close>) and \<open>Sysfile\<close> (\<^verbatim>\<open>sysfile.c\<close>): open files and the system calls on them.
  \<^item> \<open>Console\<close> (\<^verbatim>\<open>console.c\<close>, \<^verbatim>\<open>uart.c\<close>): screen and line editor, refined to reference ones; what is
    typed is what is read.

  \<^bold>\<open>User programs\<close>
  \<^item> \<open>Ulib\<close> (\<^verbatim>\<open>ulib.c\<close>), \<open>Printf\<close> (\<^verbatim>\<open>printf.c\<close>): strings and formatting, \<open>atoi\<close> reads what \<open>%d\<close> prints.
  \<^item> \<open>Sh_Parse\<close>, \<open>Sh_Print\<close>, \<open>Sh_Run\<close> (\<^verbatim>\<open>sh.c\<close>): the parser, total and inverse to a printer of
    commands, and the execution of commands on descriptor tables.
  \<^item> \<open>Textutils\<close> (\<^verbatim>\<open>grep.c\<close>, \<^verbatim>\<open>wc.c\<close>): the matcher against the language of a pattern, counting.

  \<^bold>\<open>Bounds and fuel.\<close> The shell's parser takes fuel, four units for each character of the line and
  four more, and never runs out of it. The loop of \<open>deallocuvm\<close> takes one unit for each page below
  \<open>oldsz\<close>. Loops whose end depends on other processes or on the generator are not bounded:
  they are \<open>partial_function\<close>s, or end in \<open>Swtch\<close> and go on in a \<open>_resume\<close> definition. The bitmap of
  the file system is one block, as \<open>FSSIZE\<close> is 1000. All other loops are recursive functions that
  are proved to terminate.

  \<^bold>\<open>Parameters.\<close> What lies outside the program is an argument: the addresses that the linker
  chooses (\<open>linkage\<close>), the CPU, user memory, fault address, clock, disk status and incoming bytes
  of a trap (\<open>machine\<close> of \<open>Trap\<close>), the devices' functions (\<open>devsw\<close>), the random numbers of a round.

  \<^bold>\<open>Not modelled.\<close>
  \<^item> Start-up (\<^verbatim>\<open>bootasm.S\<close>, \<^verbatim>\<open>bootmain.c\<close>, \<^verbatim>\<open>entry.S\<close>, \<^verbatim>\<open>main.c\<close>): done once, in assembly or before there
    is a kernel.
  \<^item> \<^verbatim>\<open>swtch.S\<close>, \<^verbatim>\<open>trapasm.S\<close>, \<^verbatim>\<open>vectors.S\<close>, \<^verbatim>\<open>usys.S\<close>: assembly. The switch of contexts is the outcome
    \<open>Swtch\<close>.
  \<^item> \<^verbatim>\<open>usertests.c\<close>, \<^verbatim>\<open>forktest.c\<close>, \<^verbatim>\<open>stressfs.c\<close>, \<^verbatim>\<open>hackbench.c\<close>, \<^verbatim>\<open>lotterytest.c\<close>: tests.
  \<^item> The small user programs and \<^verbatim>\<open>umalloc.c\<close>, and \<^verbatim>\<open>mkfs.c\<close>, which runs on the host.
\<close>

end
